(* ===== verification/Prelude.thy ===== *)
theory Prelude
  imports Main "HOL-Library.Word"
begin

unbundle bit_operations_syntax

text \<open>
  Shared ground of the CascadeRPC development: the machine integers of the Rust sources as
  fixed-width words, the few operations of the Rust standard library the components use
  (checked and saturating integer conversions, \<open>Iterator::position\<close>, \<open>str::from_utf8\<close>,
  \<open>str::trim\<close>, \<open>str::parse::<u32>\<close>), the one-bit masks of the router, and the notion of a
  reachable state with the locale that lifts a one-step invariant to every reachable state.

  A Rust byte string and a Rust \<open>str\<close> are both modelled as \<^typ>\<open>string\<close>: an Isabelle
  \<^typ>\<open>char\<close> is one byte. \<open>usize\<close> is \<^typ>\<open>nat\<close>: every value of that type in the sources is
  a length or an index below one. A \<open>Duration\<close> or \<open>Instant\<close> is a \<^typ>\<open>nat\<close> of nanoseconds.
\<close>

section \<open>Types and collections of facts\<close>

type_synonym u8 = "8 word"
type_synonym u16 = "16 word"
type_synonym u32 = "32 word"
type_synonym u64 = "64 word"
type_synonym i32 = "32 word"
type_synonym bytes = string
type_synonym duration = nat
type_synonym instant = nat

named_theorems quota_simps \<open>facts on the usage counters\<close>
named_theorems node_simps \<open>frame facts of the operations on one node\<close>
named_theorems route_simps \<open>frame facts of the routing steps\<close>

abbreviation u32_MAX :: u32 where
  "u32_MAX \<equiv> 4294967295"

abbreviation u64_MAX :: u64 where
  "u64_MAX \<equiv> 18446744073709551615"

section \<open>Integer conversions and saturating arithmetic\<close>

text \<open>\<open>u32::try_from\<close> on an unsigned value.\<close>

definition u32_try_from :: "nat \<Rightarrow> u32 option" where
  "u32_try_from n = (if n < 2 ^ 32 then Some (of_nat n) else None)"

text \<open>\<open>saturating_add\<close> on an unsigned integer of any width.\<close>

definition saturating_add :: "'a::len word \<Rightarrow> 'a word \<Rightarrow> 'a word" where
  "saturating_add a b = (if unat a + unat b < 2 ^ LENGTH('a) then a + b else - 1)"

lemma unat_minus_one_max: "unat (- 1 :: 'a::len word) = 2 ^ LENGTH('a) - 1"
  by (simp add: unsigned_minus_1_eq_mask mask_eq_exp_minus_1)

lemma unat_saturating_add:
  "unat (saturating_add a b) = min (unat a + unat b) (2 ^ LENGTH('a) - 1)"
  for a b :: "'a::len word"
  by (auto simp: saturating_add_def unat_minus_one_max unat_word_ariths)

lemma u32_try_from_Some_iff: "u32_try_from n = Some w \<longleftrightarrow> n < 2 ^ 32 \<and> unat w = n"
  by (auto simp: u32_try_from_def unsigned_of_nat take_bit_nat_eq_self
      word_unat_eq_iff split: if_splits)

lemma unat_u32_lt [simp]: "unat (w :: u32) < 4294967296"
  using unsigned_less [of w, where 'a = nat] by simp

lemma unat_u64_lt [simp]: "unat (w :: u64) < 18446744073709551616"
  using unsigned_less [of w, where 'a = nat] by simp

section \<open>Positions in a list\<close>

text \<open>\<open>Iterator::position\<close>: the index of the first element that satisfies the predicate.\<close>

primrec position :: "('a \<Rightarrow> bool) \<Rightarrow> 'a list \<Rightarrow> nat option" where
  "position P [] = None"
| "position P (x # xs) = (if P x then Some 0 else map_option Suc (position P xs))"

lemma position_None_iff: "position P xs = None \<longleftrightarrow> (\<forall>x \<in> set xs. \<not> P x)"
  by (induction xs) auto

lemma position_Some_iff:
  "position P xs = Some i \<longleftrightarrow> i < length xs \<and> P (xs ! i) \<and> (\<forall>j < i. \<not> P (xs ! j))"
proof (induction xs arbitrary: i)
  case Nil
  then show ?case by simp
next
  case (Cons x xs)
  show ?case
  proof (cases i)
    case 0
    then show ?thesis by (auto split: if_splits)
  next
    case (Suc k)
    with Cons show ?thesis by (auto simp: less_Suc_eq_0_disj)
  qed
qed

lemma position_append:
  "position P (xs @ ys) =
     (case position P xs of Some i \<Rightarrow> Some i
      | None \<Rightarrow> map_option ((+) (length xs)) (position P ys))"
proof (induction xs)
  case Nil
  have "(+) (0 :: nat) = (\<lambda>i. i)" by (simp add: fun_eq_iff)
  then show ?case by (simp add: option.map_ident)
next
  case (Cons x xs)
  then show ?case
    by (auto simp: option.map_comp comp_def split: option.splits intro!: option.map_cong)
qed

lemma position_lt: "position P xs = Some i \<Longrightarrow> i < length xs"
  by (simp add: position_Some_iff)

lemma position_cong:
  "(\<And>x. x \<in> set xs \<Longrightarrow> P x = Q x) \<Longrightarrow> position P xs = position Q xs"
  by (induction xs) auto

lemma position_take_drop:
  "position P xs = Some i \<Longrightarrow> xs = take i xs @ xs ! i # drop (Suc i) xs \<and> (\<forall>x \<in> set (take i xs). \<not> P x)"
  by (auto simp: position_Some_iff id_take_nth_drop in_set_conv_nth)

section \<open>One-bit masks\<close>

text \<open>
  \<open>1u64 << id\<close>. A shift by 64 or more is an overflow of the shift operator (a panic where
  overflow checks are on), which is the value \<^const>\<open>None\<close> here.
\<close>

definition slot_bit :: "nat \<Rightarrow> u64 option" where
  "slot_bit k = (if k < 64 then Some (push_bit k 1) else None)"

lemma slot_bit_Some [simp]: "k < 64 \<Longrightarrow> slot_bit k = Some (2 ^ k)"
  by (simp add: slot_bit_def)

lemma and_slot_bit [simp]: "(w AND 2 ^ k = (0 :: u64)) = (\<not> bit w k)"
  by (simp add: and_exp_eq_0_iff_not_bit)

lemma bit_or_slot_bit [simp]: "k < 64 \<Longrightarrow> bit ((w :: u64) OR 2 ^ k) j = (bit w j \<or> j = k)"
  by (auto simp: bit_simps)

section \<open>UTF-8\<close>

text \<open>
  \<open>std::str::from_utf8\<close> accepts exactly the well-formed byte sequences of the Unicode
  standard (table 3-7): \<open>utf8_ok\<close> reads one code point at a time.
\<close>

abbreviation byte_in :: "nat \<Rightarrow> nat \<Rightarrow> char \<Rightarrow> bool" where
  "byte_in lo hi c \<equiv> lo \<le> of_char c \<and> of_char c \<le> hi"

fun utf8_ok :: "bytes \<Rightarrow> bool" where
  "utf8_ok [] = True"
| "utf8_ok (a # s) =
     (if byte_in 0 0x7F a then utf8_ok s
      else if byte_in 0xC2 0xDF a then
        (case s of b # s' \<Rightarrow> byte_in 0x80 0xBF b \<and> utf8_ok s' | _ \<Rightarrow> False)
      else if byte_in 0xE0 0xEF a then
        (case s of b # c # s' \<Rightarrow>
           byte_in (if of_char a = (0xE0 :: nat) then 0xA0 else 0x80)
                   (if of_char a = (0xED :: nat) then 0x9F else 0xBF) b
           \<and> byte_in 0x80 0xBF c \<and> utf8_ok s'
         | _ \<Rightarrow> False)
      else if byte_in 0xF0 0xF4 a then
        (case s of b # c # d # s' \<Rightarrow>
           byte_in (if of_char a = (0xF0 :: nat) then 0x90 else 0x80)
                   (if of_char a = (0xF4 :: nat) then 0x8F else 0xBF) b
           \<and> byte_in 0x80 0xBF c \<and> byte_in 0x80 0xBF d \<and> utf8_ok s'
         | _ \<Rightarrow> False)
      else False)"

definition from_utf8 :: "bytes \<Rightarrow> string option" where
  "from_utf8 s = (if utf8_ok s then Some s else None)"

lemma utf8_ok_ascii: "\<forall>c \<in> set s. of_char c < (128 :: nat) \<Longrightarrow> utf8_ok s"
  by (induction s) auto

section \<open>Trimming and parsing\<close>

text \<open>
  \<open>str::trim\<close> on a header value, whose bytes are visible ASCII, blanks and tabs, and
  \<open>str::parse::<u32>\<close>: an optional plus sign and at least one decimal digit, refused on
  overflow.
\<close>

definition ascii_ws :: "char \<Rightarrow> bool" where
  "ascii_ws c \<longleftrightarrow> of_char c \<in> {0x09, 0x0A, 0x0B, 0x0C, 0x0D, 0x20 :: nat}"

definition trim :: "string \<Rightarrow> string" where
  "trim s = rev (dropWhile ascii_ws (rev (dropWhile ascii_ws s)))"

definition digit_value :: "char \<Rightarrow> nat option" where
  "digit_value c = (if byte_in 0x30 0x39 c then Some (of_char c - 0x30) else None)"

fun parse_digits :: "nat \<Rightarrow> string \<Rightarrow> nat option" where
  "parse_digits acc [] = Some acc"
| "parse_digits acc (c # cs) =
     (case digit_value c of None \<Rightarrow> None
      | Some d \<Rightarrow> (if acc * 10 + d < 2 ^ 32 then parse_digits (acc * 10 + d) cs else None))"

definition parse_u32 :: "string \<Rightarrow> u32 option" where
  "parse_u32 s =
     (let ds = (case s of [] \<Rightarrow> [] | c # cs \<Rightarrow> if c = CHR ''+'' then cs else c # cs)
      in if ds = [] then None else map_option of_nat (parse_digits 0 ds))"

section \<open>Reachable states\<close>

inductive reachable :: "('s \<Rightarrow> bool) \<Rightarrow> ('s \<Rightarrow> 's \<Rightarrow> bool) \<Rightarrow> 's \<Rightarrow> bool"
  for init :: "'s \<Rightarrow> bool" and step :: "'s \<Rightarrow> 's \<Rightarrow> bool" where
  reachable_init: "init s \<Longrightarrow> reachable init step s"
| reachable_step: "reachable init step s \<Longrightarrow> step s t \<Longrightarrow> reachable init step t"

text \<open>
  The contract of an inductive invariant: it holds at the start and one step keeps it.
\<close>

locale invariant_machine =
  fixes init :: "'s \<Rightarrow> bool"
    and step :: "'s \<Rightarrow> 's \<Rightarrow> bool"
    and invar :: "'s \<Rightarrow> bool"
  assumes invar_init: "init s \<Longrightarrow> invar s"
    and invar_step: "invar s \<Longrightarrow> step s t \<Longrightarrow> invar t"
begin

lemma invar_reachable: "reachable init step s \<Longrightarrow> invar s"
  by (induction rule: reachable.induct) (auto intro: invar_init invar_step)

lemma invar_rtrancl: "step\<^sup>*\<^sup>* s t \<Longrightarrow> invar s \<Longrightarrow> invar t"
  by (induction rule: rtranclp_induct) (auto intro: invar_step)

end

text \<open>
  The contract of a refinement: under the invariant, every step of the machine is one event of an abstract
  state, an event the abstract state permits and the step has a cause for. An execution is then a
  history of events, and an invariant of the abstract state holds in every reachable one.
\<close>

inductive history :: "('s \<Rightarrow> 's \<Rightarrow> bool) \<Rightarrow> ('s \<Rightarrow> 's \<Rightarrow> 'e \<Rightarrow> bool) \<Rightarrow> 's \<Rightarrow> 'e list \<Rightarrow> 's \<Rightarrow> bool"
  for step :: "'s \<Rightarrow> 's \<Rightarrow> bool" and caused :: "'s \<Rightarrow> 's \<Rightarrow> 'e \<Rightarrow> bool" where
  history_start: "history step caused s [] s"
| history_event: "history step caused s evs t \<Longrightarrow> step t u \<Longrightarrow> caused t u ev \<Longrightarrow> history step caused s (evs @ [ev]) u"

locale event_refinement = invariant_machine init step invar
  for init :: "'s \<Rightarrow> bool" and step :: "'s \<Rightarrow> 's \<Rightarrow> bool" and invar :: "'s \<Rightarrow> bool" +
  fixes abs :: "'s \<Rightarrow> 'a"
    and enter :: "'e \<Rightarrow> 'a \<Rightarrow> 'a"
    and permitted :: "'a \<Rightarrow> 'e \<Rightarrow> bool"
    and caused :: "'s \<Rightarrow> 's \<Rightarrow> 'e \<Rightarrow> bool"
  assumes simulated: "invar s \<Longrightarrow> step s t \<Longrightarrow>
    \<exists>ev. caused s t ev \<and> permitted (abs s) ev \<and> abs t = enter ev (abs s)"
begin

lemma execution_refined:
  assumes "step\<^sup>*\<^sup>* s t" and "invar s"
  shows "\<exists>evs. history step caused s evs t \<and> abs t = fold enter evs (abs s)"
  using assms(1)
proof (induction rule: rtranclp_induct)
  case base
  show ?case by (intro exI [of _ "[]"]) (simp add: history_start)
next
  case (step t u)
  then obtain evs where evs: "history step caused s evs t" "abs t = fold enter evs (abs s)" by blast
  obtain ev where ev: "caused t u ev" "abs u = enter ev (abs t)"
    using simulated [OF invar_rtrancl [OF step(1) assms(2)] step(2)] by blast
  with history_event [OF evs(1) step(2)] evs(2) show ?case by (intro exI [of _ "evs @ [ev]"]) simp
qed

lemma abstract_invariant:
  assumes "reachable init step s" and "\<And>s. init s \<Longrightarrow> good (abs s)"
    and "\<And>a ev. good a \<Longrightarrow> permitted a ev \<Longrightarrow> good (enter ev a)"
  shows "good (abs s)"
  using assms(1)
proof (induction rule: reachable.induct)
  case (reachable_step s t)
  with simulated [OF invar_reachable [OF reachable_step(1)] reachable_step(2)] assms(3) show ?case by metis
qed (rule assms(2))

end

end
