(* ===== verification/Metrics.thy ===== *)
theory Metrics
  imports Prelude
begin

text \<open>
  The metrics module (\<open>src/metrics.rs\<close>): the three outcome enums with their labels and
  discriminants, the handle arrays a node resolves once, the emission functions and the
  descriptions. The exporter crate behind the handles is outside the repository; what the
  module does to it is an observable output, modelled as the list of operations it performs
  (\<^verbatim>\<open>metric_op\<close> below). A handle is the metric key it was resolved from.
\<close>

section \<open>Outcome enums\<close>

datatype outcome =
    Success | ForwardedHttpError | ForwardedRpcError | RetryableRpcError
  | InvalidJson | BodyError | TransportError

datatype skip_reason =
    SkipRateLimit | SkipQuotaExhausted | SkipMethodUnsupported | SkipSaturated | SkipPenalized

datatype request_outcome =
    ReqForwarded | ReqBadRequest | ReqBadGateway | ReqTimeout

definition outcome_ALL :: "outcome list" where
  "outcome_ALL = [Success, ForwardedHttpError, ForwardedRpcError, RetryableRpcError,
     InvalidJson, BodyError, TransportError]"

definition skip_reason_ALL :: "skip_reason list" where
  "skip_reason_ALL = [SkipRateLimit, SkipQuotaExhausted, SkipMethodUnsupported, SkipSaturated,
     SkipPenalized]"

definition request_outcome_ALL :: "request_outcome list" where
  "request_outcome_ALL = [ReqForwarded, ReqBadRequest, ReqBadGateway, ReqTimeout]"

fun outcome_label :: "outcome \<Rightarrow> string" where
  "outcome_label Success = ''success''"
| "outcome_label ForwardedHttpError = ''forwarded_http_error''"
| "outcome_label ForwardedRpcError = ''forwarded_rpc_error''"
| "outcome_label RetryableRpcError = ''retryable_rpc_error''"
| "outcome_label InvalidJson = ''invalid_json''"
| "outcome_label BodyError = ''body_error''"
| "outcome_label TransportError = ''transport_error''"

fun skip_reason_label :: "skip_reason \<Rightarrow> string" where
  "skip_reason_label SkipRateLimit = ''rate_limit''"
| "skip_reason_label SkipQuotaExhausted = ''quota_exhausted''"
| "skip_reason_label SkipMethodUnsupported = ''method_unsupported''"
| "skip_reason_label SkipSaturated = ''saturated''"
| "skip_reason_label SkipPenalized = ''penalized''"

fun request_outcome_label :: "request_outcome \<Rightarrow> string" where
  "request_outcome_label ReqForwarded = ''forwarded''"
| "request_outcome_label ReqBadRequest = ''bad_request''"
| "request_outcome_label ReqBadGateway = ''bad_gateway''"
| "request_outcome_label ReqTimeout = ''timeout''"

text \<open>\<open>variant as usize\<close>: the implicit discriminants, in declaration order.\<close>

fun outcome_index :: "outcome \<Rightarrow> nat" where
  "outcome_index Success = 0"
| "outcome_index ForwardedHttpError = 1"
| "outcome_index ForwardedRpcError = 2"
| "outcome_index RetryableRpcError = 3"
| "outcome_index InvalidJson = 4"
| "outcome_index BodyError = 5"
| "outcome_index TransportError = 6"

fun skip_reason_index :: "skip_reason \<Rightarrow> nat" where
  "skip_reason_index SkipRateLimit = 0"
| "skip_reason_index SkipQuotaExhausted = 1"
| "skip_reason_index SkipMethodUnsupported = 2"
| "skip_reason_index SkipSaturated = 3"
| "skip_reason_index SkipPenalized = 4"

fun request_outcome_index :: "request_outcome \<Rightarrow> nat" where
  "request_outcome_index ReqForwarded = 0"
| "request_outcome_index ReqBadRequest = 1"
| "request_outcome_index ReqBadGateway = 2"
| "request_outcome_index ReqTimeout = 3"

section \<open>Handles and emissions\<close>

record metric_key =
  metric_name :: string
  metric_labels :: "(string \<times> string) list"

text \<open>
  The value of a gauge before it is rounded to an \<open>f64\<close>: a quotient of two integers, or NaN.
\<close>

datatype gauge_value = GaugeNaN | GaugeRatio nat nat

datatype metric_kind = KindCounter | KindGauge | KindHistogram

datatype metric_op =
    CounterIncrement metric_key nat
  | HistogramRecord metric_key duration
  | GaugeSet metric_key gauge_value
  | GaugeIncrement metric_key nat
  | GaugeDecrement metric_key nat
  | Describe metric_kind string bool string

fun op_name :: "metric_op \<Rightarrow> string" where
  "op_name (CounterIncrement k _) = metric_name k"
| "op_name (HistogramRecord k _) = metric_name k"
| "op_name (GaugeSet k _) = metric_name k"
| "op_name (GaugeIncrement k _) = metric_name k"
| "op_name (GaugeDecrement k _) = metric_name k"
| "op_name (Describe _ n _ _) = n"

record node_metrics =
  attempts :: "metric_key list"
  durations :: "metric_key list"
  skips :: "metric_key list"

definition NodeMetrics_new :: "string \<Rightarrow> node_metrics" where
  "NodeMetrics_new node = \<lparr>
     attempts = map (\<lambda>oc. \<lparr>metric_name = ''rpc_upstream_attempts'',
        metric_labels = [(''node'', node), (''outcome'', outcome_label oc)]\<rparr>) outcome_ALL,
     durations = map (\<lambda>oc. \<lparr>metric_name = ''rpc_upstream_duration'',
        metric_labels = [(''node'', node), (''outcome'', outcome_label oc)]\<rparr>) outcome_ALL,
     skips = map (\<lambda>rs. \<lparr>metric_name = ''rpc_upstream_skips'',
        metric_labels = [(''node'', node), (''reason'', skip_reason_label rs)]\<rparr>)
        skip_reason_ALL \<rparr>"

definition record_attempt :: "node_metrics \<Rightarrow> outcome \<Rightarrow> duration \<Rightarrow> metric_op list" where
  "record_attempt m oc dur =
     [CounterIncrement (attempts m ! outcome_index oc) 1,
      HistogramRecord (durations m ! outcome_index oc) dur]"

definition record_skip :: "node_metrics \<Rightarrow> skip_reason \<Rightarrow> metric_op list" where
  "record_skip m rs = [CounterIncrement (skips m ! skip_reason_index rs) 1]"

definition REQUEST :: "(metric_key \<times> metric_key) list" where
  "REQUEST = map (\<lambda>oc.
     (\<lparr>metric_name = ''rpc_requests'',
       metric_labels = [(''outcome'', request_outcome_label oc)]\<rparr>,
      \<lparr>metric_name = ''rpc_request_duration'',
       metric_labels = [(''outcome'', request_outcome_label oc)]\<rparr>)) request_outcome_ALL"

definition record_request :: "request_outcome \<Rightarrow> duration \<Rightarrow> metric_op list" where
  "record_request oc dur =
     (case REQUEST ! request_outcome_index oc of
        (count, dura) \<Rightarrow> [CounterIncrement count 1, HistogramRecord dura dur])"

definition SLEEP_QUEUE :: metric_key where
  "SLEEP_QUEUE = \<lparr>metric_name = ''rpc_sleep_queue_size'', metric_labels = []\<rparr>"

text \<open>The guard raises the gauge when it is made and lowers it when it is dropped.\<close>

definition GaugeGuard_new :: "metric_key \<Rightarrow> metric_op list" where
  "GaugeGuard_new gauge = [GaugeIncrement gauge 1]"

definition GaugeGuard_drop :: "metric_key \<Rightarrow> metric_op list" where
  "GaugeGuard_drop gauge = [GaugeDecrement gauge 1]"

definition sleeping_on_rate_limit :: "metric_op list" where
  "sleeping_on_rate_limit = GaugeGuard_new SLEEP_QUEUE"

text \<open>\<open>u8::to_string\<close>.\<close>

definition digit_char :: "nat \<Rightarrow> char" where
  "digit_char d = char_of (48 + d)"

fun decimal :: "nat \<Rightarrow> string" where
  "decimal n = (if n < 10 then [digit_char n] else decimal (n div 10) @ [digit_char (n mod 10)])"

declare decimal.simps [simp del]

definition set_node_state ::
  "string \<Rightarrow> u8 \<Rightarrow> bool \<Rightarrow> u32 option \<Rightarrow> metric_op list" where
  "set_node_state node tier penalized ema_us =
     [GaugeSet \<lparr>metric_name = ''rpc_node_healthy'',
        metric_labels = [(''node'', node), (''tier'', decimal (unat tier))]\<rparr>
        (if penalized then GaugeRatio 0 1 else GaugeRatio 1 1),
      GaugeSet \<lparr>metric_name = ''rpc_node_latency_ema'',
        metric_labels = [(''node'', node), (''tier'', decimal (unat tier))]\<rparr>
        (case ema_us of None \<Rightarrow> GaugeNaN | Some us \<Rightarrow> GaugeRatio (unat us) 1000000)]"

definition set_healthy_nodes :: "nat \<Rightarrow> metric_op list" where
  "set_healthy_nodes count =
     [GaugeSet \<lparr>metric_name = ''rpc_healthy_nodes'', metric_labels = []\<rparr>
        (GaugeRatio (case u32_try_from count of Some w \<Rightarrow> unat w | None \<Rightarrow> unat u32_MAX) 1)]"

definition set_node_quota :: "string \<Rightarrow> u64 \<Rightarrow> u64 \<Rightarrow> metric_op list" where
  "set_node_quota node used threshold =
     [GaugeSet \<lparr>metric_name = ''rpc_node_quota_used'', metric_labels = [(''node'', node)]\<rparr>
        (GaugeRatio (unat used) 1),
      GaugeSet \<lparr>metric_name = ''rpc_node_quota_threshold'', metric_labels = [(''node'', node)]\<rparr>
        (GaugeRatio (unat threshold) 1)]"

text \<open>The Boolean of \<^const>\<open>Describe\<close> says whether the unit of the metric is seconds.\<close>

definition describe_all :: "metric_op list" where
  "describe_all = [
     Describe KindCounter ''rpc_upstream_attempts'' False
       ''Attempts sent to upstream RPC nodes'',
     Describe KindHistogram ''rpc_upstream_duration'' True
       ''Upstream RPC attempt duration'',
     Describe KindCounter ''rpc_upstream_skips'' False
       ''Nodes passed over without sending a request'',
     Describe KindCounter ''rpc_requests'' False
       ''Client requests handled by CascadeRPC'',
     Describe KindHistogram ''rpc_request_duration'' True
       ''End-to-end CascadeRPC request duration'',
     Describe KindGauge ''rpc_sleep_queue_size'' False
       ''Number of requests currently sleeping while all RPC nodes are rate-limited'',
     Describe KindGauge ''rpc_node_healthy'' False
       ''Whether an RPC node is free of penalties from its recent traffic'',
     Describe KindGauge ''rpc_healthy_nodes'' False
       ''Number of RPC nodes not currently serving a penalty'',
     Describe KindGauge ''rpc_node_latency_ema'' True
       ''Moving average of an RPC node's answered attempts'',
     Describe KindGauge ''rpc_node_quota_used'' False
       ''Usage a node has booked in the current billing period'',
     Describe KindGauge ''rpc_node_quota_threshold'' False
       ''Usage past which the router stops routing to a node'']"

section \<open>Facts\<close>

text \<open>The compile-time assertion of the module: \<open>ALL\<close> is in discriminant order.\<close>

lemma outcome_ALL_nth [simp]: "outcome_ALL ! outcome_index oc = oc"
  and outcome_index_lt [simp]: "outcome_index oc < length outcome_ALL"
  by (cases oc; simp add: outcome_ALL_def)+

lemma skip_reason_ALL_nth [simp]: "skip_reason_ALL ! skip_reason_index rs = rs"
  and skip_reason_index_lt [simp]: "skip_reason_index rs < length skip_reason_ALL"
  by (cases rs; simp add: skip_reason_ALL_def)+

lemma request_outcome_ALL_nth [simp]: "request_outcome_ALL ! request_outcome_index oc = oc"
  and request_outcome_index_lt [simp]: "request_outcome_index oc < length request_outcome_ALL"
  by (cases oc; simp add: request_outcome_ALL_def)+

text \<open>
  The arrays \<open>ALL\<close> list every variant exactly once, so they enumerate their types.
\<close>

instantiation outcome :: enum
begin

definition enum_outcome :: "outcome list" where
  "enum_outcome = outcome_ALL"

definition enum_all_outcome :: "(outcome \<Rightarrow> bool) \<Rightarrow> bool" where
  "enum_all_outcome P \<longleftrightarrow> list_all P outcome_ALL"

definition enum_ex_outcome :: "(outcome \<Rightarrow> bool) \<Rightarrow> bool" where
  "enum_ex_outcome P \<longleftrightarrow> list_ex P outcome_ALL"

instance
proof
  have "x \<in> set outcome_ALL" for x :: outcome by (metis nth_mem outcome_ALL_nth outcome_index_lt)
  then have all: "set outcome_ALL = UNIV" by blast
  then show "(UNIV :: outcome set) = set enum_class.enum" by (simp add: enum_outcome_def)
  show "distinct (enum_class.enum :: outcome list)" by (simp add: enum_outcome_def outcome_ALL_def)
  show "enum_class.enum_all P \<longleftrightarrow> Ball UNIV P" for P :: "outcome \<Rightarrow> bool"
    by (simp add: enum_all_outcome_def list_all_iff all)
  show "enum_class.enum_ex P \<longleftrightarrow> Bex UNIV P" for P :: "outcome \<Rightarrow> bool"
    by (simp add: enum_ex_outcome_def list_ex_iff all)
qed

end

instantiation skip_reason :: enum
begin

definition enum_skip_reason :: "skip_reason list" where
  "enum_skip_reason = skip_reason_ALL"

definition enum_all_skip_reason :: "(skip_reason \<Rightarrow> bool) \<Rightarrow> bool" where
  "enum_all_skip_reason P \<longleftrightarrow> list_all P skip_reason_ALL"

definition enum_ex_skip_reason :: "(skip_reason \<Rightarrow> bool) \<Rightarrow> bool" where
  "enum_ex_skip_reason P \<longleftrightarrow> list_ex P skip_reason_ALL"

instance
proof
  have "x \<in> set skip_reason_ALL" for x :: skip_reason by (metis nth_mem skip_reason_ALL_nth skip_reason_index_lt)
  then have all: "set skip_reason_ALL = UNIV" by blast
  then show "(UNIV :: skip_reason set) = set enum_class.enum" by (simp add: enum_skip_reason_def)
  show "distinct (enum_class.enum :: skip_reason list)" by (simp add: enum_skip_reason_def skip_reason_ALL_def)
  show "enum_class.enum_all P \<longleftrightarrow> Ball UNIV P" for P :: "skip_reason \<Rightarrow> bool"
    by (simp add: enum_all_skip_reason_def list_all_iff all)
  show "enum_class.enum_ex P \<longleftrightarrow> Bex UNIV P" for P :: "skip_reason \<Rightarrow> bool"
    by (simp add: enum_ex_skip_reason_def list_ex_iff all)
qed

end

instantiation request_outcome :: enum
begin

definition enum_request_outcome :: "request_outcome list" where
  "enum_request_outcome = request_outcome_ALL"

definition enum_all_request_outcome :: "(request_outcome \<Rightarrow> bool) \<Rightarrow> bool" where
  "enum_all_request_outcome P \<longleftrightarrow> list_all P request_outcome_ALL"

definition enum_ex_request_outcome :: "(request_outcome \<Rightarrow> bool) \<Rightarrow> bool" where
  "enum_ex_request_outcome P \<longleftrightarrow> list_ex P request_outcome_ALL"

instance
proof
  have "x \<in> set request_outcome_ALL" for x :: request_outcome by (metis nth_mem request_outcome_ALL_nth request_outcome_index_lt)
  then have all: "set request_outcome_ALL = UNIV" by blast
  then show "(UNIV :: request_outcome set) = set enum_class.enum" by (simp add: enum_request_outcome_def)
  show "distinct (enum_class.enum :: request_outcome list)" by (simp add: enum_request_outcome_def request_outcome_ALL_def)
  show "enum_class.enum_all P \<longleftrightarrow> Ball UNIV P" for P :: "request_outcome \<Rightarrow> bool"
    by (simp add: enum_all_request_outcome_def list_all_iff all)
  show "enum_class.enum_ex P \<longleftrightarrow> Bex UNIV P" for P :: "request_outcome \<Rightarrow> bool"
    by (simp add: enum_ex_request_outcome_def list_ex_iff all)
qed

end

lemma outcome_label_inj: "outcome_label a = outcome_label b \<longleftrightarrow> a = b"
  by (cases a; cases b; simp)

lemma skip_reason_label_inj: "skip_reason_label a = skip_reason_label b \<longleftrightarrow> a = b"
  by (cases a; cases b; simp)

lemma record_attempt_new:
  "record_attempt (NodeMetrics_new node) oc dur =
     [CounterIncrement \<lparr>metric_name = ''rpc_upstream_attempts'',
        metric_labels = [(''node'', node), (''outcome'', outcome_label oc)]\<rparr> 1,
      HistogramRecord \<lparr>metric_name = ''rpc_upstream_duration'',
        metric_labels = [(''node'', node), (''outcome'', outcome_label oc)]\<rparr> dur]"
  by (simp add: record_attempt_def NodeMetrics_new_def)

lemma record_skip_new:
  "record_skip (NodeMetrics_new node) rs =
     [CounterIncrement \<lparr>metric_name = ''rpc_upstream_skips'',
        metric_labels = [(''node'', node), (''reason'', skip_reason_label rs)]\<rparr> 1]"
  by (simp add: record_skip_def NodeMetrics_new_def)

lemma record_request_eq:
  "record_request oc dur =
     [CounterIncrement \<lparr>metric_name = ''rpc_requests'',
        metric_labels = [(''outcome'', request_outcome_label oc)]\<rparr> 1,
      HistogramRecord \<lparr>metric_name = ''rpc_request_duration'',
        metric_labels = [(''outcome'', request_outcome_label oc)]\<rparr> dur]"
  by (simp add: record_request_def REQUEST_def)

end
