(* ===== verification/Methods.thy ===== *)
theory Methods
  imports Prelude "HOL-Library.List_Lexorder" "HOL-Library.Char_ord"
begin

text \<open>
  The built-in method table (\<open>src/protocol/methods.rs\<close>). The enum \<open>RpcMethod\<close> is
  \<open>repr(usize)\<close> with written-out discriminants and is only ever cast to its discriminant, so
  it is modelled by the table of its variants with their discriminants
  (\<open>RpcMethod\<close>); the \<open>match\<close> over byte string literals is the table of its arms
  (\<open>method_arms\<close>, first match wins). Both tables are transcribed line by line.
\<close>

section \<open>Tables\<close>

definition RpcMethod :: "(string \<times> nat) list" where
  "RpcMethod = [
    (''Unknown'', 0), (''StakedConnections'', 1), (''BatchIdentityLookup'', 2),
    (''CreateWebhook'', 3), (''DeleteWebhook'', 4), (''GetAccountInfo'', 5), (''GetAsset'', 6),
    (''GetAssetBatch'', 7), (''GetAssetProof'', 8), (''GetAssetProofBatch'', 9),
    (''GetAssetProofs'', 10), (''GetAssetSignatures'', 11), (''GetAssets'', 12),
    (''GetAssetsByAuthority'', 13), (''GetAssetsByCreator'', 14), (''GetAssetsByGroup'', 15),
    (''GetAssetsByOwner'', 16), (''GetBalance'', 17), (''GetBlock'', 18),
    (''GetBlockCommitment'', 19), (''GetBlockHeight'', 20), (''GetBlockProduction'', 21),
    (''GetBlockTime'', 22), (''GetBlocks'', 23), (''GetBlocksWithLimit'', 24),
    (''GetBundleStatuses'', 25), (''GetClusterNodes'', 26), (''GetCompressedAccount'', 27),
    (''GetCompressedAccountProof'', 28), (''GetCompressedAccountsByOwner'', 29),
    (''GetCompressedBalance'', 30), (''GetCompressedBalanceByOwner'', 31),
    (''GetCompressedMintTokenHolders'', 32), (''GetCompressedTokenAccountBalance'', 33),
    (''GetCompressedTokenAccountsByDelegate'', 34),
    (''GetCompressedTokenAccountsByOwner'', 35), (''GetCompressedTokenBalancesByOwner'', 36),
    (''GetCompressedTokenBalancesByOwnerV2'', 37),
    (''GetCompressionSignaturesForAccount'', 38), (''GetCompressionSignaturesForAddress'', 39),
    (''GetCompressionSignaturesForOwner'', 40),
    (''GetCompressionSignaturesForTokenOwner'', 41), (''GetEpochInfo'', 42),
    (''GetEpochSchedule'', 43), (''GetFeeForMessage'', 44), (''GetFirstAvailableBlock'', 45),
    (''GetGenesisHash'', 46), (''GetHealth'', 47), (''GetHighestSnapshotSlot'', 48),
    (''GetIdentity'', 49), (''GetIndexerHealth'', 50), (''GetIndexerSlot'', 51),
    (''GetInflationGovernor'', 52), (''GetInflationRate'', 53), (''GetInflationReward'', 54),
    (''GetInflightBundleStatuses'', 55), (''GetLargestAccounts'', 56),
    (''GetLatestBlockhash'', 57), (''GetLatestCompressionSignatures'', 58),
    (''GetLatestNonVotingSignatures'', 59), (''GetLeaderSchedule'', 60),
    (''GetMaxRetransmitSlot'', 61), (''GetMaxShredInsertSlot'', 62),
    (''GetMinimumBalanceForRentExemption'', 63), (''GetMultipleAccounts'', 64),
    (''GetMultipleCompressedAccountProofs'', 65), (''GetMultipleCompressedAccounts'', 66),
    (''GetMultipleNewAddressProofs'', 67), (''GetMultipleNewAddressProofsV2'', 68),
    (''GetNftEditions'', 69), (''GetPriorityFeeEstimate'', 70), (''GetProgramAccounts'', 71),
    (''GetProgramAccountsV2'', 72), (''GetRecentPerformanceSamples'', 73),
    (''GetRecentPrioritizationFees'', 74), (''GetSignatureStatuses'', 75),
    (''GetSignaturesForAddress'', 76), (''GetSignaturesForAsset'', 77), (''GetSlot'', 78),
    (''GetSlotLeader'', 79), (''GetSlotLeaders'', 80), (''GetStakeActivation'', 81),
    (''GetStakeMinimumDelegation'', 82), (''GetSupply'', 83), (''GetTipAccounts'', 84),
    (''GetTokenAccountBalance'', 85), (''GetTokenAccounts'', 86),
    (''GetTokenAccountsByDelegate'', 87), (''GetTokenAccountsByOwner'', 88),
    (''GetTokenLargestAccounts'', 89), (''GetTokenSupply'', 90), (''GetTransaction'', 91),
    (''GetTransactionCount'', 92), (''GetTransactionWithCompressionInfo'', 93),
    (''GetTransactionsForAddress'', 94), (''GetTransfersByAddress'', 95),
    (''GetValidityProof'', 96), (''GetValidityProofV2'', 97), (''GetVersion'', 98),
    (''GetVoteAccounts'', 99), (''IsBlockhashValid'', 100), (''MinimumLedgerSlot'', 101),
    (''RequestAirdrop'', 102), (''SearchAssets'', 103), (''SendBundle'', 104),
    (''SendStakedTransaction'', 105), (''SendTransaction'', 106), (''SignMessage'', 107),
    (''SignTransaction'', 108), (''SimulateBundle'', 109), (''SimulateTransaction'', 110),
    (''TokenTransfers'', 111), (''UpdateWebhook'', 112), (''WalletBalances'', 113),
    (''WalletHistory'', 114), (''WalletIdentity'', 115), (''WebhookEvent'', 116),
    (''Count'', 117)]"

definition method_arms :: "(string \<times> string) list" where
  "method_arms = [
    (''StakedConnections'', ''StakedConnections''),
    (''batchIdentityLookup'', ''BatchIdentityLookup''), (''createWebhook'', ''CreateWebhook''),
    (''deleteWebhook'', ''DeleteWebhook''), (''getAccountInfo'', ''GetAccountInfo''),
    (''getAsset'', ''GetAsset''), (''getAssetBatch'', ''GetAssetBatch''),
    (''getAssetProof'', ''GetAssetProof''), (''getAssetProofBatch'', ''GetAssetProofBatch''),
    (''getAssetProofs'', ''GetAssetProofs''), (''getAssetSignatures'', ''GetAssetSignatures''),
    (''getAssets'', ''GetAssets''), (''getAssetsByAuthority'', ''GetAssetsByAuthority''),
    (''getAssetsByCreator'', ''GetAssetsByCreator''),
    (''getAssetsByGroup'', ''GetAssetsByGroup''), (''getAssetsByOwner'', ''GetAssetsByOwner''),
    (''getBalance'', ''GetBalance''), (''getBlock'', ''GetBlock''),
    (''getBlockCommitment'', ''GetBlockCommitment''), (''getBlockHeight'', ''GetBlockHeight''),
    (''getBlockProduction'', ''GetBlockProduction''), (''getBlockTime'', ''GetBlockTime''),
    (''getBlocks'', ''GetBlocks''), (''getBlocksWithLimit'', ''GetBlocksWithLimit''),
    (''getBundleStatuses'', ''GetBundleStatuses''), (''getClusterNodes'', ''GetClusterNodes''),
    (''getCompressedAccount'', ''GetCompressedAccount''),
    (''getCompressedAccountProof'', ''GetCompressedAccountProof''),
    (''getCompressedAccountsByOwner'', ''GetCompressedAccountsByOwner''),
    (''getCompressedBalance'', ''GetCompressedBalance''),
    (''getCompressedBalanceByOwner'', ''GetCompressedBalanceByOwner''),
    (''getCompressedMintTokenHolders'', ''GetCompressedMintTokenHolders''),
    (''getCompressedTokenAccountBalance'', ''GetCompressedTokenAccountBalance''),
    (''getCompressedTokenAccountsByDelegate'', ''GetCompressedTokenAccountsByDelegate''),
    (''getCompressedTokenAccountsByOwner'', ''GetCompressedTokenAccountsByOwner''),
    (''getCompressedTokenBalancesByOwner'', ''GetCompressedTokenBalancesByOwner''),
    (''getCompressedTokenBalancesByOwnerV2'', ''GetCompressedTokenBalancesByOwnerV2''),
    (''getCompressionSignaturesForAccount'', ''GetCompressionSignaturesForAccount''),
    (''getCompressionSignaturesForAddress'', ''GetCompressionSignaturesForAddress''),
    (''getCompressionSignaturesForOwner'', ''GetCompressionSignaturesForOwner''),
    (''getCompressionSignaturesForTokenOwner'', ''GetCompressionSignaturesForTokenOwner''),
    (''getEpochInfo'', ''GetEpochInfo''), (''getEpochSchedule'', ''GetEpochSchedule''),
    (''getFeeForMessage'', ''GetFeeForMessage''),
    (''getFirstAvailableBlock'', ''GetFirstAvailableBlock''),
    (''getGenesisHash'', ''GetGenesisHash''), (''getHealth'', ''GetHealth''),
    (''getHighestSnapshotSlot'', ''GetHighestSnapshotSlot''),
    (''getIdentity'', ''GetIdentity''), (''getIndexerHealth'', ''GetIndexerHealth''),
    (''getIndexerSlot'', ''GetIndexerSlot''),
    (''getInflationGovernor'', ''GetInflationGovernor''),
    (''getInflationRate'', ''GetInflationRate''),
    (''getInflationReward'', ''GetInflationReward''),
    (''getInflightBundleStatuses'', ''GetInflightBundleStatuses''),
    (''getLargestAccounts'', ''GetLargestAccounts''),
    (''getLatestBlockhash'', ''GetLatestBlockhash''),
    (''getLatestCompressionSignatures'', ''GetLatestCompressionSignatures''),
    (''getLatestNonVotingSignatures'', ''GetLatestNonVotingSignatures''),
    (''getLeaderSchedule'', ''GetLeaderSchedule''),
    (''getMaxRetransmitSlot'', ''GetMaxRetransmitSlot''),
    (''getMaxShredInsertSlot'', ''GetMaxShredInsertSlot''),
    (''getMinimumBalanceForRentExemption'', ''GetMinimumBalanceForRentExemption''),
    (''getMultipleAccounts'', ''GetMultipleAccounts''),
    (''getMultipleCompressedAccountProofs'', ''GetMultipleCompressedAccountProofs''),
    (''getMultipleCompressedAccounts'', ''GetMultipleCompressedAccounts''),
    (''getMultipleNewAddressProofs'', ''GetMultipleNewAddressProofs''),
    (''getMultipleNewAddressProofsV2'', ''GetMultipleNewAddressProofsV2''),
    (''getNftEditions'', ''GetNftEditions''),
    (''getPriorityFeeEstimate'', ''GetPriorityFeeEstimate''),
    (''getProgramAccounts'', ''GetProgramAccounts''),
    (''getProgramAccountsV2'', ''GetProgramAccountsV2''),
    (''getRecentPerformanceSamples'', ''GetRecentPerformanceSamples''),
    (''getRecentPrioritizationFees'', ''GetRecentPrioritizationFees''),
    (''getSignatureStatuses'', ''GetSignatureStatuses''),
    (''getSignaturesForAddress'', ''GetSignaturesForAddress''),
    (''getSignaturesForAsset'', ''GetSignaturesForAsset''), (''getSlot'', ''GetSlot''),
    (''getSlotLeader'', ''GetSlotLeader''), (''getSlotLeaders'', ''GetSlotLeaders''),
    (''getStakeActivation'', ''GetStakeActivation''),
    (''getStakeMinimumDelegation'', ''GetStakeMinimumDelegation''),
    (''getSupply'', ''GetSupply''), (''getTipAccounts'', ''GetTipAccounts''),
    (''getTokenAccountBalance'', ''GetTokenAccountBalance''),
    (''getTokenAccounts'', ''GetTokenAccounts''),
    (''getTokenAccountsByDelegate'', ''GetTokenAccountsByDelegate''),
    (''getTokenAccountsByOwner'', ''GetTokenAccountsByOwner''),
    (''getTokenLargestAccounts'', ''GetTokenLargestAccounts''),
    (''getTokenSupply'', ''GetTokenSupply''), (''getTransaction'', ''GetTransaction''),
    (''getTransactionCount'', ''GetTransactionCount''),
    (''getTransactionWithCompressionInfo'', ''GetTransactionWithCompressionInfo''),
    (''getTransactionsForAddress'', ''GetTransactionsForAddress''),
    (''getTransfersByAddress'', ''GetTransfersByAddress''),
    (''getValidityProof'', ''GetValidityProof''),
    (''getValidityProofV2'', ''GetValidityProofV2''), (''getVersion'', ''GetVersion''),
    (''getVoteAccounts'', ''GetVoteAccounts''), (''isBlockhashValid'', ''IsBlockhashValid''),
    (''minimumLedgerSlot'', ''MinimumLedgerSlot''), (''requestAirdrop'', ''RequestAirdrop''),
    (''searchAssets'', ''SearchAssets''), (''sendBundle'', ''SendBundle''),
    (''sendStakedTransaction'', ''SendStakedTransaction''),
    (''sendTransaction'', ''SendTransaction''), (''signMessage'', ''SignMessage''),
    (''signTransaction'', ''SignTransaction''), (''simulateBundle'', ''SimulateBundle''),
    (''simulateTransaction'', ''SimulateTransaction''),
    (''tokenTransfers'', ''TokenTransfers''), (''updateWebhook'', ''UpdateWebhook''),
    (''walletBalances'', ''WalletBalances''), (''walletHistory'', ''WalletHistory''),
    (''walletIdentity'', ''WalletIdentity''), (''webhookEvent'', ''WebhookEvent'')]"

text \<open>\<open>RpcMethod::Unknown as usize\<close> and \<open>RpcMethod::Count as usize\<close>.\<close>

definition Unknown :: nat where
  "Unknown = the (map_of RpcMethod ''Unknown'')"

definition Count :: nat where
  "Count = the (map_of RpcMethod ''Count'')"

definition get_standard_method_id :: "bytes \<Rightarrow> nat" where
  "get_standard_method_id method_bytes =
     (case map_of method_arms method_bytes of
        Some variant \<Rightarrow> the (map_of RpcMethod variant)
      | None \<Rightarrow> the (map_of RpcMethod ''Unknown''))"

section \<open>The two tables fit together\<close>

lemma Unknown_eq: "Unknown = 0"
  by (simp add: Unknown_def RpcMethod_def)

lemma method_names_increasing: "successively (<) (map fst method_arms)"
  by code_simp

lemma method_variants_increasing: "successively (<) (drop 2 (butlast (map fst RpcMethod)))"
  by code_simp

lemma RpcMethod_discriminants: "map snd RpcMethod = [0..<118]"
  by code_simp

lemma method_arms_variants: "map snd method_arms = tl (butlast (map fst RpcMethod))"
  by code_simp

lemma RpcMethod_ends:
  "map fst RpcMethod =
     ''Unknown'' # ''StakedConnections'' # drop 2 (butlast (map fst RpcMethod)) @ [''Count'']"
  by code_simp

lemma RpcMethod_special_variants:
  "\<forall>v \<in> {''Unknown'', ''StakedConnections'', ''Count''}.
     v \<notin> set (drop 2 (butlast (map fst RpcMethod)))"
  by code_simp

lemma increasing_distinct: "successively (<) xs \<Longrightarrow> distinct (xs :: 'a::linorder list)"
  by (simp add: successively_conv_sorted_wrt transp_on_less strict_sorted_iff)

lemma distinct_method_names: "distinct (map fst method_arms)"
  by (rule increasing_distinct [OF method_names_increasing])

lemma length_RpcMethod [simp]: "length RpcMethod = 118"
  using arg_cong [OF RpcMethod_discriminants, of length] by simp

lemma length_method_arms [simp]: "length method_arms = 116"
  using arg_cong [OF method_arms_variants, of length] by simp

lemma distinct_variants: "distinct (map fst RpcMethod)"
  using increasing_distinct [OF method_variants_increasing] RpcMethod_special_variants
  by (subst RpcMethod_ends) simp

lemma Count_eq: "Count = 117"
proof -
  have "RpcMethod ! 117 = (''Count'', 117)"
    by (simp add: RpcMethod_def)
  moreover have "RpcMethod ! 117 \<in> set RpcMethod"
    by (rule nth_mem) simp
  ultimately have "(''Count'', 117) \<in> set RpcMethod"
    by (simp only:)
  then show ?thesis
    by (simp add: Count_def distinct_variants)
qed

text \<open>The arm at position \<open>i\<close> of the \<open>match\<close> names the variant with discriminant \<open>i + 1\<close>.\<close>

lemma arm_discriminant:
  assumes "i < 116"
  shows "map_of RpcMethod (snd (method_arms ! i)) = Some (Suc i)"
proof -
  have "snd (method_arms ! i) = map snd method_arms ! i"
    using assms by simp
  also have "\<dots> = fst (RpcMethod ! Suc i)"
    using assms by (simp add: method_arms_variants nth_tl nth_butlast)
  finally have v: "snd (method_arms ! i) = fst (RpcMethod ! Suc i)" .
  have "snd (RpcMethod ! Suc i) = map snd RpcMethod ! Suc i"
    using assms by simp
  also have "\<dots> = Suc i"
    using assms by (simp add: RpcMethod_discriminants del: upt_Suc)
  finally have "RpcMethod ! Suc i = (snd (method_arms ! i), Suc i)"
    using v by (simp add: prod_eq_iff)
  moreover have "RpcMethod ! Suc i \<in> set RpcMethod"
    using assms by simp
  ultimately show ?thesis
    by (simp add: distinct_variants)
qed

lemma standard_method_id_nth:
  assumes "i < 116"
  shows "get_standard_method_id (fst (method_arms ! i)) = Suc i"
proof -
  have "map_of method_arms (fst (method_arms ! i)) = Some (snd (method_arms ! i))"
    using assms by (simp add: distinct_method_names)
  then show ?thesis
    by (simp add: get_standard_method_id_def arm_discriminant assms)
qed

lemma standard_method_id_other:
  "m \<notin> fst ` set method_arms \<Longrightarrow> get_standard_method_id m = Unknown"
  by (simp add: get_standard_method_id_def Unknown_def map_of_eq_None_iff [THEN iffD2]
)

lemma standard_method_idE:
  obtains i where "i < 116" "m = fst (method_arms ! i)" "get_standard_method_id m = Suc i"
  | "m \<notin> fst ` set method_arms" "get_standard_method_id m = Unknown"
proof (cases "m \<in> fst ` set method_arms")
  case True
  then obtain i where "i < 116" "m = fst (method_arms ! i)"
    by (auto simp: in_set_conv_nth)
  then show ?thesis
    using that(1) standard_method_id_nth by blast
next
  case False
  then show ?thesis
    using that(2) standard_method_id_other by blast
qed

lemma method_name_nth_eq_iff:
  "i < 116 \<Longrightarrow> j < 116 \<Longrightarrow> fst (method_arms ! i) = fst (method_arms ! j) \<longleftrightarrow> i = j"
  using nth_eq_iff_index_eq [OF distinct_method_names, of i j] by simp

lemma method_name_nth_mem: "i < 116 \<Longrightarrow> fst (method_arms ! i) \<in> fst ` set method_arms"
  by simp

lemma get_standard_method_id_lt_Count [simp]: "get_standard_method_id m < Count"
  by (cases m rule: standard_method_idE) (auto simp: Count_eq Unknown_eq)

lemma get_standard_method_id_unknown_iff:
  "get_standard_method_id m = Unknown \<longleftrightarrow> m \<notin> fst ` set method_arms"
proof (cases m rule: standard_method_idE)
  case (1 i)
  then show ?thesis by (auto simp: Unknown_eq)
qed auto

lemma standard_method_ids_eqD:
  assumes "get_standard_method_id m = get_standard_method_id m'"
    and "get_standard_method_id m \<noteq> Unknown"
  shows "m = m'"
  using assms
  by (cases m rule: standard_method_idE; cases m' rule: standard_method_idE) simp_all

text \<open>
  The \<open>match\<close> over the method names is injective on the names it knows: two different
  names never share an id, a known name never resolves to the fallback slot, and every id
  fits below \<open>Count\<close>, so no method inherits the price of another.
\<close>

lemma standard_method_ids_injective:
  "get_standard_method_id m < Count \<and>
   (get_standard_method_id m = Unknown \<longleftrightarrow> m \<notin> fst ` set method_arms) \<and>
   (get_standard_method_id m = get_standard_method_id m' \<longleftrightarrow>
      m = m' \<or> (m \<notin> fst ` set method_arms \<and> m' \<notin> fst ` set method_arms))"
proof -
  have "m = m' \<or> (m \<notin> fst ` set method_arms \<and> m' \<notin> fst ` set method_arms)"
    if eq: "get_standard_method_id m = get_standard_method_id m'"
    using standard_method_ids_eqD [OF eq] eq get_standard_method_id_unknown_iff by metis
  moreover have "get_standard_method_id m = get_standard_method_id m'"
    if "m \<notin> fst ` set method_arms" "m' \<notin> fst ` set method_arms"
    using that by (metis standard_method_id_other)
  ultimately show ?thesis
    using get_standard_method_id_unknown_iff get_standard_method_id_lt_Count by blast
qed

end
