(* ===== verification/Registry.thy ===== *)
theory Registry
  imports Methods
begin

text \<open>
  The interning table of custom method names (\<open>src/protocol/registry.rs\<close>). \<open>Interned\<close> is a
  record of the two parallel vectors; \<open>CustomMethods\<close> is an atomic pointer to one, and every
  operation loads it once or replaces it in one read-copy-update, so the operations are
  functions on the record. The contract the rest of the balancer relies on (ids are handed
  out once, past the built-in table, and never move) is the locale \<open>method_interner\<close>,
  interpreted below on the operations of the registry.
\<close>

section \<open>The contract of an interning table\<close>

locale method_interner =
  fixes base :: nat
    and invar :: "'r \<Rightarrow> bool"
    and register :: "'r \<Rightarrow> string list \<Rightarrow> 'r"
    and lookup :: "'r \<Rightarrow> string \<Rightarrow> nat option"
    and table_size :: "'r \<Rightarrow> nat"
  assumes invar_register: "invar r \<Longrightarrow> invar (register r ns)"
    and lookup_kept: "invar r \<Longrightarrow> lookup r n = Some i \<Longrightarrow> lookup (register r ns) n = Some i"
    and lookup_registered: "invar r \<Longrightarrow> n \<in> set ns \<Longrightarrow> \<exists>i. lookup (register r ns) n = Some i"
    and lookup_others: "invar r \<Longrightarrow> n \<notin> set ns \<Longrightarrow> lookup (register r ns) n = lookup r n"
    and lookup_range: "invar r \<Longrightarrow> lookup r n = Some i \<Longrightarrow> base \<le> i \<and> i < table_size r"
    and lookup_inj: "invar r \<Longrightarrow> lookup r n = Some i \<Longrightarrow> lookup r m = Some i \<Longrightarrow> n = m"
    and table_size_mono: "invar r \<Longrightarrow> table_size r \<le> table_size (register r ns)"
begin

lemma invar_registers: "invar r \<Longrightarrow> invar (foldl register r nss)"
  by (induction nss arbitrary: r) (auto intro: invar_register)

lemma lookup_kept_registers:
  "invar r \<Longrightarrow> lookup r n = Some i \<Longrightarrow> lookup (foldl register r nss) n = Some i"
  by (induction nss arbitrary: r) (auto intro: invar_register lookup_kept)

lemma lookup_registers_dom:
  "invar r \<Longrightarrow> lookup (foldl register r nss) n \<noteq> None \<longleftrightarrow>
     lookup r n \<noteq> None \<or> n \<in> (\<Union>ns \<in> set nss. set ns)"
proof (induction nss arbitrary: r)
  case Nil
  then show ?case by simp
next
  case (Cons ns nss)
  have "lookup (register r ns) n \<noteq> None \<longleftrightarrow> lookup r n \<noteq> None \<or> n \<in> set ns"
  proof (cases "n \<in> set ns")
    case True
    then show ?thesis using lookup_registered [OF Cons.prems] by force
  next
    case False
    then show ?thesis using lookup_others [OF Cons.prems] by simp
  qed
  with Cons.IH [OF invar_register [OF Cons.prems], of ns] show ?case by auto
qed

lemma table_size_registers: "invar r \<Longrightarrow> table_size r \<le> table_size (foldl register r nss)"
  by (induction nss arbitrary: r) (auto intro: invar_register le_trans table_size_mono)

end

section \<open>The registry\<close>

record interned =
  hashes :: "u64 list"
  names :: "string list"

definition CustomMethods_default :: interned where
  "CustomMethods_default = \<lparr>hashes = [], names = []\<rparr>"

definition MULTIPLIER :: u64 where
  "MULTIPLIER = 0x517cc1b727220a95"

fun hash_bytes :: "u64 \<Rightarrow> bytes \<Rightarrow> u64" where
  "hash_bytes hash [] = hash"
| "hash_bytes hash (byte # bs) =
     hash_bytes ((word_rotl 5 hash XOR of_char byte) * MULTIPLIER) bs"

definition hash_name :: "string \<Rightarrow> u64" where
  "hash_name name = hash_bytes 0 name"

definition register_name :: "interned \<Rightarrow> string \<Rightarrow> interned" where
  "register_name nxt name =
     (if \<not> list_ex (\<lambda>known. known = name) (names nxt)
      then nxt\<lparr>hashes := hashes nxt @ [hash_name name], names := names nxt @ [name]\<rparr>
      else nxt)"

definition register :: "interned \<Rightarrow> string list \<Rightarrow> interned" where
  "register current ns = foldl register_name current ns"

definition lookup :: "interned \<Rightarrow> string \<Rightarrow> nat option" where
  "lookup interned name =
     (let wanted = hash_name name
      in map_option (\<lambda>slot. Count + slot)
           (position (\<lambda>(hash, known). hash = wanted \<and> known = name)
              (zip (hashes interned) (names interned))))"

definition table_size :: "interned \<Rightarrow> nat" where
  "table_size interned = Count + length (hashes interned)"

definition resolve :: "interned \<Rightarrow> string \<Rightarrow> nat" where
  "resolve methods name =
     (let mid = get_standard_method_id name
      in if mid = Unknown
         then (case lookup methods name of Some i \<Rightarrow> i | None \<Rightarrow> Unknown)
         else mid)"

section \<open>Well-formedness and the reference search\<close>

definition registry_ok :: "interned \<Rightarrow> bool" where
  "registry_ok r \<longleftrightarrow> hashes r = map hash_name (names r) \<and> distinct (names r)"

lemma registry_ok_default [simp]: "registry_ok CustomMethods_default"
  by (simp add: registry_ok_def CustomMethods_default_def)

lemma names_register_name:
  "names (register_name r n) = (if n \<in> set (names r) then names r else names r @ [n])"
  by (auto simp: register_name_def list_ex_iff)

lemma registry_ok_register_name: "registry_ok r \<Longrightarrow> registry_ok (register_name r n)"
  by (auto simp: registry_ok_def register_name_def list_ex_iff)

lemma registry_ok_register: "registry_ok r \<Longrightarrow> registry_ok (register r ns)"
  unfolding register_def by (induction ns arbitrary: r) (auto intro: registry_ok_register_name)

lemma names_register_prefix: "\<exists>new. names (register r ns) = names r @ new \<and> set new \<subseteq> set ns"
  unfolding register_def
proof (induction ns arbitrary: r)
  case Nil
  then show ?case by simp
next
  case (Cons n ns)
  from Cons [of "register_name r n"] show ?case
    by (auto simp: names_register_name split: if_splits)
qed

lemma set_names_register: "set (names (register r ns)) = set (names r) \<union> set ns"
  unfolding register_def
  by (induction ns arbitrary: r) (auto simp: names_register_name)

lemma position_zip_hash:
  "position (\<lambda>(h, k). h = hash_name n \<and> k = n) (zip (map hash_name ks) ks) =
     position (\<lambda>k. k = n) ks"
  by (induction ks) auto

lemma lookup_names:
  "registry_ok r \<Longrightarrow> lookup r n = map_option (\<lambda>slot. Count + slot) (position (\<lambda>k. k = n) (names r))"
  by (simp add: lookup_def registry_ok_def Let_def position_zip_hash)

lemma lookup_Some_iff:
  "registry_ok r \<Longrightarrow>
     lookup r n = Some i \<longleftrightarrow> Count \<le> i \<and> i - Count < length (names r) \<and> names r ! (i - Count) = n"
proof -
  assume ok: "registry_ok r"
  then have d: "distinct (names r)" by (simp add: registry_ok_def)
  have "names r ! k \<noteq> n" if "j < length (names r)" "names r ! j = n" "k < j" for j k
    using that d nth_eq_iff_index_eq [of "names r" k j] by simp
  then have p: "position (\<lambda>k. k = n) (names r) = Some j \<longleftrightarrow> j < length (names r) \<and> names r ! j = n" for j
    unfolding position_Some_iff by blast
  have "lookup r n = Some i \<longleftrightarrow> (\<exists>j. i = Count + j \<and> j < length (names r) \<and> names r ! j = n)"
    unfolding lookup_names [OF ok] map_option_eq_Some p by blast
  also have "\<dots> \<longleftrightarrow> Count \<le> i \<and> i - Count < length (names r) \<and> names r ! (i - Count) = n"
    by (metis add_diff_cancel_left' le_add1 le_add_diff_inverse)
  finally show ?thesis .
qed

lemma lookup_None_iff: "registry_ok r \<Longrightarrow> lookup r n = None \<longleftrightarrow> n \<notin> set (names r)"
  by (auto simp: lookup_names position_None_iff)

lemma table_size_names: "registry_ok r \<Longrightarrow> table_size r = Count + length (names r)"
  by (simp add: table_size_def registry_ok_def)

interpretation reg: method_interner Count registry_ok register lookup table_size
proof
  fix r :: interned and n m ns i
  assume ok: "registry_ok r"
  show ok': "registry_ok (register r ns)" by (rule registry_ok_register [OF ok])
  obtain new where new: "names (register r ns) = names r @ new" "set new \<subseteq> set ns"
    using names_register_prefix by blast
  show kept: "lookup (register r ns) n = Some i" if "lookup r n = Some i"
    using that by (auto simp: lookup_Some_iff ok ok' new nth_append)
  show "\<exists>i. lookup (register r ns) n = Some i" if "n \<in> set ns"
    using that lookup_None_iff [OF ok', of n] by (auto simp: set_names_register)
  show "lookup (register r ns) n = lookup r n" if "n \<notin> set ns"
  proof (cases "lookup r n")
    case None
    then have "lookup (register r ns) n = None"
      using that by (simp add: lookup_None_iff ok ok' set_names_register)
    with None show ?thesis by simp
  next
    case (Some i)
    then have "names r ! (i - Count) = n" "Count \<le> i" "i - Count < length (names r)"
      by (auto simp: lookup_Some_iff ok)
    then have "lookup (register r ns) n = Some i"
      by (simp add: lookup_Some_iff ok' new nth_append)
    with Some show ?thesis by simp
  qed
  show "Count \<le> i \<and> i < table_size r" if "lookup r n = Some i"
    using that by (auto simp: lookup_Some_iff ok table_size_names)
  show "n = m" if "lookup r n = Some i" "lookup r m = Some i"
    using that by (simp add: lookup_Some_iff ok)
  show "table_size r \<le> table_size (register r ns)"
    using new(1) by (simp add: table_size_names ok ok')
qed

section \<open>Properties\<close>

text \<open>
  The lookup scans 64-bit hashes that are neither keyed nor collision resistant, yet it
  answers exactly as a search of the interned names would: a colliding name never inherits
  the id of another method and never hides the method behind it.
\<close>

lemma lookup_is_name_search:
  assumes "registry_ok r"
  shows "lookup r name =
    (if name \<in> set (names r)
     then Some (Count + (LEAST i. i < length (names r) \<and> names r ! i = name)) else None)"
proof (cases "name \<in> set (names r)")
  case True
  then have "position (\<lambda>k. k = name) (names r) \<noteq> None"
    by (simp add: position_None_iff)
  then obtain i where i: "position (\<lambda>k. k = name) (names r) = Some i"
    by blast
  then have hit: "i < length (names r) \<and> names r ! i = name"
    and first: "\<forall>j < i. names r ! j \<noteq> name"
    by (simp_all add: position_Some_iff)
  have "(LEAST i. i < length (names r) \<and> names r ! i = name) = i"
  proof (rule Least_equality)
    show "i \<le> j" if "j < length (names r) \<and> names r ! j = name" for j
    proof (rule ccontr)
      assume "\<not> i \<le> j"
      with first that show False by simp
    qed
  qed (rule hit)
  with i True show ?thesis by (simp add: lookup_names [OF assms])
next
  case False
  then show ?thesis by (simp add: lookup_None_iff [OF assms])
qed

text \<open>
  An id is append-only: whatever provider files are loaded afterwards, a method name that
  resolved to a built-in or interned id keeps that id, so a request may hold on to it across
  retry rounds while a reload republishes every cost table.
\<close>

lemma resolve_append_only:
  assumes "registry_ok r" and "resolve r name \<noteq> Unknown"
  shows "resolve (foldl register r nss) name = resolve r name"
proof (cases "lookup r name")
  case None
  with assms(2) show ?thesis
    by (simp add: resolve_def Let_def split: if_splits)
next
  case (Some i)
  with reg.lookup_kept_registers [OF assms(1) Some, of nss] show ?thesis
    by (simp add: resolve_def Let_def)
qed

end
