(* ===== verification/Cost_Table.thy ===== *)
theory Cost_Table
  imports Registry
begin

text \<open>
  Provider price lists compiled into flat cost tables (\<open>src/protocol/cost_table.rs\<close>). A
  \<open>HashMap<String, u32>\<close> is an association list with distinct keys, in the order the
  iteration of the map visits it; the theorems hold for every order.
\<close>

section \<open>Price lists and tables\<close>

type_synonym price_map = "(string \<times> u32) list"

record cost_spec =
  routing :: price_map
  custom :: price_map
  unknown_cost :: u32

definition CostSpec_default :: cost_spec where
  "CostSpec_default = \<lparr>routing = [], custom = [], unknown_cost = u32_MAX\<rparr>"

record provider_cost_table =
  costs :: "u32 list"

definition ProviderCostTable_default :: provider_cost_table where
  "ProviderCostTable_default = \<lparr>costs = replicate Count u32_MAX\<rparr>"

text \<open>\<open>if let Some(slot) = costs.get_mut(id)\<close>: a write past the end does nothing.\<close>

definition price_slot :: "u32 list \<Rightarrow> nat \<Rightarrow> u32 \<Rightarrow> u32 list" where
  "price_slot cs i price = (if i < length cs then cs[i := price] else cs)"

fun price_routing :: "u32 list \<Rightarrow> price_map \<Rightarrow> u32 list" where
  "price_routing cs [] = cs"
| "price_routing cs ((name, price) # rest) =
     (let mid = get_standard_method_id name
      in if mid = Unknown then price_routing cs rest
         else price_routing (price_slot cs mid price) rest)"

fun price_custom :: "interned \<Rightarrow> u32 list \<Rightarrow> price_map \<Rightarrow> u32 list" where
  "price_custom methods cs [] = cs"
| "price_custom methods cs ((name, price) # rest) =
     (case lookup methods name of
        Some mid \<Rightarrow> price_custom methods (price_slot cs mid price) rest
      | None \<Rightarrow> price_custom methods cs rest)"

definition ProviderCostTable_new ::
  "cost_spec \<Rightarrow> interned \<Rightarrow> provider_cost_table \<times> interned" where
  "ProviderCostTable_new spec methods =
     (let custom_names = map fst (custom spec);
          methods = register methods custom_names;
          cs = replicate (table_size methods) (unknown_cost spec);
          cs = price_routing cs (routing spec);
          cs = price_custom methods cs (custom spec)
      in (\<lparr>costs = cs\<rparr>, methods))"

definition cost :: "provider_cost_table \<Rightarrow> nat \<Rightarrow> u32" where
  "cost t i = (if i < length (costs t) then costs t ! i else u32_MAX)"

section \<open>Well-formed price lists\<close>

definition cost_spec_ok :: "cost_spec \<Rightarrow> bool" where
  "cost_spec_ok spec \<longleftrightarrow> distinct (map fst (routing spec)) \<and> distinct (map fst (custom spec))"

section \<open>What the two passes leave in a slot\<close>

lemma length_price_slot [simp]: "length (price_slot cs i p) = length cs"
  by (simp add: price_slot_def)

lemma nth_price_slot:
  "j < length cs \<Longrightarrow> price_slot cs i p ! j = (if i = j then p else cs ! j)"
  by (auto simp: price_slot_def)

lemma length_price_routing [simp]: "length (price_routing cs rt) = length cs"
  by (induction cs rt rule: price_routing.induct) (auto simp: Let_def)

lemma length_price_custom [simp]: "length (price_custom m cs ct) = length cs"
  by (induction m cs ct rule: price_custom.induct) (auto split: option.splits)

lemma price_routing_other:
  assumes "i < length cs" and "\<forall>n \<in> fst ` set rt. get_standard_method_id n \<noteq> i \<or> i = Unknown"
  shows "price_routing cs rt ! i = cs ! i"
  using assms
  by (induction cs rt rule: price_routing.induct) (auto simp: Let_def nth_price_slot)

lemma price_routing_named:
  assumes "distinct (map fst rt)" and "(n, p) \<in> set rt"
    and "get_standard_method_id n \<noteq> Unknown" and "get_standard_method_id n < length cs"
  shows "price_routing cs rt ! get_standard_method_id n = p"
  using assms
proof (induction cs rt rule: price_routing.induct)
  case (2 cs name price rest)
  let ?i = "get_standard_method_id n"
  show ?case
  proof (cases "name = n")
    case True
    with "2.prems" have "p = price"
      by (auto simp: image_iff)
    moreover have "get_standard_method_id m \<noteq> ?i" if "m \<in> fst ` set rest" for m
    proof -
      have "m \<noteq> n" using that True "2.prems"(1) by auto
      with "2.prems"(3) show ?thesis
        using standard_method_ids_eqD by metis
    qed
    ultimately show ?thesis
      using True "2.prems" by (simp add: Let_def price_routing_other nth_price_slot)
  next
    case False
    with "2.prems" have "(n, p) \<in> set rest" "distinct (map fst rest)" by auto
    with 2 False show ?thesis by (auto simp: Let_def)
  qed
qed simp

lemma price_custom_other:
  assumes "i < length cs" and "\<forall>n \<in> fst ` set ct. lookup m n \<noteq> Some i"
  shows "price_custom m cs ct ! i = cs ! i"
  using assms
  by (induction m cs ct rule: price_custom.induct) (auto simp: nth_price_slot split: option.splits)

lemma price_custom_named:
  assumes "registry_ok m" and "distinct (map fst ct)" and "(n, p) \<in> set ct"
    and "lookup m n = Some i" and "i < length cs"
  shows "price_custom m cs ct ! i = p"
  using assms
proof (induction m cs ct rule: price_custom.induct)
  case (2 m cs name price rest)
  show ?case
  proof (cases "name = n")
    case True
    with "2.prems" have "p = price"
      by (auto simp: image_iff)
    moreover have "lookup m n' \<noteq> Some i" if "n' \<in> fst ` set rest" for n'
    proof
      assume "lookup m n' = Some i"
      then have "n' = n" using reg.lookup_inj "2.prems"(1,4) by blast
      with that True "2.prems"(2) show False by auto
    qed
    ultimately show ?thesis
      using True "2.prems" by (simp add: price_custom_other nth_price_slot)
  next
    case False
    with "2.prems" have "(n, p) \<in> set rest" "distinct (map fst rest)" by auto
    with 2 False show ?thesis by (auto split: option.splits)
  qed
qed simp

section \<open>A table prices names\<close>

text \<open>
  The specification of a compiled table, by method name: the \<open>[routing]\<close> price for a
  built-in name, the \<open>[custom]\<close> price for any other, the fallback where neither has one.
\<close>

definition price_of :: "cost_spec \<Rightarrow> string \<Rightarrow> u32" where
  "price_of spec name =
     (let prices = (if get_standard_method_id name = Unknown then custom spec else routing spec)
      in case map_of prices name of Some p \<Rightarrow> p | None \<Rightarrow> unknown_cost spec)"

lemma table_size_ge_Count: "Count \<le> table_size m"
  by (simp add: table_size_def)

lemma resolve_cases:
  assumes "registry_ok r"
  obtains "get_standard_method_id n \<noteq> Unknown" "resolve r n = get_standard_method_id n"
  | i where "get_standard_method_id n = Unknown" "lookup r n = Some i" "resolve r n = i"
      "Count \<le> i" "i < table_size r"
  | "get_standard_method_id n = Unknown" "lookup r n = None" "resolve r n = Unknown"
proof (cases "get_standard_method_id n = Unknown")
  case False
  then show ?thesis using that(1) by (simp add: resolve_def)
next
  case True
  then show ?thesis
    using that(2,3) reg.lookup_range [OF assms]
    by (cases "lookup r n") (auto simp: resolve_def)
qed

lemma Unknown_lt_Count: "Unknown < Count"
  by (simp add: Unknown_eq Count_eq)

lemma ProviderCostTable_new_costs:
  assumes "ProviderCostTable_new spec r = (t, r')"
  shows "r' = register r (map fst (custom spec))"
    and "costs t = price_custom r' (price_routing (replicate (table_size r') (unknown_cost spec))
           (routing spec)) (custom spec)"
    and "length (costs t) = table_size r'"
  using assms by (auto simp: ProviderCostTable_new_def Let_def)

lemma cost_builtin:
  assumes ok: "registry_ok r" "cost_spec_ok spec"
    and new: "ProviderCostTable_new spec r = (t, r')"
    and known: "get_standard_method_id n \<noteq> Unknown"
  shows "cost t (get_standard_method_id n) = price_of spec n"
proof -
  let ?i = "get_standard_method_id n" and ?cs = "replicate (table_size r') (unknown_cost spec)"
  note tab = ProviderCostTable_new_costs [OF new]
  have ok': "registry_ok r'" using ok(1) by (simp add: tab(1) registry_ok_register)
  have i: "?i < Count" "?i < table_size r'"
    using table_size_ge_Count [of r'] get_standard_method_id_lt_Count [of n] by linarith+
  have "costs t ! ?i = price_routing ?cs (routing spec) ! ?i"
    unfolding tab(2)
    using i reg.lookup_range [OF ok'] by (intro price_custom_other) (force simp: not_le [symmetric])+
  also have "\<dots> = price_of spec n"
  proof (cases "map_of (routing spec) n")
    case None
    then have "\<forall>m \<in> fst ` set (routing spec). get_standard_method_id m \<noteq> ?i \<or> ?i = Unknown"
      using known standard_method_ids_eqD by (metis map_of_eq_None_iff)
    then show ?thesis
      using i None known by (subst price_routing_other) (auto simp: price_of_def)
  next
    case (Some p)
    then show ?thesis
      using i known ok(2) map_of_SomeD [OF Some]
      by (subst price_routing_named) (auto simp: price_of_def cost_spec_ok_def)
  qed
  finally show ?thesis using i tab(3) by (simp add: cost_def)
qed

lemma cost_unnamed:
  assumes ok: "registry_ok r" "cost_spec_ok spec"
    and new: "ProviderCostTable_new spec r = (t, r')"
    and other: "i < table_size r'" "i = Unknown \<or> Count \<le> i"
      "\<forall>n \<in> fst ` set (custom spec). lookup r' n \<noteq> Some i"
  shows "cost t i = unknown_cost spec"
proof -
  have "get_standard_method_id m \<noteq> i \<or> i = Unknown" for m
    using other(2) get_standard_method_id_lt_Count [of m] by (metis leD)
  then show ?thesis
    using ProviderCostTable_new_costs [OF new] other
    by (simp add: cost_def price_custom_other price_routing_other)
qed

lemma cost_table_price_unknown:
  assumes ok: "registry_ok r" "cost_spec_ok spec"
    and new: "ProviderCostTable_new spec r = (t, r')"
    and fresh: "get_standard_method_id name = Unknown" "lookup r' name = None"
  shows "cost t (resolve r' name) = unknown_cost spec"
proof -
  have ok': "registry_ok r'"
    using ok(1) by (simp add: ProviderCostTable_new_costs [OF new] registry_ok_register)
  have "\<forall>n \<in> fst ` set (custom spec). lookup r' n \<noteq> Some Unknown"
    using reg.lookup_range [OF ok'] Unknown_lt_Count by fastforce
  moreover have "Unknown < table_size r'"
    using table_size_ge_Count [of r'] Unknown_lt_Count by linarith
  ultimately show ?thesis
    using fresh cost_unnamed [OF ok new, of Unknown] by (simp add: resolve_def)
qed

lemma cost_table_price:
  assumes ok: "registry_ok r" "cost_spec_ok spec"
    and new: "ProviderCostTable_new spec r = (t, r')"
  shows "cost t (resolve r' name) = price_of spec name"
proof -
  note tab = ProviderCostTable_new_costs [OF new]
  have ok': "registry_ok r'" using ok(1) by (simp add: tab(1) registry_ok_register)
  show ?thesis
  proof (cases name rule: resolve_cases [OF ok'])
    case 1
    then show ?thesis using cost_builtin [OF ok new] by simp
  next
    case (2 i)
    show ?thesis
    proof (cases "map_of (custom spec) name")
      case None
      then have "\<forall>n \<in> fst ` set (custom spec). lookup r' n \<noteq> Some i"
        using 2(2) reg.lookup_inj [OF ok'] by (metis map_of_eq_None_iff)
      with 2 None show ?thesis
        using cost_unnamed [OF ok new, of i] by (simp add: price_of_def)
    next
      case (Some p)
      then have "costs t ! i = p"
        unfolding tab(2) using 2 ok ok' map_of_SomeD [OF Some]
        by (intro price_custom_named) (auto simp: cost_spec_ok_def)
      with 2 Some tab(3) show ?thesis by (simp add: cost_def price_of_def)
    qed
  next
    case 3
    then have "name \<notin> set (map fst (custom spec))"
      using reg.lookup_registered [OF ok(1), of name "map fst (custom spec)"] tab(1) by auto
    then have "map_of (custom spec) name = None" by (simp add: map_of_eq_None_iff)
    then show ?thesis
      using 3 cost_table_price_unknown [OF ok new 3(1,2)] by (simp add: price_of_def)
  qed
qed

text \<open>
  C30. Compiling a price list is correct for every method name: the slot a name resolves to
  holds exactly the price the provider file gives that name (\<open>[routing]\<close> for a built-in
  name, \<open>[custom]\<close> for any other, the fallback otherwise), whatever the iteration order of
  the maps and whatever other providers interned before.
\<close>

theorem cost_table_prices_names:
  assumes ok: "registry_ok r" "cost_spec_ok spec"
    and new: "ProviderCostTable_new spec r = (t, r')"
  shows "cost t (resolve r' name) = price_of spec name"
  by (rule cost_table_price [OF assms])

abbreviation demo_spec :: cost_spec where
  "demo_spec \<equiv> \<lparr>routing = [(''getBalance'', 1)], custom = [(''helius_getFoo'', 50)],
     unknown_cost = 500\<rparr>"

theorem cost_table_prices_names_witness:
  "cost (fst (ProviderCostTable_new demo_spec CustomMethods_default))
     (resolve (snd (ProviderCostTable_new demo_spec CustomMethods_default)) ''getBalance'') = 1"
proof -
  have "cost_spec_ok demo_spec" by (simp add: cost_spec_ok_def)
  then have "cost (fst (ProviderCostTable_new demo_spec CustomMethods_default))
     (resolve (snd (ProviderCostTable_new demo_spec CustomMethods_default)) ''getBalance'')
     = price_of demo_spec ''getBalance''"
    by (intro cost_table_prices_names [OF registry_ok_default _ surjective_pairing])
  moreover have "''getBalance'' \<in> fst ` set method_arms"
    by code_simp
  then have "get_standard_method_id ''getBalance'' \<noteq> Unknown"
    by (simp add: get_standard_method_id_unknown_iff)
  ultimately show ?thesis by (simp add: price_of_def)
qed

text \<open>
  C40. A table is sized when it is built. A custom method another provider interns later gets
  an id past its end and reads as unpriced, even where the provider file sets
  \<open>unknown_method_cost\<close>: until the table is rebuilt the node is skipped for a method it
  would have served at the fallback price a moment earlier.
\<close>

theorem late_custom_method_loses_fallback:
  assumes ok: "registry_ok r" "cost_spec_ok spec"
    and new: "ProviderCostTable_new spec r = (t, r')"
    and fresh: "get_standard_method_id name = Unknown" "lookup r' name = None" "name \<in> set ns"
  shows "cost t (resolve r' name) = unknown_cost spec
    \<and> cost t (resolve (register r' ns) name) = u32_MAX"
proof -
  note tab = ProviderCostTable_new_costs [OF new]
  have ok': "registry_ok r'" using ok(1) by (simp add: tab(1) registry_ok_register)
  obtain i where i: "lookup (register r' ns) name = Some i"
    using reg.lookup_registered [OF ok' fresh(3)] by blast
  have "\<not> i < table_size r'"
  proof
    assume "i < table_size r'"
    then have "i - Count < length (names r')" and "Count \<le> i"
      using i reg.lookup_range [OF registry_ok_register [OF ok'] i]
      by (auto simp: table_size_names [OF ok'])
    then have "lookup r' (names r' ! (i - Count)) = Some i"
      by (simp add: lookup_Some_iff [OF ok'])
    from reg.lookup_kept [OF ok' this] have "names r' ! (i - Count) = name"
      using i reg.lookup_inj [OF registry_ok_register [OF ok']] by blast
    with \<open>i - Count < length (names r')\<close> fresh(2) show False
      by (auto simp: lookup_None_iff [OF ok'])
  qed
  then have "cost t (resolve (register r' ns) name) = u32_MAX"
    using i fresh(1) tab(3) by (simp add: resolve_def cost_def)
  moreover have "cost t (resolve r' name) = unknown_cost spec"
    using cost_table_price_unknown [OF ok new fresh(1,2)] .
  ultimately show ?thesis by simp
qed

theorem late_custom_method_loses_fallback_witness:
  "cost (fst (ProviderCostTable_new demo_spec CustomMethods_default))
     (resolve (register (snd (ProviderCostTable_new demo_spec CustomMethods_default))
        [''other_method'']) ''other_method'') = u32_MAX"
proof -
  let ?r = "snd (ProviderCostTable_new demo_spec CustomMethods_default)"
  have "''other_method'' \<notin> fst ` set method_arms" by code_simp
  then have "get_standard_method_id ''other_method'' = Unknown"
    by (rule standard_method_id_other)
  moreover have "lookup ?r ''other_method'' = None"
    by (simp add: ProviderCostTable_new_def Let_def lookup_None_iff registry_ok_register
        set_names_register) (simp add: CustomMethods_default_def)
  ultimately show ?thesis
    using late_custom_method_loses_fallback [OF registry_ok_default _ surjective_pairing,
        of demo_spec "''other_method''" "[''other_method'']"]
    by (simp add: cost_spec_ok_def)
qed

end
