(* ===== verification/Quota_State.thy ===== *)
theory Quota_State
  imports Prelude
begin

text \<open>
  The usage counters (\<open>src/quotas/state.rs\<close>): a fixed array of 64 atomic \<open>u64\<close> counters,
  one per quota slot. Each atomic operation is one step on the array. An index past the array
  is a panic, the value \<^const>\<open>None\<close>. \<open>fetch_add\<close> wraps.

  What the router, the rollover and the reload rely on is the locale \<open>counter_bank\<close>.
\<close>

section \<open>The contract of a bank of counters\<close>

locale counter_bank =
  fixes slots :: nat
    and invar :: "'q \<Rightarrow> bool"
    and get :: "'q \<Rightarrow> nat \<Rightarrow> u64 option"
    and add :: "'q \<Rightarrow> nat \<Rightarrow> u64 \<Rightarrow> 'q option"
    and set_to :: "'q \<Rightarrow> nat \<Rightarrow> u64 \<Rightarrow> 'q option"
  assumes get_def: "invar q \<Longrightarrow> i < slots \<Longrightarrow> \<exists>v. get q i = Some v"
    and get_out: "invar q \<Longrightarrow> \<not> i < slots \<Longrightarrow> get q i = None"
    and add_ok: "invar q \<Longrightarrow> i < slots \<Longrightarrow> \<exists>q'. add q i v = Some q' \<and> invar q' \<and>
      (\<forall>j. get q' j = (if j = i then map_option (\<lambda>u. u + v) (get q i) else get q j))"
    and set_ok: "invar q \<Longrightarrow> i < slots \<Longrightarrow> \<exists>q'. set_to q i v = Some q' \<and> invar q' \<and>
      (\<forall>j. get q' j = (if j = i then Some v else get q j))"
begin

text \<open>A sequence of bookings, in the order the atomic additions took effect.\<close>

fun bookings :: "'q \<Rightarrow> (nat \<times> u64) list \<Rightarrow> 'q option" where
  "bookings q [] = Some q"
| "bookings q ((i, v) # bs) = Option.bind (add q i v) (\<lambda>q'. bookings q' bs)"

lemma bookings_total:
  "invar q \<Longrightarrow> \<forall>(i, v) \<in> set bs. i < slots \<Longrightarrow>
     \<exists>q'. bookings q bs = Some q' \<and> invar q' \<and>
       (\<forall>j u. get q j = Some u \<longrightarrow>
          get q' j = Some (u + sum_list (map snd (filter (\<lambda>b. fst b = j) bs))))"
proof (induction bs arbitrary: q)
  case Nil
  then show ?case by simp
next
  case (Cons b bs)
  obtain i v where b: "b = (i, v)" by force
  with Cons.prems add_ok [of q i v] obtain q1 where q1: "add q i v = Some q1" "invar q1"
    "\<forall>j. get q1 j = (if j = i then map_option (\<lambda>u. u + v) (get q i) else get q j)" by auto
  with Cons.IH [of q1] Cons.prems obtain q' where "bookings q1 bs = Some q'" "invar q'"
    "\<forall>j u. get q1 j = Some u \<longrightarrow>
       get q' j = Some (u + sum_list (map snd (filter (\<lambda>b. fst b = j) bs)))" by auto
  with q1 b show ?case by (auto simp: algebra_simps)
qed

end

section \<open>The array\<close>

definition MAX_NODES :: nat where
  "MAX_NODES = 64"

type_synonym quota_state = "u64 list"

definition GlobalQuotaState_default :: quota_state where
  "GlobalQuotaState_default = replicate MAX_NODES 0"

text \<open>\<open>usage(id)\<close> indexes the array; the three operations act on the counter it returns.\<close>

definition usage :: "quota_state \<Rightarrow> nat \<Rightarrow> nat option" where
  "usage nodes i = (if i < length nodes then Some i else None)"

definition counter_get :: "quota_state \<Rightarrow> nat \<Rightarrow> u64 option" where
  "counter_get nodes i = map_option (\<lambda>c. nodes ! c) (usage nodes i)"

definition counter_add :: "quota_state \<Rightarrow> nat \<Rightarrow> u64 \<Rightarrow> quota_state option" where
  "counter_add nodes i val = map_option (\<lambda>c. nodes[c := nodes ! c + val]) (usage nodes i)"

definition counter_set :: "quota_state \<Rightarrow> nat \<Rightarrow> u64 \<Rightarrow> quota_state option" where
  "counter_set nodes i val = map_option (\<lambda>c. nodes[c := val]) (usage nodes i)"

definition quota_ok :: "quota_state \<Rightarrow> bool" where
  "quota_ok q \<longleftrightarrow> length q = MAX_NODES"

lemma quota_ok_default [simp]: "quota_ok GlobalQuotaState_default"
  by (simp add: quota_ok_def GlobalQuotaState_default_def)

lemma counter_get_iff [quota_simps]: "counter_get q i = (if i < length q then Some (q ! i) else None)"
  by (simp add: counter_get_def usage_def)

lemma counter_add_iff [quota_simps]:
  "counter_add q i v = (if i < length q then Some (q[i := q ! i + v]) else None)"
  by (simp add: counter_add_def usage_def)

lemma counter_set_iff [quota_simps]:
  "counter_set q i v = (if i < length q then Some (q[i := v]) else None)"
  by (simp add: counter_set_def usage_def)

lemma quota_ok_add: "quota_ok q \<Longrightarrow> counter_add q i v = Some q' \<Longrightarrow> quota_ok q'"
  by (auto simp: quota_ok_def quota_simps split: if_splits)

lemma quota_ok_set: "quota_ok q \<Longrightarrow> counter_set q i v = Some q' \<Longrightarrow> quota_ok q'"
  by (auto simp: quota_ok_def quota_simps split: if_splits)

interpretation quota: counter_bank MAX_NODES quota_ok counter_get counter_add counter_set
  by unfold_locales (auto simp: quota_ok_def quota_simps nth_list_update)

section \<open>Properties\<close>

text \<open>The additions a sequence of admissions performs, in the order they took effect.\<close>

fun book_all :: "quota_state \<Rightarrow> (nat \<times> u64) list \<Rightarrow> quota_state option" where
  "book_all q [] = Some q"
| "book_all q ((i, v) # bs) = Option.bind (counter_add q i v) (\<lambda>q'. book_all q' bs)"

lemma book_all_bookings: "book_all q bs = quota.bookings q bs"
  by (induction q bs rule: book_all.induct) (simp_all cong: Option.bind_cong)

text \<open>
  Concurrent bookings lose nothing: for every order in which the atomic additions take
  effect, no slot index below \<open>MAX_NODES\<close> panics, each counter ends at its start value plus
  all the costs booked against its own slot (modulo 2 to the 64), and no booking leaks into
  the counter of another node.
\<close>

lemma concurrent_adds_lose_nothing:
  assumes "quota_ok q" and "\<forall>(i, v) \<in> set bs. i < MAX_NODES" and "j < MAX_NODES"
  shows "\<exists>q'. book_all q bs = Some q' \<and> quota_ok q' \<and>
    counter_get q' j = Some (q ! j + sum_list (map snd (filter (\<lambda>b. fst b = j) bs)))"
proof -
  have "counter_get q j = Some (q ! j)"
    using assms(1,3) by (simp add: quota_simps quota_ok_def)
  with quota.bookings_total [OF assms(1,2)] show ?thesis
    unfolding book_all_bookings by blast
qed

end
