(* ===== verification/Node.thy ===== *)
theory Node
  imports Metrics Cost_Table Quota_State
begin

text \<open>
  One upstream node (\<open>src/core/node.rs\<close>). A node is an \<open>Arc\<close> cell whose atomics and
  permits are mutated in place; it is a record here and its operations return the new record.
  Clock readings are arguments. The crates behind the node are parameters, gathered in
  \<^verbatim>\<open>node_api\<close>: \<open>Url::parse\<close>, the \<open>governor\<close> rate limiter (type \<open>'l\<close>) and the \<open>tokio\<close>
  semaphore (type \<open>'s\<close>). What the balancer relies on of them is \<^verbatim>\<open>semaphore_ok\<close> and
  \<^verbatim>\<open>limiter_ok\<close>. Log lines are not modelled.
\<close>

section \<open>Libraries the node is built on\<close>

text \<open>
  \<open>acquire\<close> is one poll of \<open>Semaphore::acquire\<close>: a permit was granted, the waiter stays
  queued, or the semaphore is closed. A failed check of the limiter is the function that
  \<open>NotUntil::wait_time_from\<close> computes from a later clock reading.
\<close>

datatype 's acquired = Granted 's | Pending | Closed

record ('l, 's, 'u) node_api =
  Url_parse :: "string \<Rightarrow> 'u option"
  limiter_new :: "u32 \<Rightarrow> 'l"
  limiter_check :: "'l \<Rightarrow> instant \<Rightarrow> 'l \<times> (instant \<Rightarrow> duration) option"
  semaphore_new :: "nat \<Rightarrow> 's"
  sem_try_acquire :: "'s \<Rightarrow> 's option"
  sem_acquire :: "'s \<Rightarrow> 's acquired"
  sem_release :: "'s \<Rightarrow> 's"

text \<open>
  A semaphore counts its available permits: a failed \<open>try_acquire\<close> means none is left, a
  granted permit takes one, dropping a permit gives it back, and nobody closes it.
\<close>

definition semaphore_ok :: "('l, 's, 'u) node_api \<Rightarrow> ('s \<Rightarrow> nat) \<Rightarrow> bool" where
  "semaphore_ok api permits \<longleftrightarrow>
     (\<forall>n. permits (semaphore_new api n) = n) \<and>
     (\<forall>s. sem_try_acquire api s = None \<longleftrightarrow> permits s = 0) \<and>
     (\<forall>s s'. sem_try_acquire api s = Some s' \<longrightarrow> permits s = Suc (permits s')) \<and>
     (\<forall>s s'. sem_acquire api s = Granted s' \<longrightarrow> permits s = Suc (permits s')) \<and>
     (\<forall>s. sem_acquire api s \<noteq> Closed) \<and>
     (\<forall>s. permits (sem_release api s) = Suc (permits s))"

text \<open>A refused check consumes nothing: the bucket is as it was.\<close>

definition limiter_ok :: "('l, 's, 'u) node_api \<Rightarrow> bool" where
  "limiter_ok api \<longleftrightarrow> (\<forall>l t l' w. limiter_check api l t = (l', Some w) \<longrightarrow> l' = l)"

section \<open>Constants and the clock\<close>

definition PENALTY_SECS :: u32 where
  "PENALTY_SECS = 5"

definition MAX_RETRY_AFTER_SECS :: u32 where
  "MAX_RETRY_AFTER_SECS = 300"

definition LATENCY_SHIFT :: nat where
  "LATENCY_SHIFT = 3"

definition UNMEASURED :: u32 where
  "UNMEASURED = u32_MAX"

definition seconds_since_start :: "instant \<Rightarrow> instant \<Rightarrow> u32" where
  "seconds_since_start EPOCH at =
     (case u32_try_from ((at - EPOCH) div 10 ^ 9) of Some s \<Rightarrow> s | None \<Rightarrow> u32_MAX)"

section \<open>Nodes\<close>

record new_node =
  nn_name :: string
  nn_url :: string
  nn_rps_limit :: u32
  nn_max_concurrent :: nat
  nn_tier :: u8
  nn_method_costs :: provider_cost_table
  nn_monthly_limit :: u64
  nn_spillover_percent :: u8
  nn_reset_day :: u8

record ('l, 's) node_limits =
  rate_limiting :: 'l
  concurrency :: 's

datatype unavailable = RateLimited duration | Saturated

record ('l, 's, 'u) rpc_node =
  node_id :: nat
  node_name :: string
  node_url :: 'u
  limits :: "('l, 's) node_limits"
  tier :: u8
  ema_us :: u32
  until_s :: u32
  method_costs :: provider_cost_table
  spillover_threshold :: u64
  reset_day :: u8
  metrics :: node_metrics

datatype node_error = ZeroRps string | InvalidUrl string string

definition spillover_of :: "u64 \<Rightarrow> u8 \<Rightarrow> u64" where
  "spillover_of monthly_limit spillover_percent =
     of_nat ((unat monthly_limit * unat spillover_percent) div 100)"

definition RpcNode_new ::
  "('l, 's, 'u) node_api \<Rightarrow> new_node \<Rightarrow> node_error + ('l, 's, 'u) rpc_node" where
  "RpcNode_new api config =
     (if nn_rps_limit config = 0 then Inl (ZeroRps (nn_name config))
      else case Url_parse api (nn_url config) of
        None \<Rightarrow> Inl (InvalidUrl (nn_name config) (nn_url config))
      | Some url \<Rightarrow> Inr \<lparr>
          node_id = 0,
          node_name = nn_name config,
          node_url = url,
          limits = \<lparr>rate_limiting = limiter_new api (nn_rps_limit config),
                    concurrency = semaphore_new api (nn_max_concurrent config)\<rparr>,
          tier = nn_tier config,
          ema_us = UNMEASURED,
          until_s = 0,
          method_costs = nn_method_costs config,
          spillover_threshold = spillover_of (nn_monthly_limit config) (nn_spillover_percent config),
          reset_day = nn_reset_day config,
          metrics = NodeMetrics_new (nn_name config) \<rparr>)"

definition set_semaphore :: "'s \<Rightarrow> ('l, 's, 'u) rpc_node \<Rightarrow> ('l, 's, 'u) rpc_node" where
  "set_semaphore s node = node\<lparr>limits := (limits node)\<lparr>concurrency := s\<rparr>\<rparr>"

definition set_limiter :: "'l \<Rightarrow> ('l, 's, 'u) rpc_node \<Rightarrow> ('l, 's, 'u) rpc_node" where
  "set_limiter l node = node\<lparr>limits := (limits node)\<lparr>rate_limiting := l\<rparr>\<rparr>"

text \<open>Dropping the permit an attempt holds.\<close>

definition drop_permit ::
  "('l, 's, 'u) node_api \<Rightarrow> ('l, 's, 'u) rpc_node \<Rightarrow> ('l, 's, 'u) rpc_node" where
  "drop_permit api node = set_semaphore (sem_release api (concurrency (limits node))) node"

text \<open>The limiter reads the clock at \<open>t\<close>, the wait is measured from the reading \<open>t'\<close>.\<close>

definition check_rate ::
  "('l, 's, 'u) node_api \<Rightarrow> instant \<Rightarrow> instant \<Rightarrow> ('l, 's, 'u) rpc_node
     \<Rightarrow> (duration + unit) \<times> ('l, 's, 'u) rpc_node" where
  "check_rate api t t' node =
     (case limiter_check api (rate_limiting (limits node)) t of
        (l, None) \<Rightarrow> (Inr (), set_limiter l node)
      | (l, Some wait_time_from) \<Rightarrow> (Inl (wait_time_from t'), set_limiter l node))"

text \<open>Permit before token. \<open>Inr\<close> means that the caller now holds a permit of the node.\<close>

definition try_admit ::
  "('l, 's, 'u) node_api \<Rightarrow> instant \<Rightarrow> instant \<Rightarrow> ('l, 's, 'u) rpc_node
     \<Rightarrow> (unavailable + unit) \<times> ('l, 's, 'u) rpc_node" where
  "try_admit api t t' node =
     (case sem_try_acquire api (concurrency (limits node)) of
        None \<Rightarrow> (Inl Saturated, node)
      | Some s \<Rightarrow>
          (case check_rate api t t' (set_semaphore s node) of
             (Inl wait, node') \<Rightarrow> (Inl (RateLimited wait), drop_permit api node')
           | (Inr _, node') \<Rightarrow> (Inr (), node')))"

definition is_penalized :: "('l, 's, 'u) rpc_node \<Rightarrow> u32 \<Rightarrow> bool" where
  "is_penalized node now_s \<longleftrightarrow> now_s < until_s node"

definition next_ema :: "u32 \<Rightarrow> u32 \<Rightarrow> u32" where
  "next_ema ema sample =
     (if ema = UNMEASURED then sample
      else saturating_add (ema - drop_bit LATENCY_SHIFT ema) (drop_bit LATENCY_SHIFT sample))"

definition sample_us :: "duration \<Rightarrow> u32" where
  "sample_us round_trip =
     (case u32_try_from (round_trip div 1000) of Some w \<Rightarrow> w | None \<Rightarrow> UNMEASURED - 1)"

definition observe_answer ::
  "duration \<Rightarrow> ('l, 's, 'u) rpc_node \<Rightarrow> ('l, 's, 'u) rpc_node" where
  "observe_answer round_trip node =
     (let node = node\<lparr>ema_us := next_ema (ema_us node) (sample_us round_trip)\<rparr>
      in if until_s node \<noteq> 0 then node\<lparr>until_s := 0\<rparr> else node)"

definition penalty_seconds :: "u32 \<Rightarrow> u32" where
  "penalty_seconds retry_after_s = max PENALTY_SECS (min retry_after_s MAX_RETRY_AFTER_SECS)"

definition penalize ::
  "u32 \<Rightarrow> u32 \<Rightarrow> ('l, 's, 'u) rpc_node \<Rightarrow> ('l, 's, 'u) rpc_node" where
  "penalize now_s retry_after_s node =
     node\<lparr>until_s :=
       saturating_add (saturating_add now_s 1) (penalty_seconds retry_after_s)\<rparr>"

section \<open>What the operations leave alone\<close>

text \<open>The configured part of a node, which no operation on a published node changes.\<close>

definition same_config :: "('l, 's, 'u) rpc_node \<Rightarrow> ('l, 's, 'u) rpc_node \<Rightarrow> bool" where
  "same_config n m \<longleftrightarrow> node_id m = node_id n \<and> node_name m = node_name n \<and>
     node_url m = node_url n \<and> tier m = tier n \<and> method_costs m = method_costs n \<and>
     spillover_threshold m = spillover_threshold n \<and> reset_day m = reset_day n \<and>
     metrics m = metrics n"

lemma same_config_refl [simp]: "same_config n n"
  by (simp add: same_config_def)

lemma same_config_trans: "same_config a b \<Longrightarrow> same_config b c \<Longrightarrow> same_config a c"
  by (simp add: same_config_def)

lemma same_config_id: "same_config n m \<Longrightarrow> node_id m = node_id n"
  by (simp add: same_config_def)

lemma set_semaphore_simps [simp, node_simps]:
  "same_config n (set_semaphore s n)"
  "until_s (set_semaphore s n) = until_s n" "ema_us (set_semaphore s n) = ema_us n"
  "concurrency (limits (set_semaphore s n)) = s"
  "rate_limiting (limits (set_semaphore s n)) = rate_limiting (limits n)"
  by (simp_all add: set_semaphore_def same_config_def)

lemma set_limiter_simps [simp, node_simps]:
  "same_config n (set_limiter l n)"
  "until_s (set_limiter l n) = until_s n" "ema_us (set_limiter l n) = ema_us n"
  "concurrency (limits (set_limiter l n)) = concurrency (limits n)"
  "rate_limiting (limits (set_limiter l n)) = l"
  by (simp_all add: set_limiter_def same_config_def)

lemma drop_permit_simps [simp, node_simps]:
  "same_config n (drop_permit api n)"
  "until_s (drop_permit api n) = until_s n" "ema_us (drop_permit api n) = ema_us n"
  "concurrency (limits (drop_permit api n)) = sem_release api (concurrency (limits n))"
  "rate_limiting (limits (drop_permit api n)) = rate_limiting (limits n)"
  by (simp_all add: drop_permit_def)

lemma observe_answer_simps [simp, node_simps]:
  "same_config n (observe_answer d n)"
  "limits (observe_answer d n) = limits n" "until_s (observe_answer d n) = 0"
  "ema_us (observe_answer d n) = next_ema (ema_us n) (sample_us d)"
  by (simp_all add: observe_answer_def Let_def same_config_def)

lemma penalize_simps [simp, node_simps]:
  "same_config n (penalize t r n)"
  "limits (penalize t r n) = limits n" "ema_us (penalize t r n) = ema_us n"
  by (simp_all add: penalize_def same_config_def)

lemma check_rate_frame:
  assumes "check_rate api t t' n = (res, n')"
  shows "same_config n n' \<and> until_s n' = until_s n \<and> ema_us n' = ema_us n \<and>
    concurrency (limits n') = concurrency (limits n)"
  using assms by (auto simp: check_rate_def split: prod.splits option.splits)

lemma try_admit_frame:
  assumes "try_admit api t t' n = (res, n')"
  shows "same_config n n' \<and> until_s n' = until_s n \<and> ema_us n' = ema_us n"
proof (cases "sem_try_acquire api (concurrency (limits n))")
  case None
  with assms show ?thesis by (simp add: try_admit_def)
next
  case (Some s)
  obtain res' m where m: "check_rate api t t' (set_semaphore s n) = (res', m)"
    by (metis surj_pair)
  have "same_config n m \<and> until_s m = until_s n \<and> ema_us m = ema_us n"
    using check_rate_frame [OF m] by (auto intro: same_config_trans [OF set_semaphore_simps(1)])
  with Some assms m show ?thesis
    by (auto simp: try_admit_def intro: same_config_trans split: sum.splits)
qed

section \<open>Arithmetic of the average and of the penalty\<close>

text \<open>The shift of the average, on natural numbers: it moves towards the sample.\<close>

lemma ema_shift:
  fixes e s :: nat
  shows "min e s \<le> e - e div 8 + s div 8"
    and "e - e div 8 + s div 8 \<le> e \<or> e - e div 8 + s div 8 \<le> 8 * (s div 8)"
proof -
  obtain a k where e: "e = 8 * a + k" "k < 8"
    by (metis div_mult_mod_eq mod_less_divisor mult.commute zero_less_numeral)
  obtain b m where s: "s = 8 * b + m" "m < 8"
    by (metis div_mult_mod_eq mod_less_divisor mult.commute zero_less_numeral)
  have d: "e div 8 = a" "s div 8 = b" using e s by simp_all
  have v: "e - e div 8 + s div 8 = 7 * a + k + b" unfolding d using e by linarith
  show "min e s \<le> e - e div 8 + s div 8"
    unfolding v using e s by (cases "b \<le> a"; cases "a = b") auto
  show "e - e div 8 + s div 8 \<le> e \<or> e - e div 8 + s div 8 \<le> 8 * (s div 8)"
    unfolding v d using e s by (cases "b \<le> a") auto
qed

lemma ema_shift_strict:
  fixes e s :: nat
  assumes "e div 8 \<noteq> s div 8"
  shows "8 * (s div 8) \<le> e - e div 8 + s div 8 \<and> e - e div 8 + s div 8 < e
    \<or> e - e div 8 + s div 8 \<le> 8 * (s div 8) \<and> e < e - e div 8 + s div 8"
proof -
  obtain a k where e: "e = 8 * a + k" "k < 8"
    by (metis div_mult_mod_eq mod_less_divisor mult.commute zero_less_numeral)
  then have d: "e div 8 = a" by simp
  have "e - e div 8 + s div 8 = 7 * a + k + s div 8" unfolding d using e by linarith
  with assms d e show ?thesis by (cases "s div 8 \<le> a") auto
qed

lemma ema_shift_le_max: "e - e div 8 + s div 8 \<le> max e (s :: nat)"
  using ema_shift(2) [of e s] times_div_less_eq_dividend [of 8 s] by linarith

lemma unat_next_ema:
  assumes "ema \<noteq> UNMEASURED"
  shows "unat (next_ema ema s) = unat ema - unat ema div 8 + unat s div 8"
proof -
  have e: "unat (drop_bit 3 ema) = unat ema div 8" "unat (drop_bit 3 s) = unat s div 8"
    by (simp_all add: drop_bit_eq_div unat_div)
  then have "drop_bit 3 ema \<le> ema"
    by (simp add: word_le_nat_alt)
  then have "unat (ema - drop_bit 3 ema) = unat ema - unat ema div 8"
    by (simp add: unat_sub e)
  moreover have "unat ema - unat ema div 8 + unat s div 8 < 2 ^ 32"
    by (rule le_less_trans [OF ema_shift_le_max]) simp
  ultimately show ?thesis
    using assms by (simp add: next_ema_def LATENCY_SHIFT_def unat_saturating_add e)
qed

lemma unat_UNMEASURED: "unat UNMEASURED = 4294967295"
  by (simp add: UNMEASURED_def)

lemma next_ema_measured:
  assumes "ema \<noteq> UNMEASURED"
  shows "next_ema ema s \<noteq> UNMEASURED"
proof -
  have "unat ema \<noteq> 4294967295"
    using assms unat_UNMEASURED by (metis word_unat_eq_iff)
  then have "unat ema \<le> 4294967294"
    using unat_u32_lt [of ema] by linarith
  moreover have "8 * (unat s div 8) \<le> 4294967288"
    using unat_u32_lt [of s] by presburger
  ultimately have "unat (next_ema ema s) \<noteq> 4294967295"
    using unat_next_ema [OF assms, of s] ema_shift(2) [of "unat ema" "unat s"] by linarith
  then show ?thesis using unat_UNMEASURED by metis
qed

lemma unat_penalty_seconds:
  "unat (penalty_seconds r) = max 5 (min (unat r) 300)"
  by (simp add: penalty_seconds_def PENALTY_SECS_def MAX_RETRY_AFTER_SECS_def
      max_def min_def word_le_nat_alt)

lemma unat_until_s:
  assumes "unat now_s + 1 + unat (penalty_seconds r) < 2 ^ 32"
  shows "unat (until_s (penalize now_s r n)) = unat now_s + 1 + unat (penalty_seconds r)"
  using assms by (simp add: penalize_def unat_saturating_add)

lemma unat_seconds_since_start:
  "unat (seconds_since_start E at) = min ((at - E) div 10 ^ 9) (2 ^ 32 - 1)"
  by (auto simp: seconds_since_start_def u32_try_from_def unsigned_of_nat take_bit_nat_eq_self)

text \<open>Iterated on one sample the average ends in the sample's own block of eight.\<close>

lemma ema_shift_converges:
  fixes e s :: nat
  shows "\<exists>n. \<forall>m \<ge> n. ((\<lambda>e. e - e div 8 + s div 8) ^^ m) e div 8 = s div 8"
proof (induction "nat \<bar>int e - int (8 * (s div 8))\<bar>" arbitrary: e rule: less_induct)
  case less
  let ?f = "\<lambda>e. e - e div 8 + s div 8"
  show ?case
  proof (cases "e div 8 = s div 8")
    case True
    have "(?f ^^ m) e = e" for m
      using True div_le_dividend [of e 8] by (induction m) auto
    with True show ?thesis by simp
  next
    case False
    have "8 * (s div 8) \<le> ?f e \<and> ?f e < e \<or> ?f e \<le> 8 * (s div 8) \<and> e < ?f e"
      using ema_shift_strict [OF False] by simp
    then have "nat \<bar>int (?f e) - int (8 * (s div 8))\<bar> < nat \<bar>int e - int (8 * (s div 8))\<bar>"
      by auto
    from less [OF this] obtain n where n: "\<forall>m \<ge> n. (?f ^^ m) (?f e) div 8 = s div 8" by blast
    have "(?f ^^ m) e div 8 = s div 8" if m: "Suc n \<le> m" for m
    proof (cases m)
      case (Suc k)
      with m n show ?thesis by (simp add: funpow_Suc_right del: funpow.simps)
    qed (use m in simp)
    then show ?thesis by blast
  qed
qed

section \<open>A concrete node\<close>

text \<open>
  A counting semaphore and a limiter that never refills, enough to evaluate the operations:
  the hypotheses on the libraries hold of them.
\<close>

definition demo_api :: "(nat, nat, string) node_api" where
  "demo_api = \<lparr>
     Url_parse = (\<lambda>s. if s = [] then None else Some s),
     limiter_new = unat,
     limiter_check = (\<lambda>l _. case l of 0 \<Rightarrow> (0, Some (\<lambda>_. 10 ^ 9)) | Suc k \<Rightarrow> (k, None)),
     semaphore_new = id,
     sem_try_acquire = (\<lambda>s. case s of 0 \<Rightarrow> None | Suc k \<Rightarrow> Some k),
     sem_acquire = (\<lambda>s. case s of 0 \<Rightarrow> Pending | Suc k \<Rightarrow> Granted k),
     sem_release = Suc\<rparr>"

definition demo_node :: "(nat, nat, string) rpc_node" where
  "demo_node = \<lparr>node_id = 0, node_name = ''a'', node_url = ''http://a'',
     limits = \<lparr>rate_limiting = 1, concurrency = 2\<rparr>, tier = 0, ema_us = UNMEASURED,
     until_s = 0, method_costs = ProviderCostTable_default, spillover_threshold = 950,
     reset_day = 1, metrics = NodeMetrics_new ''a''\<rparr>"

lemma demo_semaphore_ok [simp]: "semaphore_ok demo_api id"
  by (auto simp: semaphore_ok_def demo_api_def split: nat.splits)

lemma demo_limiter_ok [simp]: "limiter_ok demo_api"
  by (auto simp: limiter_ok_def demo_api_def split: nat.splits)

section \<open>Properties\<close>

text \<open>
  The spillover threshold is the exact share of the monthly limit, rounded down, and never
  exceeds the limit: the product is formed in 128 bits, so even an unmetered node (limit
  \<open>u64::MAX\<close>) does not overflow.
\<close>

lemma spillover_threshold_exact:
  assumes "spillover_percent \<le> 100"
  shows "unat (spillover_of monthly_limit spillover_percent)
      = unat monthly_limit * unat spillover_percent div 100
    \<and> spillover_of monthly_limit spillover_percent \<le> monthly_limit"
proof -
  have p: "unat spillover_percent \<le> 100"
    using assms by (simp add: word_le_nat_alt)
  then have le: "unat monthly_limit * unat spillover_percent div 100 \<le> unat monthly_limit"
    using mult_le_mono2 [OF p, of "unat monthly_limit"] by linarith
  then have "unat (spillover_of monthly_limit spillover_percent)
      = unat monthly_limit * unat spillover_percent div 100"
    using le_less_trans [OF le unat_u64_lt]
    by (simp add: spillover_of_def unsigned_of_nat take_bit_nat_eq_self)
  with le show ?thesis by (simp add: word_le_nat_alt)
qed



text \<open>
  Once measured, a node stays measured, and its latency average never leaves the interval
  spanned by the old average and the new sample: the integer shifts neither overflow nor
  underflow, and no answer makes a node slower than its slowest sample.
\<close>

lemma next_ema_between:
  assumes "ema \<noteq> UNMEASURED"
  shows "min ema s \<le> next_ema ema s" "next_ema ema s \<le> max ema s" "next_ema ema s \<noteq> UNMEASURED"
proof -
  let ?e = "unat ema" and ?s = "unat s"
  have "min ?e ?s \<le> unat (next_ema ema s)" "unat (next_ema ema s) \<le> max ?e ?s"
    using unat_next_ema [OF assms, of s] ema_shift(1) [of ?e ?s] ema_shift_le_max [of ?e ?s] by simp_all
  then show "min ema s \<le> next_ema ema s" "next_ema ema s \<le> max ema s"
    by (simp_all add: word_le_nat_alt min_def max_def split: if_splits)
  show "next_ema ema s \<noteq> UNMEASURED" by (rule next_ema_measured [OF assms])
qed

text \<open>
  The average follows the node: whatever it starts from, after finitely many answers of
  one steady round trip the average is within the same 8 microseconds as the sample, and it
  stays there for as long as the node answers so.
\<close>

lemma latency_average_converges:
  assumes "ema_us node \<noteq> UNMEASURED"
  shows "\<exists>n. \<forall>m \<ge> n.
    unat (ema_us ((observe_answer d ^^ m) node)) div 8 = unat (sample_us d) div 8"
proof -
  let ?f = "\<lambda>e. e - e div 8 + unat (sample_us d) div 8"
  have step: "ema_us ((observe_answer d ^^ m) node) \<noteq> UNMEASURED \<and>
      unat (ema_us ((observe_answer d ^^ m) node)) = (?f ^^ m) (unat (ema_us node))" for m
    using assms by (induction m) (simp_all add: unat_next_ema next_ema_measured)
  obtain n where "\<forall>m \<ge> n. (?f ^^ m) (unat (ema_us node)) div 8 = unat (sample_us d) div 8"
    using ema_shift_converges by blast
  with step show ?thesis by metis
qed

text \<open>
  Admission keeps the books of the node: a saturated node is left exactly as it was and
  spends no rate-limit token, a rate-limited one gets its permit back, and an admitted attempt
  holds exactly one permit. No branch touches the latency, the penalty or the configuration.
\<close>

lemma try_admit_accounting:
  assumes "semaphore_ok api permits" and "limiter_ok api"
    and "try_admit api t t' node = (res, node')"
  shows "(case res of
       Inl Saturated \<Rightarrow> permits (concurrency (limits node)) = 0 \<and> node' = node
     | Inl (RateLimited w) \<Rightarrow>
         permits (concurrency (limits node')) = permits (concurrency (limits node))
         \<and> rate_limiting (limits node') = rate_limiting (limits node)
     | Inr _ \<Rightarrow> Suc (permits (concurrency (limits node'))) = permits (concurrency (limits node)))
    \<and> same_config node node' \<and> until_s node' = until_s node \<and> ema_us node' = ema_us node"
proof (cases "sem_try_acquire api (concurrency (limits node))")
  case None
  with assms show ?thesis by (auto simp: try_admit_def semaphore_ok_def)
next
  case (Some s)
  with assms(1) have p: "permits (concurrency (limits node)) = Suc (permits s)"
    by (simp add: semaphore_ok_def)
  obtain r m where m: "check_rate api t t' (set_semaphore s node) = (r, m)"
    by (metis surj_pair)
  have "concurrency (limits m) = s" using check_rate_frame [OF m] by simp
  moreover have "rate_limiting (limits m) = rate_limiting (limits node)" if "r = Inl w" for w
    using m that assms(2)
    by (fastforce simp: check_rate_def limiter_ok_def split: prod.splits option.splits)
  ultimately show ?thesis
    using p Some m assms(1,3) try_admit_frame [OF assms(3)]
    by (auto simp: try_admit_def semaphore_ok_def split: sum.splits)
qed

end
