(* ===== verification/Topology.thy ===== *)
theory Topology
  imports Node "HOL-Library.Product_Lexorder" "HOL-Library.Multiset"
begin

text \<open>
  The node set the router walks (\<open>src/core/topology.rs\<close>). Nodes are shared \<open>Arc\<close> cells: a
  reference is an index into the heap of cells, and a topology holds two lists of references.
  \<open>rank\<close> reads every key from one state of the heap. \<open>assign_ids\<close> works on nodes that are not
  published yet, so it takes and returns them by value.

  What the router and the ranking loop rely on of the order is the locale \<open>stable_ranking\<close>.
  The main results are that ranking is a stable sort of the whole set, and that the slot
  allocation implements a table of usage keyed by node name.
\<close>

section \<open>The contract of the routing order\<close>

locale stable_ranking =
  fixes key :: "'h \<Rightarrow> 'a \<Rightarrow> 'k::linorder"
    and rank :: "'h \<Rightarrow> 'a list \<Rightarrow> 'a list"
  assumes mset_rank: "mset (rank h xs) = mset xs"
    and sorted_rank: "sorted (map (key h) (rank h xs))"
    and stable_rank: "filter (\<lambda>x. key h x = k) (rank h xs) = filter (\<lambda>x. key h x = k) xs"
begin

lemma set_rank: "set (rank h xs) = set xs"
  using mset_rank by (metis set_mset_mset)

lemma length_rank: "length (rank h xs) = length xs"
  using mset_rank by (metis size_mset)

lemma distinct_rank: "distinct (rank h xs) \<longleftrightarrow> distinct xs"
  by (rule mset_eq_imp_distinct_iff [OF mset_rank])

text \<open>The first acceptable entry of the order is a best acceptable one.\<close>

lemma first_is_best:
  assumes "find P (rank h xs) = Some x" and "y \<in> set xs" and "P y"
  shows "key h x \<le> key h y"
proof -
  from assms(1) obtain i where i: "i < length (rank h xs)" "rank h xs ! i = x"
    "\<forall>j < i. \<not> P (rank h xs ! j)" by (auto simp: find_Some_iff)
  from assms(2) obtain j where j: "j < length (rank h xs)" "rank h xs ! j = y"
    using set_rank by (metis in_set_conv_nth)
  have "i \<le> j" using i(3) j(2) assms(3) by (metis not_le)
  with sorted_rank [of h xs] i j show ?thesis by (auto simp: sorted_iff_nth_mono)
qed

end

section \<open>Ranking\<close>

record topology =
  t_all :: "nat list"
  t_ranked :: "nat list"

type_synonym ('l, 's, 'u) heap = "('l, 's, 'u) rpc_node list"

definition rank_key :: "('l, 's, 'u) heap \<Rightarrow> nat \<Rightarrow> u8 \<times> u32" where
  "rank_key h r = (tier (h ! r), ema_us (h ! r))"

definition rank :: "('l, 's, 'u) heap \<Rightarrow> nat list \<Rightarrow> nat list" where
  "rank h all = sort_key (rank_key h) all"

definition Topology_new :: "('l, 's, 'u) heap \<Rightarrow> nat list \<Rightarrow> topology" where
  "Topology_new h all = \<lparr>t_all = all, t_ranked = rank h all\<rparr>"

interpretation order: stable_ranking rank_key rank
  by unfold_locales (simp_all add: rank_def sort_key_stable)

section \<open>The health listing\<close>

record node_health =
  h_name :: string
  h_tier :: u8
  h_status :: string
  h_latency_ms :: "u32 option"

definition node_status :: "('l, 's, 'u) rpc_node \<Rightarrow> u32 \<Rightarrow> node_health" where
  "node_status node now_s =
     (let is_up = (\<not> is_penalized node now_s); ema = ema_us node
      in \<lparr>h_name = node_name node, h_tier = tier node,
          h_status = (if \<not> is_up then ''down''
                      else if ema = UNMEASURED then ''unknown'' else ''up''),
          h_latency_ms = (if is_up \<and> ema \<noteq> UNMEASURED then Some (ema div 1000) else None)\<rparr>)"

definition health :: "('l, 's, 'u) heap \<Rightarrow> topology \<Rightarrow> u32 \<Rightarrow> node_health list" where
  "health h tp now_s = map (\<lambda>r. node_status (h ! r) now_s) (t_all tp)"

section \<open>Quota slots\<close>

text \<open>
  \<^verbatim>\<open>IndexPanic\<close> stands for an array index out of range, which the invariant excludes. The
  counters are returned on every path, so that an error shows what it left behind.
\<close>

datatype assign_error = TooManyNodes nat | SharedName string | OutOfSlots | IndexPanic

fun shared_name :: "string list \<Rightarrow> ('l, 's, 'u) rpc_node list \<Rightarrow> string option" where
  "shared_name seen [] = None"
| "shared_name seen (n # ns) =
     (if node_name n \<in> set seen then Some (node_name n) else shared_name (node_name n # seen) ns)"

text \<open>\<open>collect\<close> into a map: a later node of the same name replaces an earlier one.\<close>

definition previous_of ::
  "('l, 's, 'u) rpc_node list \<Rightarrow> string \<Rightarrow> ('l, 's, 'u) rpc_node option" where
  "previous_of prev = map_of (rev (map (\<lambda>n. (node_name n, n)) prev))"

definition carry_over ::
  "('l, 's, 'u) rpc_node \<Rightarrow> ('l, 's, 'u) rpc_node \<Rightarrow> ('l, 's, 'u) rpc_node" where
  "carry_over old node =
     node\<lparr>node_id := node_id old, ema_us := ema_us old, until_s := until_s old\<rparr>"

fun match_survivors ::
  "(string \<Rightarrow> ('l, 's, 'u) rpc_node option) \<Rightarrow> nat \<Rightarrow> ('l, 's, 'u) rpc_node list \<Rightarrow> bool list
     \<Rightarrow> nat list \<Rightarrow> assign_error + (('l, 's, 'u) rpc_node list \<times> bool list \<times> nat list)" where
  "match_survivors previous pos [] taken arrived = Inr ([], taken, arrived)"
| "match_survivors previous pos (n # ns) taken arrived =
     (case previous (node_name n) of
        Some old \<Rightarrow>
          if node_id old < length taken then
            (case match_survivors previous (Suc pos) ns (taken[node_id old := True]) arrived of
               Inl e \<Rightarrow> Inl e
             | Inr (ms, tk, ar) \<Rightarrow> Inr (carry_over old n # ms, tk, ar))
          else Inl IndexPanic
      | None \<Rightarrow>
          (case match_survivors previous (Suc pos) ns taken (arrived @ [pos]) of
             Inl e \<Rightarrow> Inl e
           | Inr (ms, tk, ar) \<Rightarrow> Inr (n # ms, tk, ar)))"

text \<open>The departing nodes, whose last usage is reported: the read indexes the counters.\<close>

definition departed ::
  "('l, 's, 'u) rpc_node list \<Rightarrow> ('l, 's, 'u) rpc_node list \<Rightarrow> ('l, 's, 'u) rpc_node list" where
  "departed prev new = filter (\<lambda>old. \<not> list_ex (\<lambda>n. node_name n = node_name old) new) prev"

fun take_slots ::
  "nat list \<Rightarrow> nat list \<Rightarrow> ('l, 's, 'u) rpc_node list \<Rightarrow> quota_state
     \<Rightarrow> (assign_error + ('l, 's, 'u) rpc_node list) \<times> quota_state" where
  "take_slots free [] new nodes_usage = (Inr new, nodes_usage)"
| "take_slots [] (p # ps) new nodes_usage = (Inl OutOfSlots, nodes_usage)"
| "take_slots (i # free) (p # ps) new nodes_usage =
     (case counter_set nodes_usage i 0 of
        None \<Rightarrow> (Inl IndexPanic, nodes_usage)
      | Some nodes_usage' \<Rightarrow> take_slots free ps (new[p := (new ! p)\<lparr>node_id := i\<rparr>]) nodes_usage')"

definition assign_ids ::
  "('l, 's, 'u) rpc_node list \<Rightarrow> ('l, 's, 'u) rpc_node list \<Rightarrow> quota_state
     \<Rightarrow> (assign_error + ('l, 's, 'u) rpc_node list) \<times> quota_state" where
  "assign_ids prev new nodes_usage =
     (if MAX_NODES < length new then (Inl (TooManyNodes (length new)), nodes_usage)
      else case shared_name [] new of
        Some name \<Rightarrow> (Inl (SharedName name), nodes_usage)
      | None \<Rightarrow>
          (case match_survivors (previous_of prev) 0 new (replicate MAX_NODES False) [] of
             Inl e \<Rightarrow> (Inl e, nodes_usage)
           | Inr (new, taken, arrived) \<Rightarrow>
               if list_ex (\<lambda>old. counter_get nodes_usage (node_id old) = None) (departed prev new)
               then (Inl IndexPanic, nodes_usage)
               else take_slots (filter (\<lambda>i. \<not> taken ! i) [0..<MAX_NODES]) arrived new nodes_usage))"

section \<open>What the passes of the slot allocation compute\<close>

lemma shared_name_None_iff:
  "shared_name seen ns = None \<longleftrightarrow>
     distinct (map node_name ns) \<and> set seen \<inter> set (map node_name ns) = {}"
  by (induction seen ns rule: shared_name.induct) auto

lemma shared_name_Some:
  "shared_name seen ns = Some x \<Longrightarrow> x \<in> node_name ` set ns"
  by (induction seen ns rule: shared_name.induct) (auto split: if_splits)

lemma previous_of_iff:
  assumes "distinct (map node_name prev)"
  shows "previous_of prev x = Some old \<longleftrightarrow> old \<in> set prev \<and> node_name old = x"
proof -
  have "distinct (map fst (rev (map (\<lambda>n. (node_name n, n)) prev)))"
    using assms by (simp add: rev_map [symmetric] comp_def)
  then have "previous_of prev x = Some old \<longleftrightarrow> (x, old) \<in> set (map (\<lambda>n. (node_name n, n)) prev)"
    unfolding previous_of_def by (simp add: map_of_eq_Some_iff)
  then show ?thesis by auto
qed

lemma previous_of_SomeD:
  "previous_of prev x = Some old \<Longrightarrow> old \<in> set prev \<and> node_name old = x"
  by (auto simp: previous_of_def dest: map_of_SomeD)

text \<open>The positions of the nodes that are new to the config, counted from \<open>pos\<close>.\<close>

fun arrivals :: "(string \<Rightarrow> 'n option) \<Rightarrow> nat \<Rightarrow> ('l, 's, 'u) rpc_node list \<Rightarrow> nat list" where
  "arrivals previous pos [] = []"
| "arrivals previous pos (n # ns) =
     (if previous (node_name n) = None then [pos] else []) @ arrivals previous (Suc pos) ns"

lemma arrivals_iff:
  "p \<in> set (arrivals previous pos ns) \<longleftrightarrow>
     pos \<le> p \<and> p < pos + length ns \<and> previous (node_name (ns ! (p - pos))) = None"
proof (induction previous pos ns rule: arrivals.induct)
  case (2 previous pos n ns)
  have "p - pos = Suc (p - Suc pos)" if "Suc pos \<le> p"
    using that by simp
  with 2 show ?case
    by (cases "p = pos"; cases "Suc pos \<le> p") auto
qed simp

lemma distinct_arrivals: "distinct (arrivals previous pos ns)"
  by (induction previous pos ns rule: arrivals.induct) (auto simp: arrivals_iff)

lemma length_arrivals:
  "length (arrivals previous pos ns) + length (filter (\<lambda>n. previous (node_name n) \<noteq> None) ns)
     = length ns"
  by (induction previous pos ns rule: arrivals.induct) auto

abbreviation carried ::
  "(string \<Rightarrow> ('l, 's, 'u) rpc_node option) \<Rightarrow> ('l, 's, 'u) rpc_node \<Rightarrow> ('l, 's, 'u) rpc_node" where
  "carried previous n \<equiv> (case previous (node_name n) of Some old \<Rightarrow> carry_over old n | None \<Rightarrow> n)"

lemma carry_over_simps [simp]:
  "node_id (carry_over old n) = node_id old" "node_name (carry_over old n) = node_name n"
  "ema_us (carry_over old n) = ema_us old" "until_s (carry_over old n) = until_s old"
  "limits (carry_over old n) = limits n" "tier (carry_over old n) = tier n"
  by (simp_all add: carry_over_def)

lemma match_survivors_eq:
  assumes "\<And>x old. previous x = Some old \<Longrightarrow> node_id old < length taken"
  shows "\<exists>tk. match_survivors previous pos ns taken arrived =
      Inr (map (carried previous) ns, tk, arrived @ arrivals previous pos ns)
    \<and> length tk = length taken
    \<and> (\<forall>i < length taken. tk ! i \<longleftrightarrow> taken ! i \<or>
         (\<exists>n \<in> set ns. \<exists>old. previous (node_name n) = Some old \<and> node_id old = i))"
  using assms
proof (induction previous pos ns taken arrived rule: match_survivors.induct)
  case (1 previous pos taken arrived)
  then show ?case by simp
next
  case (2 previous pos n ns taken arrived)
  show ?case
  proof (cases "previous (node_name n)")
    case None
    from "2.IH"(1) [OF None] "2.prems" None show ?thesis by auto
  next
    case (Some old)
    with "2.prems" have lt: "node_id old < length taken" by blast
    from "2.IH"(2) [OF Some lt] "2.prems" obtain tk where
      "match_survivors previous (Suc pos) ns (taken[node_id old := True]) arrived =
         Inr (map (carried previous) ns, tk, arrived @ arrivals previous (Suc pos) ns)"
      "length tk = length taken"
      "\<forall>i < length taken. tk ! i \<longleftrightarrow> taken[node_id old := True] ! i \<or>
         (\<exists>n \<in> set ns. \<exists>old. previous (node_name n) = Some old \<and> node_id old = i)"
      by auto
    with Some lt show ?thesis by (auto simp: nth_list_update)
  qed
qed

lemma take_slots_ok:
  assumes "length ps \<le> length free" and "distinct free" and "\<forall>i \<in> set free. i < MAX_NODES"
    and "quota_ok q" and "distinct ps" and "\<forall>p \<in> set ps. p < length new"
  shows "\<exists>new' q'. take_slots free ps new q = (Inr new', q') \<and> quota_ok q'
    \<and> length new' = length new
    \<and> (\<forall>p < length new. p \<notin> set ps \<longrightarrow> new' ! p = new ! p)
    \<and> (\<forall>k < length ps. new' ! (ps ! k) = (new ! (ps ! k))\<lparr>node_id := free ! k\<rparr>)
    \<and> (\<forall>i < MAX_NODES. q' ! i = (if i \<in> set (take (length ps) free) then 0 else q ! i))"
  using assms
proof (induction free ps new q rule: take_slots.induct)
  case (3 i free p ps new q)
  then have i: "i < length q" by (simp add: quota_ok_def)
  then have set: "counter_set q i 0 = Some (q[i := 0])" by (simp add: quota_simps)
  from "3.IH" [OF set] "3.prems" obtain new' q' where
    IH: "take_slots free ps (new[p := (new ! p)\<lparr>node_id := i\<rparr>]) (q[i := 0]) = (Inr new', q')"
      "quota_ok q'" "length new' = length new"
      "\<forall>k < length new. k \<notin> set ps \<longrightarrow> new' ! k = new[p := (new ! p)\<lparr>node_id := i\<rparr>] ! k"
      "\<forall>k < length ps. new' ! (ps ! k) =
         (new[p := (new ! p)\<lparr>node_id := i\<rparr>] ! (ps ! k))\<lparr>node_id := free ! k\<rparr>"
      "\<forall>k < MAX_NODES. q' ! k = (if k \<in> set (take (length ps) free) then 0 else q[i := 0] ! k)"
    by (auto simp: quota_ok_def)
  have "p \<noteq> ps ! k" if "k < length ps" for k using that "3.prems"(5) by auto
  with IH "3.prems" set i have
    "\<forall>k < length (p # ps). new' ! ((p # ps) ! k) =
       (new ! ((p # ps) ! k))\<lparr>node_id := (i # free) ! k\<rparr>"
    by (auto simp: nth_Cons split: nat.splits)
  moreover have
    "\<forall>k < MAX_NODES. q' ! k = (if k \<in> set (take (length (p # ps)) (i # free)) then 0 else q ! k)"
    using IH(6) i "3.prems"(2) by (auto simp: nth_list_update dest: in_set_takeD)
  ultimately show ?case using IH set "3.prems"(5,6) by auto
qed auto

section \<open>Node sets that own their slots\<close>

definition slots_ok :: "('l, 's, 'u) rpc_node list \<Rightarrow> bool" where
  "slots_ok ns \<longleftrightarrow> distinct (map node_name ns) \<and> distinct (map node_id ns) \<and>
     (\<forall>n \<in> set ns. node_id n < MAX_NODES)"

text \<open>
  The abstract view of the counters: what each named node has spent in this billing period.
\<close>

definition spend :: "('l, 's, 'u) rpc_node list \<Rightarrow> quota_state \<Rightarrow> string \<Rightarrow> u64 option" where
  "spend ns q = map_of (map (\<lambda>n. (node_name n, q ! node_id n)) ns)"

lemma slots_ok_Nil [simp]: "slots_ok []"
  by (simp add: slots_ok_def)

lemma slots_ok_inj:
  "slots_ok ns \<Longrightarrow> n \<in> set ns \<Longrightarrow> m \<in> set ns \<Longrightarrow> node_id n = node_id m \<longleftrightarrow> n = m"
  by (auto simp: slots_ok_def distinct_map inj_on_def)

lemma spend_Some_iff:
  "distinct (map node_name ns) \<Longrightarrow>
     spend ns q x = Some v \<longleftrightarrow> (\<exists>n \<in> set ns. node_name n = x \<and> q ! node_id n = v)"
  by (force simp: spend_def map_of_eq_Some_iff comp_def)

lemma spend_None_iff: "spend ns q x = None \<longleftrightarrow> x \<notin> node_name ` set ns"
  by (auto simp: spend_def map_of_eq_None_iff image_image)

text \<open>What one node of the new set looks like after the allocation.\<close>

definition assigned ::
  "('l, 's, 'u) rpc_node list \<Rightarrow> quota_state \<Rightarrow> quota_state
     \<Rightarrow> ('l, 's, 'u) rpc_node \<Rightarrow> ('l, 's, 'u) rpc_node \<Rightarrow> bool" where
  "assigned prev q q' n n' \<longleftrightarrow>
     (case previous_of prev (node_name n) of
        Some old \<Rightarrow> n' = carry_over old n \<and> q' ! node_id n' = q ! node_id n'
      | None \<Rightarrow> (\<exists>i < MAX_NODES. n' = n\<lparr>node_id := i\<rparr> \<and> q' ! i = 0))"

lemma assigned_name: "assigned prev q q' n n' \<Longrightarrow> node_name n' = node_name n"
  by (auto simp: assigned_def split: option.splits)

lemma list_all2_setD1: "list_all2 R xs ys \<Longrightarrow> x \<in> set xs \<Longrightarrow> \<exists>y \<in> set ys. R x y"
  by (induction rule: list_all2_induct) auto

lemma assigned_names:
  "list_all2 (assigned prev q q') new new' \<Longrightarrow> map node_name new' = map node_name new"
  by (induction rule: list_all2_induct) (auto dest: assigned_name)

lemma length_free:
  assumes "length tk = MAX_NODES"
    and "\<forall>i < MAX_NODES. tk ! i \<longrightarrow> i \<in> S" and "finite S"
  shows "MAX_NODES \<le> length (filter (\<lambda>i. \<not> tk ! i) [0..<MAX_NODES]) + card S"
proof -
  have "length (filter (\<lambda>i. tk ! i) [0..<MAX_NODES]) = card {i. i < MAX_NODES \<and> tk ! i}"
    by (subst distinct_length_filter) (auto intro!: arg_cong [where f = card])
  also have "\<dots> \<le> card S" using assms by (intro card_mono) auto
  finally show ?thesis
    using sum_length_filter_compl [of "\<lambda>i. tk ! i" "[0..<MAX_NODES]"] by simp
qed

abbreviation free_slots :: "bool list \<Rightarrow> nat list" where
  "free_slots tk \<equiv> filter (\<lambda>i. \<not> tk ! i) [0..<MAX_NODES]"

text \<open>The slots the surviving nodes of a new set hold.\<close>

definition held :: "('l, 's, 'u) rpc_node list \<Rightarrow> ('l, 's, 'u) rpc_node list \<Rightarrow> nat set" where
  "held prev new = {i. \<exists>n \<in> set new. \<exists>old. previous_of prev (node_name n) = Some old \<and> node_id old = i}"

lemma enough_slots:
  assumes "length tk = MAX_NODES" and "\<forall>i < MAX_NODES. tk ! i \<longleftrightarrow> i \<in> held prev new"
    and "length new \<le> MAX_NODES"
  shows "length (arrivals (previous_of prev) 0 new) \<le> length (free_slots tk)"
proof -
  let ?surv = "filter (\<lambda>n. previous_of prev (node_name n) \<noteq> None) new"
  let ?S = "(\<lambda>n. node_id (the (previous_of prev (node_name n)))) ` set ?surv"
  have "card ?S \<le> length ?surv"
    by (meson card_image_le card_length finite_set le_trans)
  moreover have "MAX_NODES \<le> length (free_slots tk) + card ?S"
    using assms(1,2) by (intro length_free) (force simp: held_def)+
  ultimately show ?thesis
    using length_arrivals [of "previous_of prev" 0 new] assms(3) by linarith
qed

text \<open>
  One position after the allocation: a survivor sits on a held slot, the k-th arrival on the
  k-th free one.
\<close>

lemma slot_at:
  fixes prev new :: "('l, 's, 'u) rpc_node list"
  defines "ar \<equiv> arrivals (previous_of prev) 0 new"
  assumes tk: "\<forall>i < MAX_NODES. tk ! i \<longleftrightarrow> i \<in> held prev new"
    and prev: "slots_ok prev" and len: "length ar \<le> length (free_slots tk)"
    and kept: "\<forall>p < length (map (carried (previous_of prev)) new).
      p \<notin> set ar \<longrightarrow> new' ! p = map (carried (previous_of prev)) new ! p"
    and fresh: "\<forall>k < length ar. new' ! (ar ! k) =
      (map (carried (previous_of prev)) new ! (ar ! k))\<lparr>node_id := free_slots tk ! k\<rparr>"
    and q': "\<forall>i < MAX_NODES. q' ! i = (if i \<in> set (take (length ar) (free_slots tk)) then 0 else q ! i)"
    and p: "p < length new"
  shows "assigned prev q q' (new ! p) (new' ! p)
    \<and> (case previous_of prev (node_name (new ! p)) of
         Some old \<Rightarrow> node_id (new' ! p) = node_id old \<and> node_id old \<in> held prev new
       | None \<Rightarrow> \<exists>k < length (free_slots tk). p = ar ! k \<and> k < length ar \<and>
           node_id (new' ! p) = free_slots tk ! k \<and> free_slots tk ! k \<notin> held prev new)"
proof (cases "previous_of prev (node_name (new ! p))")
  case None
  with p have "p \<in> set ar" by (simp add: ar_def arrivals_iff)
  then obtain k where k: "k < length ar" "p = ar ! k" by (metis in_set_conv_nth)
  with len have k': "k < length (free_slots tk)" by simp
  then have mem: "free_slots tk ! k \<in> set (free_slots tk)" by (rule nth_mem)
  have "free_slots tk ! k \<in> set (take (length ar) (free_slots tk))"
    using k k' nth_mem [of k "take (length ar) (free_slots tk)"] by simp
  moreover have "free_slots tk ! k < MAX_NODES" "free_slots tk ! k \<notin> held prev new"
    using mem tk by auto
  moreover have "new' ! p = (new ! p)\<lparr>node_id := free_slots tk ! k\<rparr>"
    using fresh k p None by simp
  ultimately show ?thesis
    using None k k' q' by (auto simp: assigned_def)
next
  case (Some old)
  have held_old: "node_id old \<in> held prev new" using Some p by (auto simp: held_def)
  have lt: "node_id old < MAX_NODES"
    using previous_of_SomeD [OF Some] prev by (auto simp: slots_ok_def)
  have "p \<notin> set ar" using Some p by (simp add: ar_def arrivals_iff)
  moreover have "node_id old \<notin> set (take (length ar) (free_slots tk))"
    using tk held_old set_take_subset [of "length ar" "free_slots tk"] by auto
  ultimately show ?thesis using Some p held_old lt kept q' by (simp add: assigned_def)
qed

lemma slots_ok_assigned:
  fixes prev new :: "('l, 's, 'u) rpc_node list"
  assumes prev: "slots_ok prev" and new: "distinct (map node_name new)"
    and len: "length new' = length new"
    and at: "\<And>p. p < length new \<Longrightarrow> assigned prev q q' (new ! p) (new' ! p)
    \<and> (case previous_of prev (node_name (new ! p)) of
         Some old \<Rightarrow> node_id (new' ! p) = node_id old \<and> node_id old \<in> held prev new
       | None \<Rightarrow> \<exists>k < length (free_slots tk). p = ar ! k \<and> k < length ar \<and>
           node_id (new' ! p) = free_slots tk ! k \<and> free_slots tk ! k \<notin> held prev new)"
  shows "slots_ok new'"
proof -
  have "map node_name new' = map node_name new"
  proof (rule nth_equalityI)
    fix p assume "p < length (map node_name new')"
    then have p: "p < length new" using len by simp
    from at [OF p] have "assigned prev q q' (new ! p) (new' ! p)" ..
    then show "map node_name new' ! p = map node_name new ! p"
      using p len by (simp add: assigned_name)
  qed (use len in simp)
  moreover have "node_id (new' ! p) < MAX_NODES" if "p < length new" for p
    using at [OF that] prev previous_of_SomeD
    by (fastforce simp: assigned_def slots_ok_def split: option.splits)
  moreover have "p = p'"
    if p: "p < length new" "p' < length new" and eq: "node_id (new' ! p) = node_id (new' ! p')" for p p'
  proof (cases "previous_of prev (node_name (new ! p))"; cases "previous_of prev (node_name (new ! p'))")
    assume *: "previous_of prev (node_name (new ! p)) = None" "previous_of prev (node_name (new ! p')) = None"
    obtain k k' where "k < length (free_slots tk)" "k' < length (free_slots tk)" "p = ar ! k"
        "p' = ar ! k'" "free_slots tk ! k = free_slots tk ! k'"
      using at [OF p(1)] at [OF p(2)] * eq by auto
    moreover have "distinct (free_slots tk)" by simp
    ultimately show ?thesis using nth_eq_iff_index_eq by blast
  next
    fix old old' assume *: "previous_of prev (node_name (new ! p)) = Some old"
      "previous_of prev (node_name (new ! p')) = Some old'"
    then have "old = old'"
      using at [OF p(1)] at [OF p(2)] eq slots_ok_inj [OF prev] previous_of_SomeD by fastforce
    with * have "node_name (new ! p) = node_name (new ! p')"
      by (metis previous_of_SomeD)
    then show ?thesis using p new nth_eq_iff_index_eq [of "map node_name new" p p'] by simp
  qed (use at [OF p(1)] at [OF p(2)] eq in auto)
  ultimately show ?thesis
    using new len by (auto simp: slots_ok_def distinct_conv_nth in_set_conv_nth)
qed

text \<open>The slots of the nodes whose name is new: the only counters an allocation zeroes.\<close>

definition fresh_slots :: "('l, 's, 'u) rpc_node list \<Rightarrow> ('l, 's, 'u) rpc_node list \<Rightarrow> nat set" where
  "fresh_slots prev new = node_id ` {n \<in> set new. previous_of prev (node_name n) = None}"

lemma fresh_slots_taken:
  fixes prev new :: "('l, 's, 'u) rpc_node list"
  defines "ar \<equiv> arrivals (previous_of prev) 0 new"
  assumes len: "length ar \<le> length free" and "length new' = length (map (carried (previous_of prev)) new)"
    and at: "\<forall>k < length ar. new' ! (ar ! k) =
      (map (carried (previous_of prev)) new ! (ar ! k))\<lparr>node_id := free ! k\<rparr>"
    and i: "i \<in> set (take (length ar) free)"
  shows "i \<in> fresh_slots prev new'"
proof -
  from i obtain k where k: "k < length ar" "i = free ! k" using len by (auto simp: in_set_conv_nth)
  then have p: "ar ! k < length new" "previous_of prev (node_name (new ! (ar ! k))) = None"
    using nth_mem [OF k(1)] by (simp_all add: ar_def arrivals_iff)
  then have n: "new' ! (ar ! k) = (new ! (ar ! k))\<lparr>node_id := i\<rparr>" using at k by simp
  have "new' ! (ar ! k) \<in> set new'" using p(1) assms(3) by simp
  moreover have "node_id (new' ! (ar ! k)) = i" "previous_of prev (node_name (new' ! (ar ! k))) = None"
    using n p(2) by simp_all
  ultimately show ?thesis by (force simp: fresh_slots_def)
qed

text \<open>On a well-formed set the allocation succeeds, and this is its result, position by position.\<close>

lemma assign_ids_full:
  fixes prev new :: "('l, 's, 'u) rpc_node list"
  assumes prev: "slots_ok prev" and q: "quota_ok q"
    and new: "distinct (map node_name new)" "length new \<le> MAX_NODES"
  shows "\<exists>new' q'. assign_ids prev new q = (Inr new', q') \<and> quota_ok q' \<and> slots_ok new'
    \<and> list_all2 (assigned prev q q') new new' \<and> (\<forall>i < MAX_NODES. i \<notin> fresh_slots prev new' \<longrightarrow> q' ! i = q ! i)"
proof -
  let ?P = "previous_of prev" and ?ar = "arrivals (previous_of prev) 0 new"
  let ?new1 = "map (carried ?P) new"
  have old: "old \<in> set prev \<and> node_id old < MAX_NODES \<and> node_name old = x" if "?P x = Some old" for x old
    using previous_of_SomeD [OF that] prev by (auto simp: slots_ok_def)
  obtain tk where m: "match_survivors ?P 0 new (replicate MAX_NODES False) [] = Inr (?new1, tk, ?ar)"
      "length tk = MAX_NODES" and tk: "\<forall>i < MAX_NODES. tk ! i \<longleftrightarrow> i \<in> held prev new"
    using match_survivors_eq [of ?P "replicate MAX_NODES False" 0 new "[]"] old
    by (auto simp: held_def)
  have len: "length ?ar \<le> length (free_slots tk)"
    using m(2) tk new(2) by (rule enough_slots)
  obtain new' q' where ts: "take_slots (free_slots tk) ?ar ?new1 q = (Inr new', q')" "quota_ok q'"
      "length new' = length ?new1"
      "\<forall>p < length ?new1. p \<notin> set ?ar \<longrightarrow> new' ! p = ?new1 ! p"
      "\<forall>k < length ?ar. new' ! (?ar ! k) = (?new1 ! (?ar ! k))\<lparr>node_id := free_slots tk ! k\<rparr>"
      "\<forall>i < MAX_NODES. q' ! i = (if i \<in> set (take (length ?ar) (free_slots tk)) then 0 else q ! i)"
  proof -
    have "\<forall>p \<in> set ?ar. p < length ?new1" by (simp add: arrivals_iff)
    from take_slots_ok [OF len _ _ q distinct_arrivals this] that show ?thesis by fastforce
  qed
  note at = slot_at [OF tk prev len ts(4-6)]
  have "counter_get q (node_id old) \<noteq> None" if "old \<in> set prev" for old
    using that prev q by (auto simp: quota_simps slots_ok_def quota_ok_def)
  then have "\<not> list_ex (\<lambda>old. counter_get q (node_id old) = None) (departed prev ?new1)"
    by (auto simp: list_ex_iff departed_def)
  moreover have "shared_name [] new = None"
    using new by (simp add: shared_name_None_iff)
  ultimately have "assign_ids prev new q = (Inr new', q')"
    using new m ts(1) by (simp add: assign_ids_def)
  moreover have A: "list_all2 (assigned prev q q') new new'"
    using at ts(3) by (simp add: list_all2_conv_all_nth)
  moreover have "slots_ok new'"
    by (rule slots_ok_assigned [OF prev new(1) _ at]) (use ts(3) in simp_all)
  moreover have "\<forall>i < MAX_NODES. i \<notin> fresh_slots prev new' \<longrightarrow> q' ! i = q ! i"
    using fresh_slots_taken [OF len ts(3,5)] ts(6) by auto
  ultimately show ?thesis using ts(2) by blast
qed

lemma assign_ids_result:
  fixes prev new :: "('l, 's, 'u) rpc_node list"
  assumes "slots_ok prev" and "quota_ok q" and "distinct (map node_name new)" and "length new \<le> MAX_NODES"
  shows "\<exists>new' q'. assign_ids prev new q = (Inr new', q') \<and> quota_ok q' \<and> slots_ok new'
    \<and> list_all2 (assigned prev q q') new new'"
  using assign_ids_full [OF assms] by blast

lemma spend_assigned:
  assumes new': "slots_ok new'" and prev: "slots_ok prev"
    and at: "list_all2 (assigned prev q q') new new'"
  shows "spend new' q' x = (if x \<in> node_name ` set new
    then Some (case spend prev q x of Some v \<Rightarrow> v | None \<Rightarrow> 0) else None)"
proof (cases "x \<in> node_name ` set new")
  case False
  then have "x \<notin> node_name ` set new'"
    using assigned_names [OF at] by (metis image_set)
  with False show ?thesis by (simp add: spend_None_iff)
next
  case True
  then obtain n n' where n: "n \<in> set new" "n' \<in> set new'" "assigned prev q q' n n'" "node_name n = x"
    using list_all2_setD1 [OF at] by blast
  with new' have s: "spend new' q' x = Some (q' ! node_id n')"
    using spend_Some_iff [of new'] assigned_name [OF n(3)] by (auto simp: slots_ok_def)
  show ?thesis
  proof (cases "previous_of prev x")
    case None
    then have "x \<notin> node_name ` set prev"
      using prev previous_of_iff [of prev x] by (auto simp: slots_ok_def)
    then have "spend prev q x = None" by (simp add: spend_None_iff)
    with None n s True show ?thesis by (auto simp: assigned_def)
  next
    case (Some old)
    then have "spend prev q x = Some (q ! node_id old)"
      using prev spend_Some_iff [of prev] previous_of_SomeD [OF Some] by (auto simp: slots_ok_def)
    with Some n s True show ?thesis by (auto simp: assigned_def)
  qed
qed

text \<open>
  The routing order is a stable sort of the whole node set: it loses and repeats no node,
  tiers come before latencies, and nodes the balancer cannot tell apart keep the order the
  operator wrote.
\<close>

lemma Topology_new_stable_sort:
  "mset (t_ranked (Topology_new h all)) = mset all
   \<and> sorted (map (\<lambda>r. (tier (h ! r), ema_us (h ! r))) (t_ranked (Topology_new h all)))
   \<and> filter (\<lambda>r. (tier (h ! r), ema_us (h ! r)) = k) (t_ranked (Topology_new h all))
       = filter (\<lambda>r. (tier (h ! r), ema_us (h ! r)) = k) all"
  using order.mset_rank order.sorted_rank [of h all] order.stable_rank [of h k all]
  by (simp add: Topology_new_def rank_key_def [abs_def])

section \<open>Properties\<close>

text \<open>
  C12. A reload never mixes up spending: the slot allocation implements a table keyed by node
  name. A node whose name stays in the config keeps exactly what it has spent, a node new to
  the config starts from zero even on a recycled slot, and a node that left is not tracked.
\<close>

theorem assign_ids_refines_spend:
  assumes "slots_ok prev" and "quota_ok q" and "distinct (map node_name new)"
    and "length new \<le> MAX_NODES"
  shows "\<exists>new' q'. assign_ids prev new q = (Inr new', q') \<and> quota_ok q' \<and> slots_ok new'
    \<and> spend new' q' = (\<lambda>x. if x \<in> node_name ` set new
         then Some (case spend prev q x of Some v \<Rightarrow> v | None \<Rightarrow> 0) else None)"
proof -
  obtain new' q' where res: "assign_ids prev new q = (Inr new', q')" "quota_ok q'" "slots_ok new'"
    and at: "list_all2 (assigned prev q q') new new'"
    using assign_ids_result [OF assms] by blast
  have "spend new' q' x = (if x \<in> node_name ` set new
      then Some (case spend prev q x of Some v \<Rightarrow> v | None \<Rightarrow> 0) else None)" for x
    using res(3) assms(1) at by (rule spend_assigned)
  with res show ?thesis by blast
qed

theorem assign_ids_refines_spend_witness:
  "case assign_ids [demo_node] [demo_node\<lparr>node_name := ''b''\<rparr>, demo_node] (GlobalQuotaState_default[0 := 7]) of
     (Inr new', q') \<Rightarrow> spend new' q' ''a'' = Some 7 \<and> spend new' q' ''b'' = Some 0
   | _ \<Rightarrow> False"
proof -
  have "spend [demo_node] (GlobalQuotaState_default[0 := 7]) ''a'' = Some 7"
    "spend [demo_node] (GlobalQuotaState_default[0 := 7]) ''b'' = None"
    by (simp_all add: spend_def demo_node_def GlobalQuotaState_default_def MAX_NODES_def)
  then show ?thesis
    using assign_ids_refines_spend [of "[demo_node]" "GlobalQuotaState_default[0 := 7]"
        "[demo_node\<lparr>node_name := ''b''\<rparr>, demo_node]"]
    by (auto simp: slots_ok_def quota_ok_def demo_node_def MAX_NODES_def GlobalQuotaState_default_def)
qed

text \<open>
  C28. A surviving node carries its quota slot, its latency average and its penalty through a
  reload, and gets its address, limits, tier and prices from the new config.
\<close>

theorem reload_keeps_health:
  assumes "slots_ok prev" and "quota_ok q" and "distinct (map node_name new)"
    and "length new \<le> MAX_NODES" and "n \<in> set new" and "old \<in> set prev"
    and "node_name old = node_name n"
  shows "\<exists>new' q'. assign_ids prev new q = (Inr new', q') \<and>
    n\<lparr>node_id := node_id old, ema_us := ema_us old, until_s := until_s old\<rparr> \<in> set new'"
proof -
  obtain new' q' where res: "assign_ids prev new q = (Inr new', q')"
    and at: "list_all2 (assigned prev q q') new new'"
    using assign_ids_result [OF assms(1-4)] by blast
  from assms(5) obtain n' where n': "n' \<in> set new'" "assigned prev q q' n n'"
    using list_all2_setD1 [OF at] by blast
  have "previous_of prev (node_name n) = Some old"
    using assms(1,6,7) by (simp add: previous_of_iff slots_ok_def)
  with n' have "n' = carry_over old n" by (simp add: assigned_def)
  with res n'(1) show ?thesis by (auto simp: carry_over_def)
qed

theorem reload_keeps_health_witness:
  "\<exists>new' q'. assign_ids [demo_node\<lparr>ema_us := 800, until_s := 9\<rparr>] [demo_node\<lparr>tier := 3\<rparr>]
       GlobalQuotaState_default = (Inr new', q') \<and>
     demo_node\<lparr>tier := 3, ema_us := 800, until_s := 9\<rparr> \<in> set new'"
  using reload_keeps_health [of "[demo_node\<lparr>ema_us := 800, until_s := 9\<rparr>]"
      GlobalQuotaState_default "[demo_node\<lparr>tier := 3\<rparr>]" "demo_node\<lparr>tier := 3\<rparr>"
      "demo_node\<lparr>ema_us := 800, until_s := 9\<rparr>"]
  by (simp add: slots_ok_def demo_node_def MAX_NODES_def)

text \<open>
  A node set is refused exactly when it is too large or repeats a name, and a refused set
  leaves every counter as it was. The out-of-slots branch and the array indices never fail.
\<close>

lemma assign_ids_errors:
  assumes "slots_ok prev" and "quota_ok q" and "assign_ids prev new q = (Inl e, q')"
  shows "q' = q \<and> (MAX_NODES < length new \<and> e = TooManyNodes (length new)
    \<or> length new \<le> MAX_NODES \<and> \<not> distinct (map node_name new)
      \<and> (\<exists>x \<in> node_name ` set new. e = SharedName x))"
proof (cases "MAX_NODES < length new")
  case True
  with assms(3) show ?thesis by (simp add: assign_ids_def)
next
  case False
  with assign_ids_result [OF assms(1,2), of new] assms(3)
  have "\<not> distinct (map node_name new)" by auto
  then obtain x where x: "shared_name [] new = Some x"
    using shared_name_None_iff [of "[]" new] by auto
  with False assms(3) have "q' = q" "e = SharedName x"
    by (auto simp: assign_ids_def)
  with False x \<open>\<not> distinct _\<close> show ?thesis
    using shared_name_Some [OF x] by auto
qed

end
