(* ===== verification/Period.thy ===== *)
theory Period
  imports Topology
begin

text \<open>
  Billing periods (\<open>src/quotas/period.rs\<close>). The calendar is the \<open>time\<close> crate and a parameter:
  \<^verbatim>\<open>calendar\<close> gathers what the sources call, \<^verbatim>\<open>calendar_ok\<close> states the documented behaviour
  (a date is a valid year, month and day, dates are ordered chronologically). The map behind
  the mutex is a partial map; a poisoned lock is recovered, so locking has no error branch.

  The main results: \<open>period_start\<close> is the latest reset date that is not after today, a rollover
  resets a counter exactly when its period has moved forward, it is idempotent, and a clock
  that goes backwards resets nothing.
\<close>

section \<open>The calendar\<close>

type_synonym system_time = nat

record ('d, 'm) calendar =
  date_of :: "system_time \<Rightarrow> 'd"
  year :: "'d \<Rightarrow> int"
  month :: "'d \<Rightarrow> 'm"
  day :: "'d \<Rightarrow> u8"
  January :: 'm
  December :: 'm
  previous :: "'m \<Rightarrow> 'm"
  days_in_month :: "'m \<Rightarrow> int \<Rightarrow> u8"
  from_calendar_date :: "int \<Rightarrow> 'm \<Rightarrow> u8 \<Rightarrow> 'd option"
  date_le :: "'d \<Rightarrow> 'd \<Rightarrow> bool"

text \<open>
  \<open>num\<close> numbers the months from 1 to 12 and \<open>years\<close> is the range of years the crate represents.
\<close>

definition calendar_ok :: "('d, 'm) calendar \<Rightarrow> ('m \<Rightarrow> nat) \<Rightarrow> int set \<Rightarrow> bool" where
  "calendar_ok cal num years \<longleftrightarrow>
     inj num \<and> num (January cal) = 1 \<and> num (December cal) = 12 \<and>
     (\<forall>m. 1 \<le> num m \<and> num m \<le> 12) \<and>
     (\<forall>m. m \<noteq> January cal \<longrightarrow> Suc (num (previous cal m)) = num m) \<and>
     (\<forall>m y. 1 \<le> days_in_month cal m y) \<and>
     (\<forall>d. year cal d \<in> years \<and> 1 \<le> day cal d \<and> day cal d \<le> days_in_month cal (month cal d) (year cal d)) \<and>
     (\<forall>y m n. y \<in> years \<and> 1 \<le> n \<and> n \<le> days_in_month cal m y \<longrightarrow>
        (\<exists>d. from_calendar_date cal y m n = Some d \<and> year cal d = y \<and> month cal d = m \<and> day cal d = n)) \<and>
     (\<forall>d e. date_le cal d e \<longleftrightarrow> year cal d < year cal e \<or> year cal d = year cal e \<and>
        (num (month cal d) < num (month cal e) \<or>
         num (month cal d) = num (month cal e) \<and> day cal d \<le> day cal e)) \<and>
     (\<forall>d e. year cal d = year cal e \<and> month cal d = month cal e \<and> day cal d = day cal e \<longrightarrow> d = e)"

section \<open>Operations\<close>

type_synonym 'd period_map = "string \<Rightarrow> 'd option"

definition clamp_to_month :: "('d, 'm) calendar \<Rightarrow> int \<Rightarrow> 'm \<Rightarrow> u8 \<Rightarrow> u8" where
  "clamp_to_month cal y m rd = min rd (days_in_month cal m y)"

definition period_start :: "('d, 'm) calendar \<Rightarrow> 'd \<Rightarrow> u8 \<Rightarrow> 'd option" where
  "period_start cal today rd =
     (let (y, m) =
        (if clamp_to_month cal (year cal today) (month cal today) rd \<le> day cal today
         then (year cal today, month cal today)
         else if month cal today = January cal then (year cal today - 1, December cal)
         else (year cal today, previous cal (month cal today)))
      in from_calendar_date cal y m (clamp_to_month cal y m rd))"

text \<open>One node of the rollover loop. \<^const>\<open>None\<close> is an index panic.\<close>

definition rollover_node ::
  "('d, 'm) calendar \<Rightarrow> 'd \<Rightarrow> ('l, 's, 'u) rpc_node \<Rightarrow> quota_state \<times> 'd period_map
     \<Rightarrow> (quota_state \<times> 'd period_map) option" where
  "rollover_node cal today node st =
     (case st of (q, ps) \<Rightarrow>
        (case period_start cal today (reset_day node) of
           None \<Rightarrow> Some (q, ps)
         | Some start \<Rightarrow>
             (case ps (node_name node) of
                Some stored \<Rightarrow>
                  if date_le cal start stored then Some (q, ps)
                  else (case counter_set q (node_id node) 0 of
                          None \<Rightarrow> None
                        | Some q' \<Rightarrow> Some (q', ps(node_name node \<mapsto> start)))
              | None \<Rightarrow> Some (q, ps(node_name node \<mapsto> start)))))"

fun rollover_loop ::
  "('d, 'm) calendar \<Rightarrow> 'd \<Rightarrow> ('l, 's, 'u) rpc_node list \<Rightarrow> quota_state \<times> 'd period_map
     \<Rightarrow> (quota_state \<times> 'd period_map) option" where
  "rollover_loop cal today [] st = Some st"
| "rollover_loop cal today (n # ns) st =
     (case rollover_node cal today n st of None \<Rightarrow> None | Some st' \<Rightarrow> rollover_loop cal today ns st')"

definition retain_names :: "('l, 's, 'u) rpc_node list \<Rightarrow> 'd period_map \<Rightarrow> 'd period_map" where
  "retain_names ns ps = (\<lambda>x. if list_ex (\<lambda>n. node_name n = x) ns then ps x else None)"

definition rollover_if_new_period ::
  "('d, 'm) calendar \<Rightarrow> ('l, 's, 'u) rpc_node list \<Rightarrow> quota_state \<Rightarrow> 'd period_map \<Rightarrow> system_time
     \<Rightarrow> (quota_state \<times> 'd period_map) option" where
  "rollover_if_new_period cal ns q ps now =
     (case rollover_loop cal (date_of cal now) ns (q, ps) of
        None \<Rightarrow> None
      | Some (q', ps') \<Rightarrow> Some (q', retain_names ns ps'))"

section \<open>Reset dates\<close>

text \<open>A date on which a node with this \<open>reset_day\<close> resets.\<close>

definition reset_date :: "('d, 'm) calendar \<Rightarrow> u8 \<Rightarrow> 'd \<Rightarrow> bool" where
  "reset_date cal rd d \<longleftrightarrow> day cal d = clamp_to_month cal (year cal d) (month cal d) rd"

lemma clamp_valid:
  assumes "calendar_ok cal num years" and "1 \<le> rd"
  shows "1 \<le> clamp_to_month cal y m rd \<and> clamp_to_month cal y m rd \<le> days_in_month cal m y"
  using assms by (simp add: clamp_to_month_def calendar_ok_def min_def)

lemma date_le_iff:
  assumes "calendar_ok cal num years"
  shows "date_le cal d e \<longleftrightarrow> year cal d < year cal e \<or> year cal d = year cal e \<and>
        (num (month cal d) < num (month cal e) \<or>
         num (month cal d) = num (month cal e) \<and> day cal d \<le> day cal e)"
  using assms by (simp add: calendar_ok_def)

lemma date_le_refl: "calendar_ok cal num years \<Longrightarrow> date_le cal d d"
  by (simp add: date_le_iff)

lemma date_le_trans:
  "calendar_ok cal num years \<Longrightarrow> date_le cal a b \<Longrightarrow> date_le cal b c \<Longrightarrow> date_le cal a c"
  by (auto simp: date_le_iff)

lemma date_le_antisym:
  assumes cal: "calendar_ok cal num years" and "date_le cal a b" "date_le cal b a"
  shows "a = b"
proof -
  have "year cal a = year cal b" "num (month cal a) = num (month cal b)" "day cal a = day cal b"
    using assms(2,3) by (auto simp: date_le_iff [OF cal])
  moreover have "month cal a = month cal b"
    using cal calculation(2) by (simp add: calendar_ok_def inj_eq)
  ultimately show ?thesis using cal by (simp add: calendar_ok_def)
qed

lemma month_num_eq: "calendar_ok cal num years \<Longrightarrow> num m = num m' \<longleftrightarrow> m = m'"
  by (simp add: calendar_ok_def inj_eq)

text \<open>The result of \<open>period_start\<close>: a reset date of this month or, before it, of the last one.\<close>

lemma period_start_cases:
  assumes cal: "calendar_ok cal num years" and rd: "1 \<le> rd"
    and y: "year cal today - 1 \<in> years"
  obtains s where "period_start cal today rd = Some s" "reset_date cal rd s"
    "clamp_to_month cal (year cal today) (month cal today) rd \<le> day cal today"
    "year cal s = year cal today" "month cal s = month cal today"
  | s where "period_start cal today rd = Some s" "reset_date cal rd s"
    "day cal today < clamp_to_month cal (year cal today) (month cal today) rd"
    "month cal today = January cal" "year cal s = year cal today - 1" "month cal s = December cal"
  | s where "period_start cal today rd = Some s" "reset_date cal rd s"
    "day cal today < clamp_to_month cal (year cal today) (month cal today) rd"
    "year cal s = year cal today" "Suc (num (month cal s)) = num (month cal today)"
proof -
  let ?Y = "year cal today" and ?M = "month cal today"
  have mk: "\<exists>d. from_calendar_date cal y m (clamp_to_month cal y m rd) = Some d \<and> reset_date cal rd d
      \<and> year cal d = y \<and> month cal d = m" if "y \<in> years" for y m
  proof -
    have "\<exists>d. from_calendar_date cal y m (clamp_to_month cal y m rd) = Some d \<and> year cal d = y \<and>
        month cal d = m \<and> day cal d = clamp_to_month cal y m rd"
      using cal that clamp_valid [OF cal rd] unfolding calendar_ok_def by blast
    then show ?thesis by (auto simp: reset_date_def)
  qed
  have Y: "?Y \<in> years" using cal by (simp add: calendar_ok_def)
  have prev: "Suc (num (previous cal ?M)) = num ?M" if "?M \<noteq> January cal"
    using cal that by (simp add: calendar_ok_def)
  consider "clamp_to_month cal ?Y ?M rd \<le> day cal today"
    | "day cal today < clamp_to_month cal ?Y ?M rd" "?M = January cal"
    | "day cal today < clamp_to_month cal ?Y ?M rd" "?M \<noteq> January cal"
    by (meson not_le)
  then show ?thesis
  proof cases
    case 1
    with mk [OF Y, of ?M] that(1) show ?thesis by (auto simp: period_start_def)
  next
    case 2
    then have "\<not> clamp_to_month cal ?Y ?M rd \<le> day cal today" by simp
    with 2 mk [OF y, of "December cal"] that(2) show ?thesis by (auto simp: period_start_def)
  next
    case 3
    then have "\<not> clamp_to_month cal ?Y ?M rd \<le> day cal today" by simp
    with 3 mk [OF Y, of "previous cal ?M"] prev that(3) show ?thesis by (auto simp: period_start_def)
  qed
qed

text \<open>In January, before the reset, the latest reset date is the one of December.\<close>

lemma december_latest:
  assumes cal: "calendar_ok cal num years" and s: "reset_date cal rd s" "year cal s = year cal today - 1"
      "month cal s = December cal"
    and january: "month cal today = January cal" "day cal today < clamp_to_month cal (year cal today) (month cal today) rd"
    and a: "reset_date cal rd a" "date_le cal a today"
  shows "date_le cal a s"
proof -
  have J: "num (month cal today) = 1" "num (month cal s) = 12" "num (month cal a) \<le> 12" "1 \<le> num (month cal a)"
    using cal s(3) january(1) by (auto simp: calendar_ok_def)
  have "year cal a < year cal today"
  proof (rule ccontr)
    assume "\<not> year cal a < year cal today"
    with a(2) J have "year cal a = year cal today" "num (month cal a) = num (month cal today)"
      by (auto simp: date_le_iff [OF cal])
    with a january(2) show False by (auto simp: date_le_iff [OF cal] reset_date_def month_num_eq [OF cal])
  qed
  moreover have "num (month cal a) < 12" if "month cal a \<noteq> month cal s"
    using that J month_num_eq [OF cal, of "month cal a" "month cal s"] by linarith
  ultimately show ?thesis
    using s a(1) J(2)
    by (cases "year cal a = year cal s"; cases "month cal a = month cal s") (auto simp: date_le_iff [OF cal] reset_date_def)
qed

lemma period_start_spec:
  assumes cal: "calendar_ok cal num years" and "1 \<le> rd" and "year cal today - 1 \<in> years"
  shows "\<exists>s. period_start cal today rd = Some s \<and> reset_date cal rd s \<and> date_le cal s today \<and>
    (\<forall>a. reset_date cal rd a \<and> date_le cal a today \<longrightarrow> date_le cal a s)"
  using assms
proof (cases rule: period_start_cases)
  case (1 s)
  have "date_le cal s today"
    using 1 by (simp add: date_le_iff [OF cal] reset_date_def)
  moreover have "date_le cal a s" if "reset_date cal rd a" "date_le cal a today" for a
    using that 1 by (auto simp: date_le_iff [OF cal] reset_date_def month_num_eq [OF cal])
  ultimately show ?thesis using 1 by blast
next
  case (2 s)
  have "date_le cal a s" if "reset_date cal rd a" "date_le cal a today" for a
    using december_latest [OF cal 2(2,5,6,4,3) that] .
  moreover have "date_le cal s today" using 2 by (simp add: date_le_iff [OF cal])
  ultimately show ?thesis using 2 by blast
next
  case (3 s)
  have "date_le cal a s" if "reset_date cal rd a" "date_le cal a today" for a
  proof -
    have "month cal a \<noteq> month cal today" if "year cal a = year cal today"
      using \<open>date_le cal a today\<close> \<open>reset_date cal rd a\<close> 3(3) that
      by (auto simp: date_le_iff [OF cal] reset_date_def)
    then show ?thesis
      using that 3 month_num_eq [OF cal, of "month cal a" "month cal s"]
        month_num_eq [OF cal, of "month cal a" "month cal today"]
      by (auto simp: date_le_iff [OF cal] reset_date_def less_Suc_eq)
  qed
  moreover have "date_le cal s today" using 3 by (simp add: date_le_iff [OF cal])
  ultimately show ?thesis using 3 by blast
qed

section \<open>What a rollover does to one node\<close>

text \<open>The period a node is in after a rollover on \<open>today\<close>, and whether its counter is zeroed.\<close>

definition period_after ::
  "('d, 'm) calendar \<Rightarrow> 'd \<Rightarrow> 'd period_map \<Rightarrow> ('l, 's, 'u) rpc_node \<Rightarrow> 'd option" where
  "period_after cal today ps n =
     (case period_start cal today (reset_day n) of
        None \<Rightarrow> ps (node_name n)
      | Some start \<Rightarrow>
          (case ps (node_name n) of
             Some stored \<Rightarrow> Some (if date_le cal start stored then stored else start)
           | None \<Rightarrow> Some start))"

definition resets :: "('d, 'm) calendar \<Rightarrow> 'd \<Rightarrow> 'd period_map \<Rightarrow> ('l, 's, 'u) rpc_node \<Rightarrow> bool" where
  "resets cal today ps n \<longleftrightarrow>
     (\<exists>start stored. period_start cal today (reset_day n) = Some start \<and>
        ps (node_name n) = Some stored \<and> \<not> date_le cal start stored)"

lemma marker_cong:
  assumes "ps (node_name n) = ps' (node_name n)"
  shows "period_after cal t ps n = period_after cal t ps' n" "resets cal t ps n = resets cal t ps' n"
  unfolding period_after_def resets_def assms by (rule refl)+

lemma rollover_node_eq:
  assumes "node_id n < length q"
  shows "rollover_node cal today n (q, ps) =
    Some (if resets cal today ps n then q[node_id n := 0] else q,
          ps(node_name n := period_after cal today ps n))"
  using assms
  by (auto simp: rollover_node_def resets_def period_after_def quota_simps fun_upd_idem_iff
      split: option.splits)

lemma rollover_loop_eq:
  assumes "slots_ok ns" and "quota_ok q"
  shows "\<exists>q' ps'. rollover_loop cal today ns (q, ps) = Some (q', ps') \<and> quota_ok q'
    \<and> (\<forall>n \<in> set ns. ps' (node_name n) = period_after cal today ps n
        \<and> q' ! node_id n = (if resets cal today ps n then 0 else q ! node_id n))
    \<and> (\<forall>x. x \<notin> node_name ` set ns \<longrightarrow> ps' x = ps x)
    \<and> (\<forall>i. i \<notin> node_id ` set ns \<longrightarrow> q' ! i = q ! i)"
  using assms
proof (induction ns arbitrary: q ps)
  case Nil
  then show ?case by simp
next
  case (Cons n ns)
  let ?q = "if resets cal today ps n then q[node_id n := 0] else q"
  let ?ps = "ps(node_name n := period_after cal today ps n)"
  have n: "node_id n < length q" "quota_ok ?q" "slots_ok ns"
    using Cons.prems by (auto simp: slots_ok_def quota_ok_def)
  from Cons.IH [OF n(3,2), of ?ps] obtain q' ps' where
    IH: "rollover_loop cal today ns (?q, ?ps) = Some (q', ps')" "quota_ok q'"
      "\<forall>m \<in> set ns. ps' (node_name m) = period_after cal today ?ps m
        \<and> q' ! node_id m = (if resets cal today ?ps m then 0 else ?q ! node_id m)"
      "\<forall>x. x \<notin> node_name ` set ns \<longrightarrow> ps' x = ?ps x"
      "\<forall>i. i \<notin> node_id ` set ns \<longrightarrow> q' ! i = ?q ! i" by blast
  have others: "node_name m \<noteq> node_name n" "node_id n \<noteq> node_id m" if "m \<in> set ns" for m
    using Cons.prems(1) imageI [OF that, of node_name] imageI [OF that, of node_id]
    by (auto simp: slots_ok_def)
  have same: "period_after cal today ?ps m = period_after cal today ps m"
    "resets cal today ?ps m = resets cal today ps m" if "m \<in> set ns" for m
    using others [OF that] by (auto intro!: marker_cong)
  have "node_name n \<notin> node_name ` set ns" "node_id n \<notin> node_id ` set ns"
    using others by force+
  with IH have "ps' (node_name n) = period_after cal today ps n"
    "q' ! node_id n = (if resets cal today ps n then 0 else q ! node_id n)"
    using n(1) by auto
  with IH same others show ?case
    by (auto simp: rollover_node_eq [OF n(1)])
qed

lemma rollover_eq:
  assumes "slots_ok ns" and "quota_ok q"
  shows "\<exists>q' ps'. rollover_if_new_period cal ns q ps now = Some (q', ps') \<and> quota_ok q'
    \<and> (\<forall>n \<in> set ns. ps' (node_name n) = period_after cal (date_of cal now) ps n
        \<and> q' ! node_id n = (if resets cal (date_of cal now) ps n then 0 else q ! node_id n))
    \<and> (\<forall>x. x \<notin> node_name ` set ns \<longrightarrow> ps' x = None)
    \<and> (\<forall>i. i \<notin> node_id ` set ns \<longrightarrow> q' ! i = q ! i)"
proof -
  obtain q' ps' where "rollover_loop cal (date_of cal now) ns (q, ps) = Some (q', ps')" "quota_ok q'"
    "\<forall>n \<in> set ns. ps' (node_name n) = period_after cal (date_of cal now) ps n
        \<and> q' ! node_id n = (if resets cal (date_of cal now) ps n then 0 else q ! node_id n)"
    "\<forall>i. i \<notin> node_id ` set ns \<longrightarrow> q' ! i = q ! i"
    using rollover_loop_eq [OF assms, of cal "date_of cal now" ps] by blast
  moreover have "list_ex (\<lambda>m. node_name m = node_name n) ns" if "n \<in> set ns" for n
    using that by (auto simp: list_ex_iff)
  ultimately show ?thesis
    by (auto simp: rollover_if_new_period_def retain_names_def list_ex_iff image_iff)
qed

text \<open>Once a node's period is at least today's, no earlier day moves it or resets its counter.\<close>

lemma period_after_settled:
  assumes cal: "calendar_ok cal num years" and rd: "1 \<le> reset_day n"
    and y: "year cal today - 1 \<in> years" "year cal today0 - 1 \<in> years"
    and earlier: "date_le cal today0 today" and ps': "ps' (node_name n) = period_after cal today ps n"
  shows "\<not> resets cal today0 ps' n \<and> period_after cal today0 ps' n = ps' (node_name n)"
proof -
  obtain s where s: "period_start cal today (reset_day n) = Some s" and
    s_latest: "\<forall>a. reset_date cal (reset_day n) a \<and> date_le cal a today \<longrightarrow> date_le cal a s"
    using period_start_spec [OF cal rd y(1)] by blast
  obtain s0 where s0: "period_start cal today0 (reset_day n) = Some s0"
    "reset_date cal (reset_day n) s0" "date_le cal s0 today0"
    using period_start_spec [OF cal rd y(2)] by blast
  have "date_le cal s0 s" using s_latest s0(2,3) date_le_trans [OF cal _ earlier] by blast
  moreover obtain p where p: "ps' (node_name n) = Some p" "date_le cal s p"
    using ps' s date_le_refl [OF cal] by (auto simp: period_after_def split: option.splits)
  ultimately have "date_le cal s0 p" using date_le_trans [OF cal] by blast
  with s0(1) p(1) show ?thesis by (simp add: resets_def period_after_def)
qed

lemma rollover_settled:
  assumes cal: "calendar_ok cal num years" and ns: "slots_ok ns" and q: "quota_ok q"
    and rd: "\<forall>n \<in> set ns. 1 \<le> reset_day n"
    and y: "year cal today - 1 \<in> years" "year cal (date_of cal now0) - 1 \<in> years"
    and earlier: "date_le cal (date_of cal now0) today"
    and ps': "\<forall>n \<in> set ns. ps' (node_name n) = period_after cal today ps n"
      "\<forall>x. x \<notin> node_name ` set ns \<longrightarrow> ps' x = None"
  shows "rollover_if_new_period cal ns q ps' now0 = Some (q, ps')"
proof -
  obtain q2 ps2 where r: "rollover_if_new_period cal ns q ps' now0 = Some (q2, ps2)" "quota_ok q2"
    "\<forall>n \<in> set ns. ps2 (node_name n) = period_after cal (date_of cal now0) ps' n
        \<and> q2 ! node_id n = (if resets cal (date_of cal now0) ps' n then 0 else q ! node_id n)"
    "\<forall>x. x \<notin> node_name ` set ns \<longrightarrow> ps2 x = None"
    "\<forall>i. i \<notin> node_id ` set ns \<longrightarrow> q2 ! i = q ! i"
    using rollover_eq [OF ns q, of cal ps' now0] by blast
  have settled: "\<not> resets cal (date_of cal now0) ps' n
      \<and> period_after cal (date_of cal now0) ps' n = ps' (node_name n)" if "n \<in> set ns" for n
    using period_after_settled [OF cal _ y earlier] rd ps'(1) that by blast
  have "ps2 x = ps' x" for x
    using r(3,4) settled ps'(2) by (cases "x \<in> node_name ` set ns") auto
  moreover have "q2 ! i = q ! i" for i
    using r(3,5) settled by (cases "i \<in> node_id ` set ns") auto
  ultimately have "ps2 = ps'" "q2 = q"
    using r(2) q by (auto simp: quota_ok_def intro: nth_equalityI)
  with r(1) show ?thesis by simp
qed

section \<open>The Gregorian calendar\<close>

text \<open>A concrete calendar of which the hypotheses hold.\<close>

datatype gmonth = Jan | Feb | Mar | Apr | May | Jun | Jul | Aug | Sep | Oct | Nov | Dec

fun gnum :: "gmonth \<Rightarrow> nat" where
  "gnum Jan = 1" | "gnum Feb = 2" | "gnum Mar = 3" | "gnum Apr = 4" | "gnum May = 5"
| "gnum Jun = 6" | "gnum Jul = 7" | "gnum Aug = 8" | "gnum Sep = 9" | "gnum Oct = 10"
| "gnum Nov = 11" | "gnum Dec = 12"

fun gprevious :: "gmonth \<Rightarrow> gmonth" where
  "gprevious Jan = Dec" | "gprevious Feb = Jan" | "gprevious Mar = Feb" | "gprevious Apr = Mar"
| "gprevious May = Apr" | "gprevious Jun = May" | "gprevious Jul = Jun" | "gprevious Aug = Jul"
| "gprevious Sep = Aug" | "gprevious Oct = Sep" | "gprevious Nov = Oct" | "gprevious Dec = Nov"

definition gdays :: "gmonth \<Rightarrow> int \<Rightarrow> u8" where
  "gdays m y =
     (if m = Feb then (if y mod 4 = 0 \<and> (y mod 100 \<noteq> 0 \<or> y mod 400 = 0) then 29 else 28)
      else if m \<in> {Apr, Jun, Sep, Nov} then 30 else 31)"

typedef gdate = "{(y :: int, m :: gmonth, d :: u8). 1 \<le> d \<and> d \<le> gdays m y}"
  by (rule exI [of _ "(0, Jan, 1)"]) (simp add: gdays_def)

definition ymd :: "int \<Rightarrow> gmonth \<Rightarrow> u8 \<Rightarrow> gdate" where
  "ymd y m d = Abs_gdate (y, m, d)"

definition gregorian :: "(system_time \<Rightarrow> gdate) \<Rightarrow> (gdate, gmonth) calendar" where
  "gregorian clock = \<lparr>date_of = clock,
     year = (\<lambda>d. fst (Rep_gdate d)), month = (\<lambda>d. fst (snd (Rep_gdate d))),
     day = (\<lambda>d. snd (snd (Rep_gdate d))),
     January = Jan, December = Dec, previous = gprevious, days_in_month = gdays,
     from_calendar_date = (\<lambda>y m d. if 1 \<le> d \<and> d \<le> gdays m y then Some (ymd y m d) else None),
     date_le = (\<lambda>d e. case (Rep_gdate d, Rep_gdate e) of ((y, m, n), (y', m', n')) \<Rightarrow>
       y < y' \<or> y = y' \<and> (gnum m < gnum m' \<or> gnum m = gnum m' \<and> n \<le> n'))\<rparr>"

lemma Rep_ymd: "1 \<le> d \<Longrightarrow> d \<le> gdays m y \<Longrightarrow> Rep_gdate (ymd y m d) = (y, m, d)"
  by (simp add: ymd_def Abs_gdate_inverse)

lemma gnum_inj: "gnum a = gnum b \<longleftrightarrow> a = b"
  by (cases a; cases b; simp)

lemma gregorian_ok: "calendar_ok (gregorian clock) gnum UNIV"
proof -
  have "inj gnum" by (simp add: inj_def gnum_inj)
  moreover have "1 \<le> gnum m \<and> gnum m \<le> 12" for m by (cases m) simp_all
  moreover have "m \<noteq> Jan \<longrightarrow> Suc (gnum (gprevious m)) = gnum m" for m by (cases m) simp_all
  moreover have "1 \<le> gdays m y" for m y by (simp add: gdays_def)
  moreover have "1 \<le> snd (snd (Rep_gdate d)) \<and> snd (snd (Rep_gdate d)) \<le> gdays (fst (snd (Rep_gdate d))) (fst (Rep_gdate d))" for d
    using Rep_gdate [of d] by (auto split: prod.splits)
  moreover have "fst (Rep_gdate d) = fst (Rep_gdate e) \<and> fst (snd (Rep_gdate d)) = fst (snd (Rep_gdate e)) \<and>
      snd (snd (Rep_gdate d)) = snd (snd (Rep_gdate e)) \<longrightarrow> d = e" for d e
    by (metis Rep_gdate_inject prod.collapse)
  ultimately show ?thesis
    by (auto simp: calendar_ok_def gregorian_def Rep_ymd split: prod.splits)
qed

section \<open>Properties\<close>

text \<open>
  C27. The billing period starts at the latest reset date that is not after today: the result
  exists for every reset day from 1 on, falls on the reset day or on the last day of a shorter
  month, and no later reset date has passed.
\<close>

theorem period_start_latest_reset:
  assumes "calendar_ok cal num years" and "1 \<le> rd" and "year cal today - 1 \<in> years"
  shows "\<exists>s. period_start cal today rd = Some s
    \<and> day cal s = min rd (days_in_month cal (month cal s) (year cal s)) \<and> date_le cal s today
    \<and> (\<forall>a. day cal a = min rd (days_in_month cal (month cal a) (year cal a)) \<and> date_le cal a today
        \<longrightarrow> date_le cal a s)"
  using period_start_spec [OF assms] by (simp add: reset_date_def clamp_to_month_def)

theorem period_start_latest_reset_witness:
  "\<exists>s. period_start (gregorian (\<lambda>_. ymd 2024 Mar 30)) (ymd 2024 Mar 30) 31 = Some s
     \<and> date_le (gregorian (\<lambda>_. ymd 2024 Mar 30)) (ymd 2024 Feb 29) s"
proof -
  let ?cal = "gregorian (\<lambda>_. ymd 2024 Mar 30)"
  have "day ?cal (ymd 2024 Feb 29) = min 31 (days_in_month ?cal (month ?cal (ymd 2024 Feb 29)) (year ?cal (ymd 2024 Feb 29)))"
    "date_le ?cal (ymd 2024 Feb 29) (ymd 2024 Mar 30)"
    by (simp_all add: gregorian_def Rep_ymd gdays_def)
  then show ?thesis
    using period_start_latest_reset [OF gregorian_ok, of 31 "\<lambda>_. ymd 2024 Mar 30" "ymd 2024 Mar 30"] by auto
qed

text \<open>
  C7. A rollover resets a counter exactly when its billing period has moved forward, and only
  once: afterwards neither a second rollover on the same day nor one under a clock that went
  backwards touches any counter, whatever was booked in between, and markers of nodes that
  left the config are gone.
\<close>

theorem rollover_exactly_once:
  assumes "calendar_ok cal num years" and "slots_ok ns" and "quota_ok q"
    and "\<forall>n \<in> set ns. 1 \<le> reset_day n" and "year cal (date_of cal now) - 1 \<in> years"
  shows "\<exists>q' ps'. rollover_if_new_period cal ns q ps now = Some (q', ps') \<and> quota_ok q'
    \<and> (\<forall>n \<in> set ns. q' ! node_id n =
         (case (ps (node_name n), period_start cal (date_of cal now) (reset_day n)) of
            (Some stored, Some start) \<Rightarrow> if date_le cal start stored then q ! node_id n else 0
          | _ \<Rightarrow> q ! node_id n))
    \<and> (\<forall>x. x \<notin> node_name ` set ns \<longrightarrow> ps' x = None)
    \<and> (\<forall>now0 q''. quota_ok q'' \<and> date_le cal (date_of cal now0) (date_of cal now)
         \<and> year cal (date_of cal now0) - 1 \<in> years
         \<longrightarrow> rollover_if_new_period cal ns q'' ps' now0 = Some (q'', ps'))"
proof -
  obtain q' ps' where r: "rollover_if_new_period cal ns q ps now = Some (q', ps')" "quota_ok q'"
    "\<forall>n \<in> set ns. ps' (node_name n) = period_after cal (date_of cal now) ps n
        \<and> q' ! node_id n = (if resets cal (date_of cal now) ps n then 0 else q ! node_id n)"
    "\<forall>x. x \<notin> node_name ` set ns \<longrightarrow> ps' x = None"
    using rollover_eq [OF assms(2,3), of cal ps now] by blast
  have "rollover_if_new_period cal ns q'' ps' now0 = Some (q'', ps')"
    if "quota_ok q''" "date_le cal (date_of cal now0) (date_of cal now)"
      "year cal (date_of cal now0) - 1 \<in> years" for now0 q''
    using rollover_settled [OF assms(1,2) that(1) assms(4,5) that(3,2)] r(3,4) by blast
  moreover have "\<forall>n \<in> set ns. q' ! node_id n =
         (case (ps (node_name n), period_start cal (date_of cal now) (reset_day n)) of
            (Some stored, Some start) \<Rightarrow> if date_le cal start stored then q ! node_id n else 0
          | _ \<Rightarrow> q ! node_id n)"
    using r(3) by (auto simp: resets_def split: option.splits)
  ultimately show ?thesis using r(1,2,4) by blast
qed

theorem rollover_exactly_once_witness:
  "\<exists>q' ps'. rollover_if_new_period (gregorian (\<lambda>_. ymd 2026 Aug 3)) [demo_node]
       (GlobalQuotaState_default[0 := 7]) [''a'' \<mapsto> ymd 2026 Jul 1] 0 = Some (q', ps') \<and> q' ! 0 = 0"
proof -
  let ?cal = "gregorian (\<lambda>_. ymd 2026 Aug 3)"
  have "period_start ?cal (ymd 2026 Aug 3) 1 = Some (ymd 2026 Aug 1)"
    by (simp add: period_start_def clamp_to_month_def gregorian_def Rep_ymd gdays_def)
  moreover have "\<not> date_le ?cal (ymd 2026 Aug 1) (ymd 2026 Jul 1)" "date_of ?cal 0 = ymd 2026 Aug 3"
    by (simp_all add: gregorian_def Rep_ymd gdays_def)
  ultimately show ?thesis
    using rollover_exactly_once [OF gregorian_ok, of "[demo_node]" "GlobalQuotaState_default[0 := 7]"
        "\<lambda>_. ymd 2026 Aug 3" 0 "[''a'' \<mapsto> ymd 2026 Jul 1]"]
    by (auto simp: slots_ok_def quota_ok_def demo_node_def MAX_NODES_def GlobalQuotaState_default_def)
qed

end
