(* ===== verification/Persistence.thy ===== *)
theory Persistence
  imports Period
begin

text \<open>
  The usage file (\<open>src/quotas/persistence.rs\<close>). The directory the balancer runs in is a partial
  map from file names to contents. What the operating system answers to each call is an
  argument (\<^verbatim>\<open>io_plan\<close>), and a write returns every visible state of the directory it passes
  through, so that a crash or a reader may be placed between any two of them. The JSON
  serialisation is a parameter. A \<open>BTreeMap\<close> is a partial map.
\<close>

section \<open>Files\<close>

type_synonym files = "string \<Rightarrow> bytes option"

definition FINAL_PATH :: string where
  "FINAL_PATH = ''quotas.json''"

record 'd node_usage =
  used :: u64
  usage_period :: 'd

type_synonym 'd usage_map = "string \<Rightarrow> 'd node_usage option"

text \<open>
  The answers of the file system to one write: whether the file can be created, how many bytes
  are written before an error (\<^const>\<open>None\<close>: all of them), and whether the other calls succeed.
\<close>

record io_plan =
  create_ok :: bool
  write_stops :: "nat option"
  sync_ok :: bool
  rename_ok :: bool
  dir_sync_ok :: bool
  remove_ok :: bool

section \<open>Writing\<close>

definition written :: "files \<Rightarrow> string \<Rightarrow> bytes \<Rightarrow> nat \<Rightarrow> files list" where
  "written fs temp data n = map (\<lambda>k. fs(temp \<mapsto> take k data)) [0..<Suc n]"

text \<open>
  The states after each call and whether the result is \<open>Ok\<close>. The list starts with the state the
  write began in.
\<close>

definition write_then_rename :: "io_plan \<Rightarrow> string \<Rightarrow> bytes \<Rightarrow> files \<Rightarrow> files list \<times> bool" where
  "write_then_rename plan temp data fs =
     (if \<not> create_ok plan then ([fs], False)
      else case write_stops plan of
        Some k \<Rightarrow> (fs # written fs temp data (min k (length data)), False)
      | None \<Rightarrow>
          let states = fs # written fs temp data (length data)
          in if \<not> sync_ok plan \<or> \<not> rename_ok plan then (states, False)
             else (states @ [fs(temp := None, FINAL_PATH \<mapsto> data)], dir_sync_ok plan))"

definition temp_name :: "nat \<Rightarrow> nat \<Rightarrow> string" where
  "temp_name pid counter = FINAL_PATH @ ''.'' @ decimal pid @ ''.'' @ decimal counter @ ''.tmp''"

definition write_atomic_async ::
  "io_plan \<Rightarrow> nat \<Rightarrow> u64 \<Rightarrow> bytes \<Rightarrow> files \<Rightarrow> files list \<times> bool \<times> u64" where
  "write_atomic_async plan pid WRITE_COUNTER data fs =
     (let temp = temp_name pid (unat WRITE_COUNTER)
      in case write_then_rename plan temp data fs of
        (states, True) \<Rightarrow> (states, True, WRITE_COUNTER + 1)
      | (states, False) \<Rightarrow>
          (states @ (if remove_ok plan then [(last states)(temp := None)] else []), False,
           WRITE_COUNTER + 1))"

text \<open>A failed serialisation writes nothing; every failure is only logged.\<close>

definition flush ::
  "('d usage_map \<Rightarrow> bytes option) \<Rightarrow> io_plan \<Rightarrow> nat \<Rightarrow> u64 \<Rightarrow> 'd usage_map \<Rightarrow> files
     \<Rightarrow> files list \<times> u64" where
  "flush to_vec_pretty plan pid WRITE_COUNTER m fs =
     (case to_vec_pretty m of
        Some data \<Rightarrow>
          (case write_atomic_async plan pid WRITE_COUNTER data fs of (states, _, c) \<Rightarrow> (states, c))
      | None \<Rightarrow> ([fs], WRITE_COUNTER))"

section \<open>Snapshots and the way back\<close>

fun snapshot_entries ::
  "('l, 's, 'u) rpc_node list \<Rightarrow> quota_state \<Rightarrow> 'd period_map \<Rightarrow> (string \<times> 'd node_usage) list option" where
  "snapshot_entries [] q ps = Some []"
| "snapshot_entries (n # ns) q ps =
     (case ps (node_name n) of
        None \<Rightarrow> snapshot_entries ns q ps
      | Some d \<Rightarrow>
          (case counter_get q (node_id n) of
             None \<Rightarrow> None
           | Some u \<Rightarrow>
               map_option (Cons (node_name n, \<lparr>used = u, usage_period = d\<rparr>)) (snapshot_entries ns q ps)))"

definition snapshot ::
  "('l, 's, 'u) rpc_node list \<Rightarrow> quota_state \<Rightarrow> 'd period_map \<Rightarrow> 'd usage_map option" where
  "snapshot ns q ps = map_option (\<lambda>es. map_of (rev es)) (snapshot_entries ns q ps)"

datatype restore_error = CannotRead | Corrupt

text \<open>\<open>read_ok\<close> is false when the read fails for another reason than a missing file.\<close>

definition restore ::
  "(string \<Rightarrow> 'd usage_map option) \<Rightarrow> bool \<Rightarrow> files \<Rightarrow> restore_error + 'd usage_map" where
  "restore from_str read_ok fs =
     (case fs FINAL_PATH of
        None \<Rightarrow> Inr (\<lambda>_. None)
      | Some data \<Rightarrow>
          if \<not> read_ok then Inl CannotRead
          else case from_utf8 data of
            None \<Rightarrow> Inl CannotRead
          | Some content \<Rightarrow>
              (case from_str content of None \<Rightarrow> Inl Corrupt | Some m \<Rightarrow> Inr m))"

section \<open>Temporary names\<close>

lemma temp_name_not_final: "temp_name pid c \<noteq> FINAL_PATH"
  by (simp add: temp_name_def)

definition dec_value :: "string \<Rightarrow> nat" where
  "dec_value s = foldl (\<lambda>a c. a * 10 + (of_char c - 48)) 0 s"

lemma of_char_digit_char: "d < 10 \<Longrightarrow> of_char (digit_char d) = 48 + d"
  by (simp add: digit_char_def)

lemma dec_value_decimal: "dec_value (decimal n) = n"
proof (induction n rule: decimal.induct)
  case (1 n)
  show ?case
  proof (cases "n < 10")
    case True
    then show ?thesis by (simp add: decimal.simps [of n] dec_value_def of_char_digit_char)
  next
    case False
    with 1 have "dec_value (decimal (n div 10)) = n div 10" by simp
    with False show ?thesis by (simp add: decimal.simps [of n] dec_value_def of_char_digit_char)
  qed
qed

lemma decimal_inj: "decimal m = decimal n \<longleftrightarrow> m = n"
  by (metis dec_value_decimal)

lemma decimal_no_dot: "CHR ''.'' \<notin> set (decimal n)"
proof (induction n rule: decimal.induct)
  case (1 n)
  have dot: "digit_char d \<noteq> CHR ''.''" if "d < 10" for d
  proof
    assume "digit_char d = CHR ''.''"
    then have "of_char (digit_char d) = (46 :: nat)" by simp
    with that show False by (simp add: of_char_digit_char)
  qed
  show ?case
  proof (cases "n < 10")
    case True
    then show ?thesis using dot [of n] by (simp add: decimal.simps [of n] eq_commute)
  next
    case False
    with 1 dot [of "n mod 10"] show ?thesis by (simp add: decimal.simps [of n] eq_commute)
  qed
qed

lemma split_at_dot:
  assumes "xs @ CHR ''.'' # ys = xs' @ CHR ''.'' # ys'" "CHR ''.'' \<notin> set xs" "CHR ''.'' \<notin> set xs'"
  shows "xs = xs' \<and> ys = ys'"
  using assms
proof (induction xs arbitrary: xs')
  case Nil
  then show ?case by (cases xs') auto
next
  case (Cons x xs)
  then show ?case by (cases xs') auto
qed

lemma temp_name_inj: "temp_name p c = temp_name p' c' \<longleftrightarrow> p = p' \<and> c = c'"
proof
  assume "temp_name p c = temp_name p' c'"
  then have "decimal p @ CHR ''.'' # (decimal c @ ''.tmp'') = decimal p' @ CHR ''.'' # (decimal c' @ ''.tmp'')"
    by (simp add: temp_name_def)
  from split_at_dot [OF this decimal_no_dot decimal_no_dot]
  show "p = p' \<and> c = c'" by (simp add: decimal_inj)
qed simp

section \<open>Every state of a write\<close>

lemma written_states:
  assumes "s \<in> set (written fs temp data n)" and "temp \<noteq> FINAL_PATH"
  shows "s FINAL_PATH = fs FINAL_PATH \<and> (\<forall>f. f \<noteq> temp \<longrightarrow> s f = fs f)"
  using assms by (auto simp: written_def)

lemma write_then_rename_states:
  assumes "write_then_rename plan temp data fs = (states, ok)" and "temp \<noteq> FINAL_PATH" and "s \<in> set states"
  shows "(s FINAL_PATH = fs FINAL_PATH \<or> s FINAL_PATH = Some data) \<and>
    (\<forall>f. f \<noteq> temp \<and> f \<noteq> FINAL_PATH \<longrightarrow> s f = fs f)"
proof -
  have "states = [fs] \<or> (\<exists>n. states = fs # written fs temp data n) \<or>
      (\<exists>n. states = fs # written fs temp data n @ [fs(temp := None, FINAL_PATH \<mapsto> data)])"
    using assms(1) by (auto simp: write_then_rename_def Let_def split: if_splits option.splits)
  with assms(3) consider "s = fs" | n where "s \<in> set (written fs temp data n)"
    | "s = fs(temp := None, FINAL_PATH \<mapsto> data)" by auto
  then show ?thesis
    using written_states [OF _ assms(2)] by cases auto
qed

lemma write_then_rename_ok:
  assumes "write_then_rename plan temp data fs = (states, True)" and "temp \<noteq> FINAL_PATH"
  shows "last states = fs(temp := None, FINAL_PATH \<mapsto> data)"
  using assms by (auto simp: write_then_rename_def Let_def split: if_splits option.splits)

lemma write_then_rename_nonempty:
  "write_then_rename plan temp data fs = (states, ok) \<Longrightarrow> states \<noteq> []"
  by (auto simp: write_then_rename_def Let_def split: if_splits option.splits)

section \<open>Snapshots\<close>

lemma snapshot_entries_eq:
  assumes "\<forall>n \<in> set ns. node_id n < length q"
  shows "snapshot_entries ns q ps = Some (List.map_filter
    (\<lambda>n. map_option (\<lambda>d. (node_name n, \<lparr>used = q ! node_id n, usage_period = d\<rparr>)) (ps (node_name n))) ns)"
  using assms by (induction ns) (auto simp: map_filter_simps quota_simps split: option.splits)

lemma snapshot_eq:
  assumes "slots_ok ns" and "quota_ok q"
  shows "\<exists>m. snapshot ns q ps = Some m \<and>
    (\<forall>n \<in> set ns. m (node_name n) =
       map_option (\<lambda>d. \<lparr>used = q ! node_id n, usage_period = d\<rparr>) (ps (node_name n))) \<and>
    (\<forall>x. x \<notin> node_name ` set ns \<longrightarrow> m x = None)"
proof -
  let ?f = "\<lambda>n. map_option (\<lambda>d. (node_name n, \<lparr>used = q ! node_id n, usage_period = d\<rparr>)) (ps (node_name n))"
  let ?es = "List.map_filter ?f ns"
  have len: "\<forall>n \<in> set ns. node_id n < length q"
    using assms by (auto simp: slots_ok_def quota_ok_def)
  have mem: "e \<in> set ?es \<longleftrightarrow> (\<exists>n \<in> set ns. ?f n = Some e)" for e
    by (auto simp: List.map_filter_def image_iff)
  have "set (map fst ?es) \<subseteq> node_name ` set ns" "distinct (map fst ?es)"
    using assms(1) unfolding slots_ok_def
    by (induction ns) (auto simp: map_filter_simps split: option.splits)
  then have d: "distinct (map fst (rev ?es))" by (simp add: rev_map [symmetric])
  have iff: "map_of (rev ?es) x = Some u \<longleftrightarrow> (\<exists>n \<in> set ns. ?f n = Some (x, u))" for x u
    using d mem by (simp add: map_of_eq_Some_iff)
  have "map_of (rev ?es) (node_name n) =
      map_option (\<lambda>d. \<lparr>used = q ! node_id n, usage_period = d\<rparr>) (ps (node_name n))" if "n \<in> set ns" for n
  proof (cases "ps (node_name n)")
    case None
    then have "map_of (rev ?es) (node_name n) = None"
      using iff [of "node_name n"] by (cases "map_of (rev ?es) (node_name n)") force+
    with None show ?thesis by simp
  next
    case (Some a)
    with that have "map_of (rev ?es) (node_name n) = Some \<lparr>used = q ! node_id n, usage_period = a\<rparr>"
      using iff by fastforce
    with Some show ?thesis by simp
  qed
  moreover have "map_of (rev ?es) x = None" if "x \<notin> node_name ` set ns" for x
    using iff [of x] that by (cases "map_of (rev ?es) x") auto
  ultimately show ?thesis
    by (simp add: snapshot_def snapshot_entries_eq [OF len])
qed

section \<open>A whole write\<close>

text \<open>
  In every state a write passes through, on every failure path, the usage file holds either its old
  content or the complete new one, and no file but the temporary one is touched. A success leaves the
  new content and no temporary file, and a failure whose clean-up succeeds leaves no temporary file either.
\<close>

lemma usage_file_is_atomic:
  assumes "write_atomic_async plan pid c data fs = (states, ok, c')"
  shows "(\<forall>s \<in> set states. (s FINAL_PATH = fs FINAL_PATH \<or> s FINAL_PATH = Some data) \<and>
      (\<forall>f. f \<noteq> temp_name pid (unat c) \<and> f \<noteq> FINAL_PATH \<longrightarrow> s f = fs f))
    \<and> (ok \<longrightarrow> last states FINAL_PATH = Some data)
    \<and> (ok \<or> remove_ok plan \<longrightarrow> last states (temp_name pid (unat c)) = None)"
proof -
  let ?t = "temp_name pid (unat c)"
  obtain st r where w: "write_then_rename plan ?t data fs = (st, r)" by (metis surj_pair)
  note states = write_then_rename_states [OF w temp_name_not_final]
  have nn: "st \<noteq> []" by (rule write_then_rename_nonempty [OF w])
  show ?thesis
  proof (cases r)
    case True
    with assms w have s: "states = st" "ok" by (simp_all add: write_atomic_async_def Let_def)
    have "last st = fs(?t := None, FINAL_PATH \<mapsto> data)"
      using write_then_rename_ok [OF _ temp_name_not_final] w True by simp
    with s states show ?thesis by (auto simp: temp_name_not_final)
  next
    case False
    with assms w have s: "states = st @ (if remove_ok plan then [(last st)(?t := None)] else [])" "\<not> ok"
      by (simp_all add: write_atomic_async_def Let_def)
    let ?good = "\<lambda>s. (s FINAL_PATH = fs FINAL_PATH \<or> s FINAL_PATH = Some data) \<and>
      (\<forall>f. f \<noteq> ?t \<and> f \<noteq> FINAL_PATH \<longrightarrow> s f = fs f)"
    have good: "?good s" if "s \<in> set st" for s using states [OF that] .
    have "?good (last st)" using good nn by simp
    then have "?good ((last st)(?t := None))" by (metis fun_upd_other temp_name_not_final)
    with s(1) good have "\<forall>s \<in> set states. ?good s" by (simp split: if_splits)
    with s show ?thesis by simp
  qed
qed

section \<open>The serialiser\<close>

text \<open>What is relied on of \<open>serde_json\<close> for one map: it is written as UTF-8 and reads back as it was.\<close>

definition serde_roundtrip ::
  "('d usage_map \<Rightarrow> bytes option) \<Rightarrow> (string \<Rightarrow> 'd usage_map option) \<Rightarrow> 'd usage_map \<Rightarrow> bool" where
  "serde_roundtrip to_vec_pretty from_str m \<longleftrightarrow>
     (\<exists>data. to_vec_pretty m = Some data \<and> utf8_ok data \<and> from_str data = Some m)"

end
