(* ===== verification/Rpc_Client.thy ===== *)
theory Rpc_Client
  imports Persistence
begin

text \<open>
  The state every task shares (\<open>src/core/rpc.rs\<close>) and the ranking round
  (\<open>src/core/ranking.rs\<close>). Nodes live in \<open>cells\<close>, a list that only grows: a reload appends the
  new cells, and a request that still holds a reference to an old one keeps it. \<open>periods\<close> is the
  map behind its mutex, \<open>custom_methods\<close> the static \<open>CUSTOM_METHODS\<close>, \<open>emitted\<close> the metric
  operations performed so far. A critical section under \<open>topology_lock\<close> is one step.

  \<^verbatim>\<open>client_wf\<close> is the invariant of the shared state, and \<^verbatim>\<open>evolves\<close> what every task may rely on
  of every other: cells stay where they are and keep their configuration.
\<close>

section \<open>State\<close>

record ('l, 's, 'u, 'd) rpc_client =
  cells :: "('l, 's, 'u) heap"
  topo :: topology
  nodes_usage :: quota_state
  periods :: "'d period_map"
  custom_methods :: interned
  emitted :: "metric_op list"

definition all_nodes :: "('l, 's, 'u, 'd) rpc_client \<Rightarrow> ('l, 's, 'u) rpc_node list" where
  "all_nodes c = map ((!) (cells c)) (t_all (topo c))"

definition emit :: "metric_op list \<Rightarrow> ('l, 's, 'u, 'd) rpc_client \<Rightarrow> ('l, 's, 'u, 'd) rpc_client" where
  "emit ops c = c\<lparr>emitted := emitted c @ ops\<rparr>"

section \<open>Operations\<close>

datatype client_error = HttpClient | Rejected assign_error

definition RpcClient_new ::
  "bool \<Rightarrow> interned \<Rightarrow> ('l, 's, 'u) rpc_node list \<Rightarrow> client_error + ('l, 's, 'u, 'd) rpc_client" where
  "RpcClient_new http_ok methods nodes =
     (if \<not> http_ok then Inl HttpClient
      else case assign_ids [] nodes GlobalQuotaState_default of
        (Inl e, _) \<Rightarrow> Inl (Rejected e)
      | (Inr nodes, q) \<Rightarrow>
          Inr \<lparr>cells = nodes, topo = Topology_new nodes [0..<length nodes], nodes_usage = q,
               periods = (\<lambda>_. None), custom_methods = methods, emitted = []\<rparr>)"

definition reload ::
  "('l, 's, 'u, 'd) rpc_client \<Rightarrow> ('l, 's, 'u) rpc_node list
     \<Rightarrow> (assign_error + unit) \<times> ('l, 's, 'u, 'd) rpc_client" where
  "reload c nodes =
     (case assign_ids (all_nodes c) nodes (nodes_usage c) of
        (Inl e, q) \<Rightarrow> (Inl e, c\<lparr>nodes_usage := q\<rparr>)
      | (Inr nodes, q) \<Rightarrow>
          let h = cells c @ nodes
          in (Inr (), c\<lparr>cells := h, nodes_usage := q,
                topo := Topology_new h [length (cells c)..<length h]\<rparr>))"

text \<open>The seeding loop. \<^const>\<open>None\<close> is an index panic.\<close>

fun load_entries ::
  "('l, 's, 'u) rpc_node list \<Rightarrow> 'd usage_map \<Rightarrow> quota_state \<times> 'd period_map
     \<Rightarrow> (quota_state \<times> 'd period_map) option" where
  "load_entries [] quotas st = Some st"
| "load_entries (n # ns) quotas (q, ps) =
     (case quotas (node_name n) of
        None \<Rightarrow> load_entries ns quotas (q, ps)
      | Some e \<Rightarrow>
          (case counter_set q (node_id n) (used e) of
             None \<Rightarrow> None
           | Some q' \<Rightarrow> load_entries ns quotas (q', ps(node_name n \<mapsto> usage_period e))))"

definition load_quotas ::
  "'d usage_map \<Rightarrow> ('l, 's, 'u, 'd) rpc_client \<Rightarrow> ('l, 's, 'u, 'd) rpc_client option" where
  "load_quotas quotas c =
     (case load_entries (all_nodes c) quotas (nodes_usage c, periods c) of
        None \<Rightarrow> None
      | Some (q, ps) \<Rightarrow> Some (c\<lparr>nodes_usage := q, periods := ps\<rparr>))"

definition health_snapshot :: "instant \<Rightarrow> instant \<Rightarrow> ('l, 's, 'u, 'd) rpc_client \<Rightarrow> node_health list" where
  "health_snapshot EPOCH at c = health (cells c) (topo c) (seconds_since_start EPOCH at)"

section \<open>Ranking rounds\<close>

fun node_gauges :: "u32 \<Rightarrow> ('l, 's, 'u) rpc_node list \<Rightarrow> nat \<times> metric_op list" where
  "node_gauges now_s [] = (0, [])"
| "node_gauges now_s (n # ns) =
     (let penalized = is_penalized n now_s; (available, ops) = node_gauges now_s ns
      in ((if penalized then available else Suc available),
          set_node_state (node_name n) (tier n) penalized
            (if ema_us n \<noteq> UNMEASURED then Some (ema_us n) else None) @ ops))"

definition rerank ::
  "instant \<Rightarrow> instant \<Rightarrow> ('l, 's, 'u, 'd) rpc_client \<Rightarrow> nat \<times> ('l, 's, 'u, 'd) rpc_client" where
  "rerank EPOCH at c =
     (let all = t_all (topo c);
          (available, ops) = node_gauges (seconds_since_start EPOCH at) (all_nodes c)
      in (available,
          emit (ops @ set_healthy_nodes available) c\<lparr>topo := Topology_new (cells c) all\<rparr>))"

text \<open>
  One tick of the loop: the flag it carries to the next tick, and whether this tick logs the
  error that every node is serving a penalty.
\<close>

definition rank_tick ::
  "instant \<Rightarrow> instant \<Rightarrow> bool \<Rightarrow> ('l, 's, 'u, 'd) rpc_client
     \<Rightarrow> bool \<times> bool \<times> ('l, 's, 'u, 'd) rpc_client" where
  "rank_tick EPOCH at all_nodes_penalized c =
     (case rerank EPOCH at c of (n, c') \<Rightarrow>
        let none_available = (n = 0)
        in (none_available, none_available \<and> \<not> all_nodes_penalized, c'))"

section \<open>The invariant and what tasks rely on\<close>

definition node_wf :: "('l, 's, 'u) rpc_node \<Rightarrow> bool" where
  "node_wf n \<longleftrightarrow> node_id n < MAX_NODES \<and> metrics n = NodeMetrics_new (node_name n)"

definition topo_wf :: "('l, 's, 'u) heap \<Rightarrow> topology \<Rightarrow> bool" where
  "topo_wf h t \<longleftrightarrow> (\<forall>r \<in> set (t_all t). r < length h) \<and> slots_ok (map ((!) h) (t_all t)) \<and>
     mset (t_ranked t) = mset (t_all t)"

definition client_wf :: "('l, 's, 'u, 'd) rpc_client \<Rightarrow> bool" where
  "client_wf c \<longleftrightarrow> quota_ok (nodes_usage c) \<and> (\<forall>n \<in> set (cells c). node_wf n) \<and>
     topo_wf (cells c) (topo c) \<and> registry_ok (custom_methods c)"

definition keeps :: "('l, 's, 'u) heap \<Rightarrow> ('l, 's, 'u) heap \<Rightarrow> bool" where
  "keeps h h' \<longleftrightarrow> length h \<le> length h' \<and> (\<forall>r < length h. same_config (h ! r) (h' ! r))"

definition evolves ::
  "('l, 's, 'u, 'd) rpc_client \<Rightarrow> ('l, 's, 'u, 'd) rpc_client \<Rightarrow> bool" where
  "evolves c c' \<longleftrightarrow> client_wf c' \<and> keeps (cells c) (cells c')"

lemma keeps_refl [simp]: "keeps h h"
  by (simp add: keeps_def)

lemma keeps_trans: "keeps a b \<Longrightarrow> keeps b c \<Longrightarrow> keeps a c"
  by (auto simp: keeps_def intro: same_config_trans order.strict_trans2)

lemma keeps_append [simp]: "keeps h (h @ ns)"
  by (simp add: keeps_def nth_append)

lemma keeps_update: "r < length h \<Longrightarrow> same_config (h ! r) n \<Longrightarrow> keeps h (h[r := n])"
  by (auto simp: keeps_def nth_list_update)

lemma keeps_id: "keeps h h' \<Longrightarrow> r < length h \<Longrightarrow> node_id (h' ! r) = node_id (h ! r)"
  by (simp add: keeps_def same_config_def)

lemma node_wf_same_config: "node_wf n \<Longrightarrow> same_config n m \<Longrightarrow> node_wf m"
  by (simp add: node_wf_def same_config_def)

lemma slots_ok_cong:
  fixes ns ms :: "('l, 's, 'u) rpc_node list"
  shows "map node_name ns = map node_name ms \<Longrightarrow> map node_id ns = map node_id ms \<Longrightarrow> slots_ok ns = slots_ok ms"
proof -
  have eq: "slots_ok xs \<longleftrightarrow> distinct (map node_name xs) \<and> distinct (map node_id xs) \<and>
      (\<forall>i \<in> set (map node_id xs). i < MAX_NODES)" for xs :: "('l, 's, 'u) rpc_node list"
    by (simp add: slots_ok_def)
  assume "map node_name ns = map node_name ms" "map node_id ns = map node_id ms"
  then show ?thesis unfolding eq by (simp only:)
qed

lemma topo_wf_keeps:
  assumes "topo_wf h t" and "keeps h h'"
  shows "topo_wf h' t"
proof -
  have lt: "r < length h" if "r \<in> set (t_all t)" for r using assms(1) that by (simp add: topo_wf_def)
  then have same: "same_config (h ! r) (h' ! r)" "r < length h'" if "r \<in> set (t_all t)" for r
    using assms(2) that by (auto simp: keeps_def intro: order.strict_trans2)
  have "slots_ok (map ((!) h) (t_all t)) = slots_ok (map ((!) h') (t_all t))"
    using same(1) by (intro slots_ok_cong) (auto simp: same_config_def)
  with assms(1) same(2) show ?thesis by (simp add: topo_wf_def)
qed

lemma topo_wf_distinct:
  assumes "topo_wf h t"
  shows "distinct (t_ranked t)" and "set (t_ranked t) = set (t_all t)"
proof -
  have "distinct (map node_id (map ((!) h) (t_all t)))"
    using assms by (simp add: topo_wf_def slots_ok_def)
  then have "distinct (t_all t)" by (simp only: distinct_map)
  moreover have m: "mset (t_ranked t) = mset (t_all t)" using assms by (simp add: topo_wf_def)
  ultimately show "distinct (t_ranked t)" using mset_eq_imp_distinct_iff by blast
  show "set (t_ranked t) = set (t_all t)" by (rule mset_eq_setD [OF m])
qed

lemma topo_wf_ids:
  assumes "topo_wf h t" and "r \<in> set (t_ranked t)" and "r' \<in> set (t_ranked t)"
    and "node_id (h ! r) = node_id (h ! r')"
  shows "r = r'"
proof -
  have "distinct (map (\<lambda>r. node_id (h ! r)) (t_all t))"
    using assms(1) by (simp add: topo_wf_def slots_ok_def comp_def)
  then have "inj_on (\<lambda>r. node_id (h ! r)) (set (t_all t))" by (simp add: distinct_map)
  with assms topo_wf_distinct(2) [OF assms(1)] show ?thesis by (auto simp: inj_on_def)
qed

lemma Topology_new_wf:
  assumes "\<forall>r \<in> set all. r < length h" and "slots_ok (map ((!) h) all)"
  shows "topo_wf h (Topology_new h all)"
  using assms order.mset_rank by (simp add: topo_wf_def Topology_new_def)

lemma emit_simps [simp]:
  "cells (emit ops c) = cells c" "topo (emit ops c) = topo c" "nodes_usage (emit ops c) = nodes_usage c"
  "periods (emit ops c) = periods c" "custom_methods (emit ops c) = custom_methods c"
  "emitted (emit ops c) = emitted c @ ops" "client_wf (emit ops c) = client_wf c"
  by (simp_all add: emit_def client_wf_def)

lemma map_nth_append_new: "map ((!) (xs @ ys)) [length xs..<length (xs @ ys)] = ys"
  by (rule nth_equalityI) (simp_all add: nth_append)

section \<open>Every operation keeps the invariant\<close>

lemma assigned_wf: "assigned prev q q' n n' \<Longrightarrow> slots_ok prev \<Longrightarrow> metrics n = NodeMetrics_new (node_name n) \<Longrightarrow> node_wf n'"
  by (auto simp: assigned_def node_wf_def carry_over_def slots_ok_def split: option.splits
      dest: previous_of_SomeD)

lemma assigned_all_wf:
  assumes "list_all2 (assigned prev q q') new new'" and "slots_ok prev"
    and "\<forall>n \<in> set new. metrics n = NodeMetrics_new (node_name n)"
  shows "\<forall>n \<in> set new'. node_wf n"
  using assms by (induction rule: list_all2_induct) (auto dest: assigned_wf)

lemma client_wf_slots: "client_wf c \<Longrightarrow> slots_ok (all_nodes c)"
  by (simp add: client_wf_def topo_wf_def all_nodes_def)

lemma assign_ids_refused:
  assumes "\<not> (distinct (map node_name new) \<and> length new \<le> MAX_NODES)"
  shows "\<exists>e. assign_ids prev new q = (Inl e, q) \<and> e \<noteq> IndexPanic \<and> e \<noteq> OutOfSlots"
proof (cases "length new \<le> MAX_NODES")
  case True
  with assms obtain x where "shared_name [] new = Some x"
    using shared_name_None_iff [of "[]" new] by auto
  with True show ?thesis by (simp add: assign_ids_def)
next
  case False
  then show ?thesis by (simp add: assign_ids_def)
qed

lemma reload_cases:
  assumes "client_wf c" and "reload c new = (res, c')"
  obtains (rejected) e where "res = Inl e" "c' = c" "e \<noteq> IndexPanic" "e \<noteq> OutOfSlots"
  | (published) new' q' where "res = Inr ()" "quota_ok q'" "slots_ok new'"
      "assign_ids (all_nodes c) new (nodes_usage c) = (Inr new', q')"
      "list_all2 (assigned (all_nodes c) (nodes_usage c) q') new new'"
      "c' = c\<lparr>cells := cells c @ new', nodes_usage := q',
         topo := Topology_new (cells c @ new') [length (cells c)..<length (cells c @ new')]\<rparr>"
      "\<forall>i < MAX_NODES. i \<notin> fresh_slots (all_nodes c) new' \<longrightarrow> q' ! i = nodes_usage c ! i"
proof (cases "distinct (map node_name new) \<and> length new \<le> MAX_NODES")
  case True
  have q: "quota_ok (nodes_usage c)" using assms(1) by (simp add: client_wf_def)
  from True assign_ids_full [OF client_wf_slots [OF assms(1)] q, of new] assms(2) published
  show ?thesis by (auto simp: reload_def Let_def)
next
  case False
  from assign_ids_refused [OF this, of "all_nodes c" "nodes_usage c"] assms(2) rejected show ?thesis by (auto simp: reload_def)
qed

lemma reload_evolves:
  assumes "client_wf c" and "reload c new = (res, c')"
    and "\<forall>n \<in> set new. metrics n = NodeMetrics_new (node_name n)"
  shows "evolves c c'"
  using assms(1,2)
proof (cases rule: reload_cases)
  case (rejected e)
  then show ?thesis using assms(1) by (simp add: evolves_def)
next
  case (published new' q')
  have wf: "\<forall>n \<in> set new'. node_wf n"
    using assigned_all_wf [OF published(5) client_wf_slots [OF assms(1)] assms(3)] .
  have "topo_wf (cells c @ new') (Topology_new (cells c @ new') [length (cells c)..<length (cells c @ new')])"
    using published(3) by (intro Topology_new_wf) (simp_all add: map_nth_append_new del: length_append)
  with published wf assms(1) show ?thesis
    by (auto simp: evolves_def client_wf_def)
qed

lemma RpcClient_new_result:
  assumes "RpcClient_new http_ok methods nodes = Inr c"
  obtains ns q where "c = \<lparr>cells = ns, topo = Topology_new ns [0..<length ns], nodes_usage = q,
      periods = (\<lambda>_. None), custom_methods = methods, emitted = []\<rparr>"
    "quota_ok q" "slots_ok ns" "list_all2 (assigned [] GlobalQuotaState_default q) nodes ns"
proof -
  obtain ns q where a: "assign_ids [] nodes GlobalQuotaState_default = (Inr ns, q)"
    and c: "c = \<lparr>cells = ns, topo = Topology_new ns [0..<length ns], nodes_usage = q,
      periods = (\<lambda>_. None), custom_methods = methods, emitted = []\<rparr>"
    using assms(1) by (auto simp: RpcClient_new_def split: if_splits prod.splits sum.splits)
  have "length nodes \<le> MAX_NODES" "shared_name [] nodes = None"
    using a by (auto simp: assign_ids_def not_le [symmetric] split: if_splits option.splits)
  then have "distinct (map node_name nodes)" by (simp add: shared_name_None_iff)
  then obtain ns' q' where r: "assign_ids [] nodes GlobalQuotaState_default = (Inr ns', q')" "quota_ok q'"
      "slots_ok ns'" "list_all2 (assigned [] GlobalQuotaState_default q') nodes ns'"
    using assign_ids_result [of "[]" GlobalQuotaState_default nodes] \<open>length nodes \<le> MAX_NODES\<close> by auto
  with a have "ns' = ns" "q' = q" by auto
  with r c that show ?thesis by blast
qed

lemma RpcClient_new_wf:
  assumes "RpcClient_new http_ok methods nodes = Inr c" and "registry_ok methods"
    and "\<forall>n \<in> set nodes. metrics n = NodeMetrics_new (node_name n)"
  shows "client_wf c"
  using assms(1)
proof (rule RpcClient_new_result)
  fix ns q assume c: "c = \<lparr>cells = ns, topo = Topology_new ns [0..<length ns], nodes_usage = q,
      periods = (\<lambda>_. None), custom_methods = methods, emitted = []\<rparr>"
    and r: "quota_ok q" "slots_ok ns" "list_all2 (assigned [] GlobalQuotaState_default q) nodes ns"
  have "\<forall>n \<in> set ns. node_wf n" using assigned_all_wf [OF r(3) _ assms(3)] by simp
  moreover have "topo_wf ns (Topology_new ns [0..<length ns])"
    using r(2) by (intro Topology_new_wf) (simp_all add: map_nth)
  ultimately show ?thesis using r(1) assms(2) c by (simp add: client_wf_def)
qed

lemma RpcClient_new_fresh:
  assumes "RpcClient_new http_ok methods nodes = Inr c"
  shows "periods c = (\<lambda>_. None) \<and> (\<forall>n \<in> set (all_nodes c). nodes_usage c ! node_id n = 0 \<and>
    (\<exists>m \<in> set nodes. node_name n = node_name m \<and> reset_day n = reset_day m))"
  using assms
proof (rule RpcClient_new_result)
  fix ns q assume c: "c = \<lparr>cells = ns, topo = Topology_new ns [0..<length ns], nodes_usage = q,
      periods = (\<lambda>_. None), custom_methods = methods, emitted = []\<rparr>"
    and r: "list_all2 (assigned [] GlobalQuotaState_default q) nodes ns"
  have "all_nodes c = ns" using c by (simp add: all_nodes_def Topology_new_def map_nth)
  moreover have "\<forall>n \<in> set ns. q ! node_id n = 0 \<and>
      (\<exists>m \<in> set nodes. node_name n = node_name m \<and> reset_day n = reset_day m)"
    using r by (induction rule: list_all2_induct) (auto simp: assigned_def previous_of_def)
  ultimately show ?thesis using c by simp
qed

lemma rerank_evolves:
  assumes "client_wf c" and "rerank EPOCH at c = (n, c')"
  shows "evolves c c'"
proof -
  have "topo_wf (cells c) (Topology_new (cells c) (t_all (topo c)))"
    using assms(1) by (intro Topology_new_wf) (auto simp: client_wf_def topo_wf_def)
  then show ?thesis
    using assms by (auto simp: rerank_def Let_def evolves_def client_wf_def split: prod.splits)
qed

lemma load_entries_eq:
  assumes "slots_ok ns" and "quota_ok q"
  shows "\<exists>q' ps'. load_entries ns quotas (q, ps) = Some (q', ps') \<and> quota_ok q' \<and>
    (\<forall>n \<in> set ns. q' ! node_id n = (case quotas (node_name n) of Some e \<Rightarrow> used e | None \<Rightarrow> q ! node_id n) \<and>
       ps' (node_name n) = (case quotas (node_name n) of Some e \<Rightarrow> Some (usage_period e) | None \<Rightarrow> ps (node_name n))) \<and>
    (\<forall>x. x \<notin> node_name ` set ns \<longrightarrow> ps' x = ps x) \<and> (\<forall>i. i \<notin> node_id ` set ns \<longrightarrow> q' ! i = q ! i)"
  using assms
proof (induction ns arbitrary: q ps)
  case (Cons n ns)
  have n: "node_id n < length q" "slots_ok ns" "node_name n \<notin> node_name ` set ns" "node_id n \<notin> node_id ` set ns"
    using Cons.prems by (auto simp: slots_ok_def quota_ok_def)
  then have ne: "node_name m \<noteq> node_name n" "node_id n \<noteq> node_id m" if "m \<in> set ns" for m
    using imageI [OF that, of node_name] imageI [OF that, of node_id] by auto
  show ?case
  proof (cases "quotas (node_name n)")
    case None
    with Cons.IH [OF n(2) Cons.prems(2), of ps] n(3,4) show ?thesis by auto
  next
    case (Some e)
    have "quota_ok (q[node_id n := used e])" using Cons.prems(2) by (simp add: quota_ok_def)
    from Cons.IH [OF n(2) this, of "ps(node_name n \<mapsto> usage_period e)"] obtain q' ps' where
      IH: "load_entries ns quotas (q[node_id n := used e], ps(node_name n \<mapsto> usage_period e)) = Some (q', ps')"
        "quota_ok q'"
        "\<forall>m \<in> set ns. q' ! node_id m = (case quotas (node_name m) of Some e \<Rightarrow> used e | None \<Rightarrow> q[node_id n := used e] ! node_id m) \<and>
          ps' (node_name m) = (case quotas (node_name m) of Some e \<Rightarrow> Some (usage_period e)
            | None \<Rightarrow> (ps(node_name n \<mapsto> usage_period e)) (node_name m))"
        "\<forall>x. x \<notin> node_name ` set ns \<longrightarrow> ps' x = (ps(node_name n \<mapsto> usage_period e)) x"
        "\<forall>i. i \<notin> node_id ` set ns \<longrightarrow> q' ! i = q[node_id n := used e] ! i" by blast
    with Some n ne show ?thesis by (auto simp: quota_simps split: option.splits)
  qed
qed simp

lemma load_quotas_evolves:
  assumes "client_wf c" and "load_quotas quotas c = Some c'"
  shows "evolves c c'"
proof -
  have "quota_ok (nodes_usage c)" using assms(1) by (simp add: client_wf_def)
  from load_entries_eq [OF client_wf_slots [OF assms(1)] this, of quotas "periods c"] assms
  show ?thesis by (auto simp: load_quotas_def evolves_def client_wf_def)
qed

lemma node_gauges_count: "fst (node_gauges now_s ns) = length (filter (\<lambda>n. \<not> is_penalized n now_s) ns)"
  by (induction ns) (auto simp: Let_def split: prod.splits)

section \<open>A concrete client\<close>

definition demo_client :: "(nat, nat, string, nat) rpc_client" where
  "demo_client = \<lparr>cells = [demo_node], topo = \<lparr>t_all = [0], t_ranked = [0]\<rparr>,
     nodes_usage = GlobalQuotaState_default, periods = (\<lambda>_. None),
     custom_methods = CustomMethods_default, emitted = []\<rparr>"

lemma demo_client_wf [simp]: "client_wf demo_client"
  by (simp add: demo_client_def client_wf_def topo_wf_def node_wf_def slots_ok_def demo_node_def
      MAX_NODES_def registry_ok_def CustomMethods_default_def)

section \<open>Properties\<close>

text \<open>
  C6. A reload is all or nothing. Rejected, it leaves the shared state exactly as it was.
  Accepted, it publishes exactly the nodes of the config, every surviving name keeps its spend
  and every new name starts from zero, and the cells that requests in flight still hold are
  not touched. Both ways the invariant of the shared state holds afterwards.
\<close>

theorem reload_all_or_nothing:
  assumes "client_wf c" and "\<forall>n \<in> set new. metrics n = NodeMetrics_new (node_name n)"
    and "reload c new = (res, c')"
  shows "client_wf c' \<and>
    (case res of
       Inl e \<Rightarrow> c' = c \<and> (length new \<le> MAX_NODES \<longrightarrow> \<not> distinct (map node_name new))
     | Inr _ \<Rightarrow> map node_name (all_nodes c') = map node_name new
         \<and> spend (all_nodes c') (nodes_usage c') = (\<lambda>x. if x \<in> node_name ` set new
             then Some (case spend (all_nodes c) (nodes_usage c) x of Some v \<Rightarrow> v | None \<Rightarrow> 0) else None)
         \<and> take (length (cells c)) (cells c') = cells c)"
  using assms(1,3)
proof (cases rule: reload_cases)
  case (rejected e)
  have "quota_ok (nodes_usage c)" using assms(1) by (simp add: client_wf_def)
  from assign_ids_result [OF client_wf_slots [OF assms(1)] this, of new] rejected assms(3)
  have "\<not> (distinct (map node_name new) \<and> length new \<le> MAX_NODES)"
    by (auto simp: reload_def Let_def)
  with rejected assms(1) show ?thesis by auto
next
  case (published new' q')
  have all: "all_nodes c' = new'"
    using published(6) by (simp add: all_nodes_def Topology_new_def map_nth_append_new del: length_append)
  have "spend new' q' x = (if x \<in> node_name ` set new
      then Some (case spend (all_nodes c) (nodes_usage c) x of Some v \<Rightarrow> v | None \<Rightarrow> 0) else None)" for x
    using spend_assigned [OF published(3) client_wf_slots [OF assms(1)] published(5)] .
  moreover have "client_wf c'"
    using reload_evolves [OF assms(1,3,2)] by (simp add: evolves_def)
  ultimately show ?thesis
    using published(1,6) all assigned_names [OF published(5)] by (auto simp: fun_eq_iff)
qed

theorem reload_all_or_nothing_witness:
  "client_wf (snd (reload demo_client [demo_node\<lparr>node_name := ''b'', metrics := NodeMetrics_new ''b''\<rparr>]))"
  using reload_all_or_nothing [of demo_client
      "[demo_node\<lparr>node_name := ''b'', metrics := NodeMetrics_new ''b''\<rparr>]"]
  by (metis (no_types, lifting) demo_client_wf empty_iff empty_set prod.collapse
      rpc_node.select_convs(2,11) rpc_node.surjective rpc_node.update_convs(2,11) set_ConsD)

text \<open>
  A ranking round publishes the stable order of the latencies as they are now, over the
  same node set, and reports how many nodes are free of a penalty. It changes no node, no
  counter and no billing period.
\<close>

lemma rerank_publishes_current_order:
  assumes "client_wf c" and "rerank EPOCH at c = (available, c')"
  shows "available = length (filter (\<lambda>n. \<not> is_penalized n (seconds_since_start EPOCH at)) (all_nodes c))
    \<and> t_all (topo c') = t_all (topo c)
    \<and> t_ranked (topo c') = sort_key (\<lambda>r. (tier (cells c ! r), ema_us (cells c ! r))) (t_all (topo c))
    \<and> cells c' = cells c \<and> nodes_usage c' = nodes_usage c \<and> periods c' = periods c \<and> client_wf c'"
proof -
  have "client_wf c'" using rerank_evolves [OF assms] by (simp add: evolves_def)
  moreover have "available = fst (node_gauges (seconds_since_start EPOCH at) (all_nodes c))"
    using assms(2) by (auto simp: rerank_def Let_def split: prod.splits)
  ultimately show ?thesis
    using assms(2)
    by (auto simp: rerank_def Let_def node_gauges_count Topology_new_def rank_def rank_key_def [abs_def]
        split: prod.splits)
qed

end
