(* ===== verification/Provider.thy ===== *)
theory Provider
  imports Rpc_Client
begin

text \<open>
  The configuration boundary (\<open>src/provider/load_config.rs\<close> and
  \<open>src/provider/pricing_parser.rs\<close>). The \<open>config\<close> crate, which reads and parses a file, is a
  parameter that yields the raw tables or nothing; the fields that \<open>serde\<close> fills with a default
  are optional in the raw tables, and \<open>deserialize\<close> is what the derived code makes of them. The
  environment is a partial map.

  The main results: the substitution of \<open>$VAR\<close> references against a reference definition on
  tokens, the refusal of \<open>${\<close>, and that every node a config yields is valid and priced by its
  own provider file.
\<close>

section \<open>Substitution of environment variables\<close>

datatype env_error = BraceSyntax string | EnvUnset string

definition name_byte :: "char \<Rightarrow> bool" where
  "name_byte b \<longleftrightarrow> byte_in 0x30 0x39 b \<or> byte_in 0x41 0x5A b \<or> byte_in 0x61 0x7A b \<or> b = CHR ''_''"

definition name_end :: "string \<Rightarrow> nat" where
  "name_end rest = (case position (\<lambda>b. \<not> name_byte b) rest of Some e \<Rightarrow> e | None \<Rightarrow> length rest)"

text \<open>The loop, with the output so far and the input that is left.\<close>

function resolve_loop ::
  "(string \<Rightarrow> string option) \<Rightarrow> string \<Rightarrow> string \<Rightarrow> string \<Rightarrow> env_error + string" where
  "resolve_loop env s out rest =
     (case position (\<lambda>c. c = CHR ''$'') rest of
        None \<Rightarrow> Inr (out @ rest)
      | Some i \<Rightarrow>
          let out = out @ take i rest; rest = drop (i + 1) rest
          in if take 1 rest = ''{'' then Inl (BraceSyntax s)
             else let e = name_end rest
               in if e > 0 then
                    (case env (take e rest) of
                       None \<Rightarrow> Inl (EnvUnset (take e rest))
                     | Some v \<Rightarrow> resolve_loop env s (out @ v) (drop e rest))
                  else resolve_loop env s (out @ ''$'') rest)"
  by pat_completeness auto
termination
  by (relation "measure (\<lambda>(env, s, out, rest). length rest)") (auto dest: position_lt)

declare resolve_loop.simps [simp del]

definition resolve_env :: "(string \<Rightarrow> string option) \<Rightarrow> string \<Rightarrow> env_error + string" where
  "resolve_env env s = resolve_loop env s [] s"

section \<open>The balancer's config file\<close>

record server_settings =
  port :: u16
  host :: string
  enable_metrics :: bool

record config_node =
  cn_name :: string
  cn_url :: string
  cn_tier :: u8
  cn_rps_limit :: u32
  cn_max_concurrent :: nat
  cn_monthly_limit :: u64
  cn_provider_pricing_path :: string
  cn_reset_day :: u8

record settings =
  server :: server_settings
  nodes :: "config_node list"

definition default_enable_metrics :: bool where
  "default_enable_metrics = False"

definition default_reset_day :: u8 where
  "default_reset_day = 1"

text \<open>What a file holds before the defaults are filled in.\<close>

record raw_node =
  raw_name :: string
  raw_url :: string
  raw_tier :: u8
  raw_rps_limit :: u32
  raw_max_concurrent :: nat
  raw_monthly_limit :: u64
  raw_pricing_path :: string
  raw_reset_day :: "u8 option"

record raw_settings =
  raw_port :: u16
  raw_host :: string
  raw_enable_metrics :: "bool option"
  raw_nodes :: "raw_node list"

definition deserialize_node :: "raw_node \<Rightarrow> config_node" where
  "deserialize_node r = \<lparr>cn_name = raw_name r, cn_url = raw_url r, cn_tier = raw_tier r,
     cn_rps_limit = raw_rps_limit r, cn_max_concurrent = raw_max_concurrent r,
     cn_monthly_limit = raw_monthly_limit r, cn_provider_pricing_path = raw_pricing_path r,
     cn_reset_day = (case raw_reset_day r of Some d \<Rightarrow> d | None \<Rightarrow> default_reset_day)\<rparr>"

definition deserialize_settings :: "raw_settings \<Rightarrow> settings" where
  "deserialize_settings r = \<lparr>server = \<lparr>port = raw_port r, host = raw_host r,
       enable_metrics = (case raw_enable_metrics r of Some b \<Rightarrow> b | None \<Rightarrow> default_enable_metrics)\<rparr>,
     nodes = map deserialize_node (raw_nodes r)\<rparr>"

datatype config_error =
    NoConfigPath
  | ConfigUnreadable string
  | BadReference env_error
  | BadResetDay string u8

definition normalize_node ::
  "(string \<Rightarrow> string option) \<Rightarrow> config_node \<Rightarrow> config_error + config_node" where
  "normalize_node env node =
     (case resolve_env env (cn_url node) of
        Inl e \<Rightarrow> Inl (BadReference e)
      | Inr url \<Rightarrow>
          let node = node\<lparr>cn_url := url\<rparr>;
              node = (if cn_monthly_limit node = 0 then node\<lparr>cn_monthly_limit := u64_MAX\<rparr> else node)
          in if 1 \<le> cn_reset_day node \<and> cn_reset_day node \<le> 31 then Inr node
             else Inl (BadResetDay (cn_name node) (cn_reset_day node)))"

text \<open>The loop over the nodes stops at the first error.\<close>

fun normalize_nodes ::
  "(string \<Rightarrow> string option) \<Rightarrow> config_node list \<Rightarrow> config_error + config_node list" where
  "normalize_nodes env [] = Inr []"
| "normalize_nodes env (n # ns) =
     (case normalize_node env n of
        Inl e \<Rightarrow> Inl e
      | Inr n' \<Rightarrow>
          (case normalize_nodes env ns of Inl e \<Rightarrow> Inl e | Inr ns' \<Rightarrow> Inr (n' # ns')))"

definition Settings_load ::
  "(string \<Rightarrow> string option) \<Rightarrow> (string \<Rightarrow> raw_settings option) \<Rightarrow> config_error + settings" where
  "Settings_load env read_settings =
     (case env ''CONFIG_PATH'' of
        None \<Rightarrow> Inl NoConfigPath
      | Some path \<Rightarrow>
          (case read_settings path of
             None \<Rightarrow> Inl (ConfigUnreadable path)
           | Some raw \<Rightarrow>
               let settings = deserialize_settings raw
               in case normalize_nodes env (nodes settings) of
                 Inl e \<Rightarrow> Inl e
               | Inr ns \<Rightarrow> Inr (settings\<lparr>nodes := ns\<rparr>)))"

section \<open>Provider files\<close>

definition DEFAULT_SPILLOVER_PERCENT :: u8 where
  "DEFAULT_SPILLOVER_PERCENT = 95"

definition default_spillover_percent :: u8 where
  "default_spillover_percent = DEFAULT_SPILLOVER_PERCENT"

record provider_limits =
  spillover_percent :: u8
  unknown_method_cost :: "u32 option"

record provider_routing =
  pr_routing :: price_map
  pr_custom :: price_map
  pr_limits :: "provider_limits option"

record raw_limits =
  raw_spillover_percent :: "u8 option"
  raw_unknown_method_cost :: "u32 option"

record raw_provider =
  raw_routing :: price_map
  raw_custom :: "price_map option"
  raw_limits_table :: "raw_limits option"

definition deserialize_limits :: "raw_limits \<Rightarrow> provider_limits" where
  "deserialize_limits r = \<lparr>
     spillover_percent = (case raw_spillover_percent r of Some p \<Rightarrow> p | None \<Rightarrow> default_spillover_percent),
     unknown_method_cost = raw_unknown_method_cost r\<rparr>"

definition deserialize_provider :: "raw_provider \<Rightarrow> provider_routing" where
  "deserialize_provider r = \<lparr>pr_routing = raw_routing r,
     pr_custom = (case raw_custom r of Some c \<Rightarrow> c | None \<Rightarrow> []),
     pr_limits = map_option deserialize_limits (raw_limits_table r)\<rparr>"

datatype pricing_error = PricingUnreadable string | SpilloverOutOfRange u8

definition parse_file ::
  "(string \<Rightarrow> raw_provider option) \<Rightarrow> string \<Rightarrow> pricing_error + cost_spec \<times> u8" where
  "parse_file read_pricing path =
     (case map_option deserialize_provider (read_pricing path) of
        None \<Rightarrow> Inl (PricingUnreadable path)
      | Some parsed \<Rightarrow>
          let (percent, unknown) =
            (case pr_limits parsed of
               None \<Rightarrow> (DEFAULT_SPILLOVER_PERCENT, u32_MAX)
             | Some l \<Rightarrow> (spillover_percent l,
                 case unknown_method_cost l of Some c \<Rightarrow> c | None \<Rightarrow> u32_MAX))
          in if \<not> (1 \<le> percent \<and> percent \<le> 100) then Inl (SpilloverOutOfRange percent)
             else Inr (\<lparr>routing = pr_routing parsed, custom = pr_custom parsed,
                        unknown_cost = unknown\<rparr>, percent))"

text \<open>Interning is a side effect on the registry, which is returned.\<close>

definition load_from_path ::
  "(string \<Rightarrow> raw_provider option) \<Rightarrow> string \<Rightarrow> interned
     \<Rightarrow> (pricing_error + provider_cost_table \<times> u8) \<times> interned" where
  "load_from_path read_pricing path methods =
     (case parse_file read_pricing path of
        Inl e \<Rightarrow> (Inl e, methods)
      | Inr (spec, percent) \<Rightarrow>
          (case ProviderCostTable_new spec methods of
             (table, methods') \<Rightarrow> (Inr (table, percent), methods')))"

text \<open>
  The consistency check over a directory. \<open>read_dir\<close> lists its entries, each with its path, its
  extension and its file stem (\<open>Path::extension\<close>, \<open>Path::file_stem\<close>), or an error.
\<close>

datatype dir_error = DirUnreadable | EntryUnreadable | NoFileName | BadFile pricing_error

type_synonym dir_entry = "string \<times> string option \<times> string option"

fun load_dir_entries ::
  "(string \<Rightarrow> raw_provider option) \<Rightarrow> dir_entry option list
     \<Rightarrow> (string \<Rightarrow> price_map option) \<Rightarrow> dir_error + (string \<Rightarrow> price_map option)" where
  "load_dir_entries read_pricing [] out = Inr out"
| "load_dir_entries read_pricing (None # entries) out = Inl EntryUnreadable"
| "load_dir_entries read_pricing (Some (path, ext, stem) # entries) out =
     (if ext \<noteq> Some ''toml'' then load_dir_entries read_pricing entries out
      else case stem of
        None \<Rightarrow> Inl NoFileName
      | Some provider \<Rightarrow>
          (case parse_file read_pricing path of
             Inl e \<Rightarrow> Inl (BadFile e)
           | Inr (spec, _) \<Rightarrow> load_dir_entries read_pricing entries (out(provider \<mapsto> routing spec))))"

definition load_from_dir ::
  "(string \<Rightarrow> dir_entry option list option) \<Rightarrow> (string \<Rightarrow> raw_provider option) \<Rightarrow> string
     \<Rightarrow> dir_error + (string \<Rightarrow> price_map option)" where
  "load_from_dir read_dir read_pricing dir =
     (case read_dir dir of
        None \<Rightarrow> Inl DirUnreadable
      | Some entries \<Rightarrow> load_dir_entries read_pricing entries (\<lambda>_. None))"

section \<open>Building the nodes\<close>

datatype build_error = BadPricing pricing_error | BadNode node_error

definition build_node ::
  "('l, 's, 'u) node_api \<Rightarrow> (string \<Rightarrow> raw_provider option) \<Rightarrow> config_node \<Rightarrow> interned
     \<Rightarrow> (build_error + ('l, 's, 'u) rpc_node) \<times> interned" where
  "build_node api read_pricing n methods =
     (case load_from_path read_pricing (cn_provider_pricing_path n) methods of
        (Inl e, methods') \<Rightarrow> (Inl (BadPricing e), methods')
      | (Inr (table, percent), methods') \<Rightarrow>
          (case RpcNode_new api \<lparr>nn_name = cn_name n, nn_url = cn_url n, nn_rps_limit = cn_rps_limit n,
               nn_max_concurrent = cn_max_concurrent n, nn_tier = cn_tier n, nn_method_costs = table,
               nn_monthly_limit = cn_monthly_limit n, nn_spillover_percent = percent,
               nn_reset_day = cn_reset_day n\<rparr> of
             Inl e \<Rightarrow> (Inl (BadNode e), methods')
           | Inr node \<Rightarrow> (Inr node, methods')))"

fun build_nodes ::
  "('l, 's, 'u) node_api \<Rightarrow> (string \<Rightarrow> raw_provider option) \<Rightarrow> config_node list \<Rightarrow> interned
     \<Rightarrow> (build_error + ('l, 's, 'u) rpc_node list) \<times> interned" where
  "build_nodes api read_pricing [] methods = (Inr [], methods)"
| "build_nodes api read_pricing (n # ns) methods =
     (case build_node api read_pricing n methods of
        (Inl e, methods') \<Rightarrow> (Inl e, methods')
      | (Inr node, methods') \<Rightarrow>
          (case build_nodes api read_pricing ns methods' of
             (Inl e, methods'') \<Rightarrow> (Inl e, methods'')
           | (Inr rest, methods'') \<Rightarrow> (Inr (node # rest), methods'')))"

section \<open>References as tokens\<close>

text \<open>
  The reference definition of the substitution, on tokens: a character that is not a dollar
  sign, a dollar sign with no name after it, a reference with its name.
\<close>

datatype piece = Lit char | Dollar | Ref string

fun render_piece :: "piece \<Rightarrow> string" where
  "render_piece (Lit c) = [c]"
| "render_piece Dollar = ''$''"
| "render_piece (Ref v) = CHR ''$'' # v"

definition render :: "piece list \<Rightarrow> string" where
  "render ps = concat (map render_piece ps)"

fun piece_value :: "(string \<Rightarrow> string option) \<Rightarrow> piece \<Rightarrow> string" where
  "piece_value env (Lit c) = [c]"
| "piece_value env Dollar = ''$''"
| "piece_value env (Ref v) = (case env v of Some x \<Rightarrow> x | None \<Rightarrow> [])"

fun first_unset :: "(string \<Rightarrow> string option) \<Rightarrow> piece list \<Rightarrow> string option" where
  "first_unset env [] = None"
| "first_unset env (Ref v # ps) = (if env v = None then Some v else first_unset env ps)"
| "first_unset env (_ # ps) = first_unset env ps"

definition continues_name :: "string \<Rightarrow> bool" where
  "continues_name s = (case s of [] \<Rightarrow> False | c # _ \<Rightarrow> name_byte c)"

text \<open>A reading is maximal: a name ends where no further name byte follows.\<close>

fun pieces_ok :: "piece list \<Rightarrow> bool" where
  "pieces_ok [] = True"
| "pieces_ok (Lit c # ps) = (c \<noteq> CHR ''$'' \<and> pieces_ok ps)"
| "pieces_ok (Dollar # ps) =
     (\<not> continues_name (render ps) \<and> take 1 (render ps) \<noteq> ''{'' \<and> pieces_ok ps)"
| "pieces_ok (Ref v # ps) =
     (v \<noteq> [] \<and> list_all name_byte v \<and> \<not> continues_name (render ps) \<and> pieces_ok ps)"

definition substitute :: "(string \<Rightarrow> string option) \<Rightarrow> piece list \<Rightarrow> env_error + string" where
  "substitute env ps =
     (case first_unset env ps of
        Some v \<Rightarrow> Inl (EnvUnset v)
      | None \<Rightarrow> Inr (concat (map (piece_value env) ps)))"

lemma name_byte_special [simp]: "\<not> name_byte CHR ''$''" "\<not> name_byte CHR ''{''"
  by (simp_all add: name_byte_def)

lemma render_simps [simp]: "render [] = []" "render (p # ps) = render_piece p @ render ps"
  by (simp_all add: render_def)

lemma resolve_loop_Nil: "resolve_loop env s out [] = Inr out"
  by (subst resolve_loop.simps) simp

lemma resolve_loop_Lit:
  "c \<noteq> CHR ''$'' \<Longrightarrow> resolve_loop env s out (c # rest) = resolve_loop env s (out @ [c]) rest"
  by (subst (1 2) resolve_loop.simps) (simp split: option.split)

lemma name_end_append:
  assumes "list_all name_byte v" and "\<not> continues_name rest"
  shows "name_end (v @ rest) = length v"
proof (cases rest)
  case Nil
  then have "position (\<lambda>b. \<not> name_byte b) (v @ rest) = None"
    using assms(1) by (simp add: position_None_iff list_all_iff)
  with Nil show ?thesis by (simp add: name_end_def)
next
  case (Cons c rest')
  then have "position (\<lambda>b. \<not> name_byte b) (v @ rest) = Some (length v)"
    using assms by (simp add: position_Some_iff nth_append continues_name_def list_all_length)
  then show ?thesis by (simp add: name_end_def)
qed

lemma resolve_loop_Dollar:
  "\<not> continues_name rest \<Longrightarrow> take 1 rest \<noteq> ''{'' \<Longrightarrow>
   resolve_loop env s out (CHR ''$'' # rest) = resolve_loop env s (out @ ''$'') rest"
  using name_end_append [of "[]" rest] by (subst resolve_loop.simps) simp

lemma resolve_loop_Ref:
  assumes "v \<noteq> []" and "list_all name_byte v" and "\<not> continues_name rest"
  shows "resolve_loop env s out (CHR ''$'' # v @ rest) =
    (case env v of None \<Rightarrow> Inl (EnvUnset v) | Some x \<Rightarrow> resolve_loop env s (out @ x) rest)"
proof -
  have "take 1 (v @ rest) \<noteq> ''{''" using assms(1,2) by (cases v) auto
  with assms name_end_append [OF assms(2,3)] show ?thesis by (subst resolve_loop.simps) (simp add: Let_def split: option.split)
qed

lemma resolve_loop_render:
  "pieces_ok ps \<Longrightarrow> resolve_loop env s out (render ps) =
     (case first_unset env ps of
        Some v \<Rightarrow> Inl (EnvUnset v) | None \<Rightarrow> Inr (out @ concat (map (piece_value env) ps)))"
  by (induction ps arbitrary: out rule: pieces_ok.induct)
    (auto simp: resolve_loop_Nil resolve_loop_Lit resolve_loop_Dollar resolve_loop_Ref split: option.split)

lemma name_end_le: "\<not> name_byte x \<Longrightarrow> name_end (a @ x # b) \<le> length a"
  by (cases "position (\<lambda>b. \<not> name_byte b) a")
    (auto simp: name_end_def position_append split: option.split dest: position_lt)

lemma resolve_loop_brace:
  "rest = a @ ''${'' @ b \<Longrightarrow> \<exists>e. resolve_loop env s out rest = Inl e"
proof (induction env s out rest arbitrary: a rule: resolve_loop.induct)
  case (1 env s out rest)
  have "position (\<lambda>c. c = CHR ''$'') rest \<noteq> None" using "1.prems" by (simp add: position_None_iff)
  then obtain i where i: "position (\<lambda>c. c = CHR ''$'') rest = Some i" by blast
  have le: "i \<le> length a"
  proof (rule ccontr)
    assume "\<not> i \<le> length a"
    then have "rest ! length a \<noteq> CHR ''$''" using i by (simp add: position_Some_iff)
    with "1.prems" show False by (simp add: nth_append)
  qed
  show ?case
  proof (cases "i = length a")
    case True
    then have "take 1 (drop (i + 1) rest) = ''{''" using "1.prems" by simp
    with i show ?thesis by (subst resolve_loop.simps) simp
  next
    case False
    let ?a = "drop (i + 1) a" and ?r = "drop (i + 1) rest"
    have r: "?r = ?a @ ''${'' @ b" using "1.prems" le False by simp
    have e: "name_end ?r \<le> length ?a" unfolding r using name_end_le [of "CHR ''$''" ?a] by simp
    then have r': "drop (name_end ?r) ?r = drop (name_end ?r) ?a @ ''${'' @ b"
      unfolding r by (simp only: drop_append diff_is_0_eq [THEN iffD2] drop_0)
    have step: "resolve_loop env s out rest = (if take 1 ?r = ''{'' then Inl (BraceSyntax s)
        else if 0 < name_end ?r then
          (case env (take (name_end ?r) ?r) of None \<Rightarrow> Inl (EnvUnset (take (name_end ?r) ?r))
           | Some v \<Rightarrow> resolve_loop env s ((out @ take i rest) @ v) (drop (name_end ?r) ?r))
        else resolve_loop env s ((out @ take i rest) @ ''$'') ?r)"
      by (subst resolve_loop.simps) (simp only: i option.case Let_def)
    note IH = "1.IH" [OF i refl refl _ refl]
    show ?thesis unfolding step using IH(1) [OF _ _ _ r'] IH(2) [OF _ _ r] by (simp split: option.split)
  qed
qed

section \<open>What a config yields\<close>

lemma normalize_node_ok:
  assumes "normalize_node env n = Inr n'"
  shows "cn_name n' = cn_name n \<and> 1 \<le> cn_reset_day n' \<and> cn_reset_day n' \<le> 31 \<and> cn_monthly_limit n' \<noteq> 0"
  using assms by (auto simp: normalize_node_def Let_def split: sum.splits if_splits)

lemma normalize_nodes_ok:
  "normalize_nodes env ns = Inr ns' \<Longrightarrow> map cn_name ns' = map cn_name ns \<and>
     (\<forall>n \<in> set ns'. 1 \<le> cn_reset_day n \<and> cn_reset_day n \<le> 31 \<and> cn_monthly_limit n \<noteq> 0)"
  by (induction ns arbitrary: ns') (auto split: sum.splits dest!: normalize_node_ok)

lemma Settings_load_ok:
  assumes "Settings_load env read_settings = Inr st"
  shows "\<forall>n \<in> set (nodes st). 1 \<le> cn_reset_day n \<and> cn_reset_day n \<le> 31 \<and> cn_monthly_limit n \<noteq> 0"
  using assms by (auto simp: Settings_load_def Let_def split: option.splits sum.splits dest!: normalize_nodes_ok)

lemma parse_file_ok:
  "parse_file read_pricing path = Inr (spec, percent) \<Longrightarrow> 1 \<le> percent \<and> percent \<le> 100"
  by (auto simp: parse_file_def Let_def split: option.splits prod.splits if_splits)

text \<open>The registry only grows, whether or not the build succeeds.\<close>

lemma build_node_registry:
  assumes "build_node api rp n r = (res, r')"
  shows "r' = r \<or> (\<exists>spec percent. parse_file rp (cn_provider_pricing_path n) = Inr (spec, percent) \<and>
    r' = register r (map fst (custom spec)))"
  using assms
  by (auto simp: build_node_def load_from_path_def split: sum.splits prod.splits
      dest: ProviderCostTable_new_costs(1))

lemma build_nodes_registry:
  "build_nodes api rp ns r = (res, r') \<Longrightarrow> \<exists>nss. r' = foldl register r nss"
proof (induction ns arbitrary: r res r')
  case Nil
  then show ?case by (auto intro: exI [of _ "[]"])
next
  case (Cons n ns)
  obtain res1 r1 where n: "build_node api rp n r = (res1, r1)" by (metis surj_pair)
  have "\<exists>nss. r1 = foldl register r nss"
  proof -
    consider "r1 = r" | names where "r1 = register r names" using build_node_registry [OF n] by blast
    then show ?thesis
      by cases (auto intro: exI [of _ "[]"] exI [of _ "[x]" for x])
  qed
  then obtain nss where nss: "r1 = foldl register r nss" by blast
  show ?case
  proof (cases res1)
    case (Inl e)
    with n Cons.prems nss show ?thesis by auto
  next
    case (Inr node)
    obtain res2 r2 where "build_nodes api rp ns r1 = (res2, r2)" by (metis surj_pair)
    with Cons.IH [OF this] Cons.prems n Inr obtain nss' where "r' = foldl register r1 nss'"
      by (auto split: sum.splits)
    then show ?thesis using nss by (intro exI [of _ "nss @ nss'"]) simp
  qed
qed

text \<open>How a built node relates to its entry, its provider file and a later registry.\<close>

definition configured ::
  "(string \<Rightarrow> raw_provider option) \<Rightarrow> interned \<Rightarrow> config_node \<Rightarrow> ('l, 's, 'u) rpc_node \<Rightarrow> bool" where
  "configured read_pricing r n node \<longleftrightarrow>
     node_name node = cn_name n \<and> tier node = cn_tier n \<and> reset_day node = cn_reset_day n \<and>
     metrics node = NodeMetrics_new (cn_name n) \<and> ema_us node = UNMEASURED \<and> until_s node = 0 \<and>
     (\<exists>spec percent. parse_file read_pricing (cn_provider_pricing_path n) = Inr (spec, percent) \<and>
        spillover_threshold node = spillover_of (cn_monthly_limit n) percent \<and>
        (cost_spec_ok spec \<longrightarrow> (\<forall>m. get_standard_method_id m \<noteq> Unknown \<or> m \<in> fst ` set (custom spec) \<longrightarrow>
           cost (method_costs node) (resolve r m) = price_of spec m)))"

lemma resolve_kept:
  assumes "registry_ok r" and "get_standard_method_id m \<noteq> Unknown \<or> m \<in> set (names r)"
  shows "resolve (foldl register r nss) m = resolve r m"
proof (cases "get_standard_method_id m = Unknown")
  case True
  with assms have "m \<in> set (names r)" by simp
  then obtain i where "lookup r m = Some i" using lookup_None_iff [OF assms(1)] by (cases "lookup r m") auto
  with True reg.lookup_kept_registers [OF assms(1) this] show ?thesis by (simp add: resolve_def)
qed (simp add: resolve_def)

lemma build_node_configured:
  assumes "registry_ok r" and "build_node api rp n r = (Inr node, r')" and "r'' = foldl register r' nss"
  shows "configured rp r'' n node"
proof -
  obtain spec percent table where p: "parse_file rp (cn_provider_pricing_path n) = Inr (spec, percent)"
    and t: "ProviderCostTable_new spec r = (table, r')"
    and node: "RpcNode_new api \<lparr>nn_name = cn_name n, nn_url = cn_url n, nn_rps_limit = cn_rps_limit n,
      nn_max_concurrent = cn_max_concurrent n, nn_tier = cn_tier n, nn_method_costs = table,
      nn_monthly_limit = cn_monthly_limit n, nn_spillover_percent = percent, nn_reset_day = cn_reset_day n\<rparr> = Inr node"
    using assms(2) by (auto simp: build_node_def load_from_path_def split: sum.splits prod.splits)
  note r' = ProviderCostTable_new_costs(1) [OF t]
  have ok: "registry_ok r'" using assms(1) by (simp add: r' registry_ok_register)
  have "cost table (resolve r'' m) = price_of spec m"
    if "cost_spec_ok spec" "get_standard_method_id m \<noteq> Unknown \<or> m \<in> fst ` set (custom spec)" for m
  proof -
    have "resolve r'' m = resolve r' m"
      using that(2) unfolding assms(3) by (intro resolve_kept [OF ok]) (auto simp: r' set_names_register)
    with cost_table_price [OF assms(1) that(1) t] show ?thesis by simp
  qed
  then have prices: "cost_spec_ok spec \<longrightarrow> (\<forall>m. get_standard_method_id m \<noteq> Unknown \<or> m \<in> fst ` set (custom spec) \<longrightarrow>
      cost table (resolve r'' m) = price_of spec m)" by blast
  have fields: "node_name node = cn_name n" "tier node = cn_tier n" "reset_day node = cn_reset_day n"
    "metrics node = NodeMetrics_new (cn_name n)" "ema_us node = UNMEASURED" "until_s node = 0"
    "method_costs node = table" "spillover_threshold node = spillover_of (cn_monthly_limit n) percent"
    using node by (auto simp: RpcNode_new_def split: if_splits option.splits)
  show ?thesis unfolding configured_def fields using p prices by blast
qed

lemma build_nodes_configured:
  "registry_ok r \<Longrightarrow> build_nodes api rp ns r = (Inr built, r') \<Longrightarrow> r'' = foldl register r' nss \<Longrightarrow>
     list_all2 (configured rp r'') ns built"
proof (induction ns arbitrary: r built)
  case (Cons n ns)
  then obtain node r1 rest where n: "build_node api rp n r = (Inr node, r1)"
    and rest: "build_nodes api rp ns r1 = (Inr rest, r')" and b: "built = node # rest"
    by (auto split: sum.splits prod.splits)
  have ok: "registry_ok r1"
    using build_node_registry [OF n] Cons.prems(1) by (auto intro: registry_ok_register)
  obtain nss' where "r' = foldl register r1 nss'" using build_nodes_registry [OF rest] by blast
  then have "r'' = foldl register r1 (nss' @ nss)" using Cons.prems(3) by simp
  from build_node_configured [OF Cons.prems(1) n this] Cons.IH [OF ok rest Cons.prems(3)] b
  show ?case by simp
qed simp

lemma build_nodes_registry_ok: "registry_ok r \<Longrightarrow> build_nodes api rp ns r = (res, r') \<Longrightarrow> registry_ok r'"
  using build_nodes_registry reg.invar_registers by blast

lemma build_nodes_metrics:
  assumes "registry_ok r" and "build_nodes api rp ns r = (Inr built, r')"
  shows "\<forall>n \<in> set built. metrics n = NodeMetrics_new (node_name n)"
proof -
  have "list_all2 (configured rp r') ns built"
    using build_nodes_configured [OF assms, of r' "[]"] by simp
  then show ?thesis by (induction rule: list_all2_induct) (auto simp: configured_def)
qed

section \<open>Every string has a reading\<close>

definition has_brace :: "string \<Rightarrow> bool" where
  "has_brace s \<longleftrightarrow> (\<exists>a b. s = a @ ''${'' @ b)"

lemma has_brace_suffix: "has_brace s \<Longrightarrow> has_brace (pre @ s)"
  unfolding has_brace_def by (metis append.assoc)

lemma has_brace_char: "has_brace s \<Longrightarrow> CHR ''{'' \<in> set s"
  by (auto simp: has_brace_def)

lemma not_continues_dropWhile: "\<not> continues_name (dropWhile name_byte s)"
  by (induction s) (auto simp: continues_name_def)

lemma reading_exists: "\<not> has_brace s \<Longrightarrow> \<exists>ps. pieces_ok ps \<and> render ps = s"
proof (induction s rule: length_induct)
  case (1 s)
  show ?case
  proof (cases s)
    case Nil
    then show ?thesis by (intro exI [of _ "[]"]) simp
  next
    case (Cons c s')
    let ?v = "takeWhile name_byte s'" and ?rest = "dropWhile name_byte s'"
    have nb: "\<not> has_brace s'" using "1.prems" has_brace_suffix [of s' "[c]"] Cons by auto
    then have nb': "\<not> has_brace ?rest" using has_brace_suffix [of ?rest ?v] by auto
    consider "c \<noteq> CHR ''$''" | "c = CHR ''$''" "?v = []" | "c = CHR ''$''" "?v \<noteq> []" by blast
    then show ?thesis
    proof cases
      case 1
      from "1.IH" nb Cons obtain ps where "pieces_ok ps" "render ps = s'" by auto
      with 1 Cons show ?thesis by (intro exI [of _ "Lit c # ps"]) simp
    next
      case 2
      from "1.IH" nb Cons obtain ps where ps: "pieces_ok ps" "render ps = s'" by auto
      have "take 1 s' \<noteq> ''{''"
      proof
        assume "take 1 s' = ''{''"
        then have "s = [] @ ''${'' @ drop 1 s'" using 2 Cons by (cases s') auto
        with "1.prems" show False unfolding has_brace_def by blast
      qed
      moreover have "\<not> continues_name s'" using 2(2) by (cases s') (auto simp: continues_name_def)
      ultimately show ?thesis using ps 2 Cons by (intro exI [of _ "Dollar # ps"]) simp
    next
      case 3
      have "length ?rest < length s" using Cons length_dropWhile_le [of name_byte s'] by simp
      with "1.IH" nb' obtain ps where ps: "pieces_ok ps" "render ps = ?rest" by blast
      have "list_all name_byte ?v" by (auto simp: list_all_iff dest: set_takeWhileD)
      with 3 ps Cons not_continues_dropWhile [of s'] show ?thesis
        by (intro exI [of _ "Ref ?v # ps"]) simp
    qed
  qed
qed

section \<open>Properties\<close>

text \<open>
  C31. The substitution of environment variables is exactly the one on tokens. A config string
  without the braced form has a reading as characters, lone dollar signs and references with
  maximal names, and under every such reading the result is each reference replaced by its value,
  or the error that names the first variable that is not set.
\<close>

theorem resolve_env_substitutes:
  assumes "\<not> has_brace s"
  shows "(\<exists>ps. pieces_ok ps \<and> render ps = s) \<and>
    (\<forall>ps. pieces_ok ps \<and> render ps = s \<longrightarrow> resolve_env env s = substitute env ps)"
proof -
  have "resolve_env env (render ps) = substitute env ps" if "pieces_ok ps" for ps
    using resolve_loop_render [OF that, of env "render ps" "[]"]
    by (simp add: resolve_env_def substitute_def split: option.splits)
  with reading_exists [OF assms] show ?thesis by blast
qed

theorem resolve_env_substitutes_witness:
  "resolve_env [''KEY'' \<mapsto> ''abc''] ''/v1/$KEY/$'' = Inr ''/v1/abc/$''"
proof -
  let ?ps = "map Lit ''/v1/'' @ [Ref ''KEY'', Lit CHR ''/'', Dollar]"
  have "CHR ''{'' \<notin> set ''/v1/$KEY/$''" by simp
  then have "\<not> has_brace ''/v1/$KEY/$''"
    using has_brace_char by blast
  moreover have "pieces_ok ?ps" "render ?ps = ''/v1/$KEY/$''"
    by (simp_all add: continues_name_def name_byte_def)
  moreover have "substitute [''KEY'' \<mapsto> ''abc''] ?ps = Inr ''/v1/abc/$''"
    by (simp add: substitute_def)
  ultimately show ?thesis using resolve_env_substitutes by metis
qed

text \<open>
  A braced reference anywhere in a config string is an error, whatever stands around it and
  whatever the environment holds. It is not passed through.
\<close>

lemma brace_reference_refused:
  "\<exists>e. resolve_env env (a @ ''${'' @ b) = Inl e"
  unfolding resolve_env_def by (rule resolve_loop_brace [OF refl])

text \<open>
  C22. A config that loads yields valid nodes: one per entry and in its order, with the name of the
  entry, a reset day between 1 and 31, a threshold that is the entry's limit (never zero) times a
  percentage of the provider file between 1 and 100, no measurement and no penalty; and for every
  built-in method and every method the provider file names, the node charges the price of that
  file under the ids the registry has after all files were read.
\<close>

theorem configured_nodes_valid:
  assumes "Settings_load env read_settings = Inr st" and "registry_ok r"
    and "build_nodes api read_pricing (nodes st) r = (Inr built, r')"
  shows "list_all2 (\<lambda>n node. configured read_pricing r' n node \<and> 1 \<le> reset_day node \<and> reset_day node \<le> 31 \<and>
      cn_monthly_limit n \<noteq> 0 \<and>
      (\<exists>spec percent. parse_file read_pricing (cn_provider_pricing_path n) = Inr (spec, percent) \<and>
         1 \<le> percent \<and> percent \<le> 100)) (nodes st) built
    \<and> registry_ok r'"
proof -
  have "list_all2 (configured read_pricing r') (nodes st) built"
    using build_nodes_configured [OF assms(2,3), of r' "[]"] by simp
  then have "list_all2 (\<lambda>n node. configured read_pricing r' n node \<and> 1 \<le> reset_day node \<and> reset_day node \<le> 31 \<and>
      cn_monthly_limit n \<noteq> 0 \<and>
      (\<exists>spec percent. parse_file read_pricing (cn_provider_pricing_path n) = Inr (spec, percent) \<and>
         1 \<le> percent \<and> percent \<le> 100)) (nodes st) built"
    by (rule list.rel_mono_strong)
      (use Settings_load_ok [OF assms(1)] in \<open>auto simp: configured_def dest: parse_file_ok\<close>)
  then show ?thesis using build_nodes_registry_ok [OF assms(2,3)] by simp
qed

definition demo_raw :: raw_settings where
  "demo_raw = \<lparr>raw_port = 8080, raw_host = ''localhost'', raw_enable_metrics = None,
     raw_nodes = [\<lparr>raw_name = ''a'', raw_url = ''http://a'', raw_tier = 1, raw_rps_limit = 5,
       raw_max_concurrent = 2, raw_monthly_limit = 0, raw_pricing_path = ''p.toml'', raw_reset_day = None\<rparr>]\<rparr>"

definition demo_provider :: raw_provider where
  "demo_provider = \<lparr>raw_routing = [], raw_custom = Some [(''fast_call'', 3)], raw_limits_table = None\<rparr>"

lemma demo_settings_load:
  "Settings_load [''CONFIG_PATH'' \<mapsto> ''c''] (\<lambda>_. Some demo_raw) = Inr \<lparr>
     server = \<lparr>port = 8080, host = ''localhost'', enable_metrics = False\<rparr>,
     nodes = [\<lparr>cn_name = ''a'', cn_url = ''http://a'', cn_tier = 1, cn_rps_limit = 5, cn_max_concurrent = 2,
       cn_monthly_limit = u64_MAX, cn_provider_pricing_path = ''p.toml'', cn_reset_day = 1\<rparr>]\<rparr>"
  by code_simp

lemma demo_build_nodes:
  "\<exists>node r'. build_nodes demo_api (\<lambda>_. Some demo_provider)
     [\<lparr>cn_name = ''a'', cn_url = ''http://a'', cn_tier = 1, cn_rps_limit = 5, cn_max_concurrent = 2,
       cn_monthly_limit = u64_MAX, cn_provider_pricing_path = ''p.toml'', cn_reset_day = 1\<rparr>]
     CustomMethods_default = (Inr [node], r') \<and> node_name node = ''a''"
  by (simp add: build_node_def load_from_path_def parse_file_def deserialize_provider_def demo_provider_def
      DEFAULT_SPILLOVER_PERCENT_def RpcNode_new_def demo_api_def split: prod.split)

theorem configured_nodes_valid_witness:
  "\<exists>node r'. build_nodes demo_api (\<lambda>_. Some demo_provider)
     [\<lparr>cn_name = ''a'', cn_url = ''http://a'', cn_tier = 1, cn_rps_limit = 5, cn_max_concurrent = 2,
       cn_monthly_limit = u64_MAX, cn_provider_pricing_path = ''p.toml'', cn_reset_day = 1\<rparr>]
     CustomMethods_default = (Inr [node], r') \<and> node_name node = ''a'' \<and> registry_ok r'"
proof -
  obtain node r' where b: "build_nodes demo_api (\<lambda>_. Some demo_provider)
     [\<lparr>cn_name = ''a'', cn_url = ''http://a'', cn_tier = 1, cn_rps_limit = 5, cn_max_concurrent = 2,
       cn_monthly_limit = u64_MAX, cn_provider_pricing_path = ''p.toml'', cn_reset_day = 1\<rparr>]
     CustomMethods_default = (Inr [node], r')" using demo_build_nodes by blast
  with configured_nodes_valid [OF demo_settings_load registry_ok_default, of demo_api "\<lambda>_. Some demo_provider"]
  show ?thesis by (auto simp: configured_def)
qed

end
