(* ===== verification/Rpc_Payload.thy ===== *)
theory Rpc_Payload
  imports Prelude
begin

text \<open>
  The parts of a JSON-RPC message the balancer reads (\<open>src/protocol/rpc_payload.rs\<close>). The types of
  the response side are \<open>rpc_error\<close> and \<open>rpc_error_only\<close> here, used by the upstream component; the
  request side is \<open>parse_incoming\<close>, which tells a single call from a batch. The two full parses by
  \<open>serde_json\<close> are parameters.
\<close>

section \<open>Responses\<close>

record rpc_error =
  code :: i32

record rpc_error_only =
  error_field :: "rpc_error option"

section \<open>Requests\<close>

datatype incoming_payload = Single bytes | Batch "bytes list"

datatype payload_error = InvalidObject | InvalidArray | NotAPayload

fun payload_error_text :: "payload_error \<Rightarrow> string" where
  "payload_error_text InvalidObject = ''Invalid JSON object''"
| "payload_error_text InvalidArray = ''Invalid JSON array''"
| "payload_error_text NotAPayload = ''Payload must start with '' @ [CHR 0x27] @ ''{'' @ [CHR 0x27] @ '' or '' @ [CHR 0x27] @ ''['' @ [CHR 0x27]"

text \<open>\<open>u8::is_ascii_whitespace\<close>\<close>

definition is_ascii_whitespace :: "char \<Rightarrow> bool" where
  "is_ascii_whitespace b \<longleftrightarrow> of_char b \<in> {0x20, 0x09, 0x0A, 0x0C, 0x0D :: nat}"

definition parse_incoming ::
  "(bytes \<Rightarrow> bytes option) \<Rightarrow> (bytes \<Rightarrow> bytes list option) \<Rightarrow> bytes \<Rightarrow> payload_error + incoming_payload" where
  "parse_incoming from_slice_raw from_slice_vec payload =
     (let first_byte = find (\<lambda>b. \<not> is_ascii_whitespace b) payload
      in if first_byte = Some CHR ''{'' then
           (case from_slice_raw payload of Some raw \<Rightarrow> Inr (Single raw) | None \<Rightarrow> Inl InvalidObject)
         else if first_byte = Some CHR ''['' then
           (case from_slice_vec payload of Some batch \<Rightarrow> Inr (Batch batch) | None \<Rightarrow> Inl InvalidArray)
         else Inl NotAPayload)"

lemma find_after_blank:
  "list_all P w \<Longrightarrow> \<not> P x \<Longrightarrow> find (\<lambda>b. \<not> P b) (w @ x # s) = Some x"
  by (induction w) auto

text \<open>The kind of a payload is decided by its first byte that is not a blank.\<close>

lemma parse_incoming_kind:
  assumes "list_all is_ascii_whitespace w" and "\<not> is_ascii_whitespace x"
    and "parse_incoming raw vec (w @ x # s) = Inr p"
  shows "case p of Single _ \<Rightarrow> x = CHR ''{'' | Batch _ \<Rightarrow> x = CHR ''[''"
  using assms find_after_blank [OF assms(1,2), of s]
  by (auto simp: parse_incoming_def split: if_splits option.splits)

end
