(* ===== verification/Upstream.thy ===== *)
theory Upstream
  imports Node Rpc_Payload
begin

text \<open>
  One attempt against one upstream (\<open>src/core/upstream.rs\<close>): what the answer means for the request and what it says
  about the node. The network's answer is an argument. An attempt touches the node only after
  its last await, so its effect is one function of the node as it is then; the two clock
  readings of that moment are arguments. A duration is in nanoseconds, the histogram's
  conversion to floating-point seconds is left to the exporter.

  The crates are parameters (\<^verbatim>\<open>wire_api\<close>): the header value's \<open>to_str\<close>, \<open>is_success\<close> of the
  status, the \<open>memmem\<close> search for the error key and the deserialisation of the error field.
\<close>

section \<open>Responses\<close>

record response =
  resp_status :: u16
  resp_retry_after :: "bytes option"
  resp_body :: "bytes option"

record wire_api =
  to_str :: "bytes \<Rightarrow> string option"
  is_success :: "u16 \<Rightarrow> bool"
  error_key_find :: "bytes \<Rightarrow> nat option"
  from_slice_error :: "bytes \<Rightarrow> rpc_error_only option"

datatype attempt_result = Done u16 bytes | Retry

definition ATTEMPT_TIMEOUT :: duration where
  "ATTEMPT_TIMEOUT = 500 * 10 ^ 6"

definition VALIDATE_BELOW :: nat where
  "VALIDATE_BELOW = 512"

definition TOO_MANY_REQUESTS :: u16 where
  "TOO_MANY_REQUESTS = 429"

section \<open>Classification\<close>

definition retry_after_secs :: "wire_api \<Rightarrow> response \<Rightarrow> u32" where
  "retry_after_secs wire resp =
     (case resp_retry_after resp of None \<Rightarrow> 0
      | Some v \<Rightarrow> (case to_str wire v of None \<Rightarrow> 0
         | Some s \<Rightarrow> (case parse_u32 (trim s) of None \<Rightarrow> 0 | Some n \<Rightarrow> n)))"

definition is_final_status :: "u16 \<Rightarrow> bool" where
  "is_final_status status \<longleftrightarrow>
     status = 400 \<or> status = 402 \<or> (404 \<le> status \<and> status \<le> 418) \<or>
     (421 \<le> status \<and> status \<le> 426) \<or> status = 428 \<or> status = 431 \<or> status = 451"

definition is_retryable_json_rpc_error :: "i32 \<Rightarrow> bool" where
  "is_retryable_json_rpc_error error_code \<longleftrightarrow>
     error_code \<notin> set [-32700, -32601, -32602, -32600]"

text \<open>
  \<open>at\<close> is the clock reading of \<open>penalize\<close>, \<open>elapsed\<close> the round trip read for the metrics.
\<close>

definition classify_response ::
  "wire_api \<Rightarrow> instant \<Rightarrow> instant \<Rightarrow> duration \<Rightarrow> ('l, 's, 'u) rpc_node \<Rightarrow> response
     \<Rightarrow> attempt_result \<times> metric_op list \<times> ('l, 's, 'u) rpc_node" where
  "classify_response wire EPOCH at elapsed node resp =
     (let status_code = resp_status resp;
          retry_after_s = (if status_code = TOO_MANY_REQUESTS then retry_after_secs wire resp else 0);
          now_s = seconds_since_start EPOCH at;
          m = metrics node
      in case resp_body resp of
        None \<Rightarrow> (Retry, record_attempt m BodyError elapsed, penalize now_s 0 node)
      | Some body \<Rightarrow>
          if is_final_status status_code then
            (Done status_code body, record_attempt m ForwardedHttpError elapsed, node)
          else
            let settled =
              (if length body \<le> VALIDATE_BELOW \<or> error_key_find wire body \<noteq> None then
                 (case from_slice_error wire body of
                    None \<Rightarrow> Some (Retry, record_attempt m InvalidJson elapsed,
                                 penalize now_s retry_after_s node)
                  | Some parse_error \<Rightarrow>
                      (case error_field parse_error of
                         None \<Rightarrow> None
                       | Some err \<Rightarrow>
                           if \<not> is_retryable_json_rpc_error (code err) then
                             Some (Done status_code body, record_attempt m ForwardedRpcError elapsed, node)
                           else
                             Some (Retry, record_attempt m RetryableRpcError elapsed,
                                   penalize now_s retry_after_s node)))
               else None)
            in case settled of
              Some r \<Rightarrow> r
            | None \<Rightarrow>
                if is_success wire status_code then
                  (Done status_code body, record_attempt m Success elapsed, observe_answer elapsed node)
                else
                  (Done status_code body, record_attempt m ForwardedHttpError elapsed,
                   penalize now_s retry_after_s node))"

text \<open>\<open>sent\<close> is what \<open>send().await\<close> returned: a response, or a transport error.\<close>

definition attempt ::
  "wire_api \<Rightarrow> instant \<Rightarrow> instant \<Rightarrow> duration \<Rightarrow> ('l, 's, 'u) rpc_node \<Rightarrow> response option
     \<Rightarrow> attempt_result \<times> metric_op list \<times> ('l, 's, 'u) rpc_node" where
  "attempt wire EPOCH at elapsed node sent =
     (case sent of
        Some resp \<Rightarrow> classify_response wire EPOCH at elapsed node resp
      | None \<Rightarrow>
          (Retry, record_attempt (metrics node) TransportError elapsed,
           penalize (seconds_since_start EPOCH at) 0 node))"

section \<open>The branches of an attempt\<close>

text \<open>The reference table: the outcome an answer falls under.\<close>

definition outcome_of :: "wire_api \<Rightarrow> response option \<Rightarrow> outcome" where
  "outcome_of wire sent =
     (case sent of None \<Rightarrow> TransportError
      | Some resp \<Rightarrow>
          (case resp_body resp of None \<Rightarrow> BodyError
           | Some body \<Rightarrow>
               if is_final_status (resp_status resp) then ForwardedHttpError
               else if (length body \<le> VALIDATE_BELOW \<or> error_key_find wire body \<noteq> None) \<and>
                       from_slice_error wire body = None then InvalidJson
               else (case (if length body \<le> VALIDATE_BELOW \<or> error_key_find wire body \<noteq> None
                           then Option.bind (from_slice_error wire body) error_field else None) of
                       Some err \<Rightarrow> (if is_retryable_json_rpc_error (code err)
                                   then RetryableRpcError else ForwardedRpcError)
                     | None \<Rightarrow> (if is_success wire (resp_status resp)
                               then Success else ForwardedHttpError))))"

definition retryable_outcome :: "outcome \<Rightarrow> bool" where
  "retryable_outcome oc \<longleftrightarrow> oc \<in> {TransportError, BodyError, InvalidJson, RetryableRpcError}"

definition verdict_of :: "wire_api \<Rightarrow> response option \<Rightarrow> attempt_result" where
  "verdict_of wire sent =
     (if retryable_outcome (outcome_of wire sent) then Retry
      else Done (resp_status (the sent)) (the (resp_body (the sent))))"

text \<open>The cooldown an upstream asked for: a \<open>Retry-After\<close> header counts on a 429 only.\<close>

definition asked_cooldown :: "wire_api \<Rightarrow> response option \<Rightarrow> u32" where
  "asked_cooldown wire sent =
     (case sent of None \<Rightarrow> 0
      | Some resp \<Rightarrow>
          if resp_status resp = TOO_MANY_REQUESTS \<and> resp_body resp \<noteq> None
          then retry_after_secs wire resp else 0)"

definition rejection :: "wire_api \<Rightarrow> response option \<Rightarrow> bool" where
  "rejection wire sent \<longleftrightarrow> outcome_of wire sent = ForwardedRpcError \<or>
     outcome_of wire sent = ForwardedHttpError \<and> is_final_status (resp_status (the sent))"

definition health_of ::
  "wire_api \<Rightarrow> u32 \<Rightarrow> duration \<Rightarrow> response option \<Rightarrow> ('l, 's, 'u) rpc_node \<Rightarrow> ('l, 's, 'u) rpc_node" where
  "health_of wire now_s elapsed sent node =
     (if rejection wire sent then node
      else if outcome_of wire sent = Success then observe_answer elapsed node
      else penalize now_s (asked_cooldown wire sent) node)"

lemmas attempt_unfold =
  attempt_def classify_response_def outcome_of_def verdict_of_def health_of_def rejection_def
  retryable_outcome_def asked_cooldown_def Let_def

lemma attempt_by_outcome:
  "attempt wire E at el node sent =
     (verdict_of wire sent, record_attempt (metrics node) (outcome_of wire sent) el,
      health_of wire (seconds_since_start E at) el sent node)"
proof (cases sent)
  case None
  then show ?thesis by (simp add: attempt_unfold)
next
  case S: (Some resp)
  show ?thesis
  proof (cases "resp_body resp")
    case None
    with S show ?thesis by (simp add: attempt_unfold)
  next
    case B: (Some body)
    let ?parsed = "length body \<le> VALIDATE_BELOW \<or> error_key_find wire body \<noteq> None"
    consider "is_final_status (resp_status resp)"
      | "\<not> is_final_status (resp_status resp)" "\<not> ?parsed"
      | "\<not> is_final_status (resp_status resp)" ?parsed "from_slice_error wire body = None"
      | pe where "\<not> is_final_status (resp_status resp)" ?parsed
          "from_slice_error wire body = Some pe" "error_field pe = None"
      | pe err where "\<not> is_final_status (resp_status resp)" ?parsed
          "from_slice_error wire body = Some pe" "error_field pe = Some err"
      by (cases "from_slice_error wire body") (blast, metis option.exhaust)
    then show ?thesis
    proof cases
      case 1
      with S B show ?thesis by (simp add: attempt_unfold)
    next
      case 2
      with S B show ?thesis by (simp add: attempt_unfold)
    next
      case 3
      with S B show ?thesis by (simp add: attempt_unfold del: disj_not1)
    next
      case 4
      with S B show ?thesis by (simp add: attempt_unfold)
    next
      case 5
      with S B show ?thesis by (simp add: attempt_unfold)
    qed
  qed
qed

lemma outcome_of_answered:
  "\<not> retryable_outcome (outcome_of wire sent) \<Longrightarrow> \<exists>resp body. sent = Some resp \<and> resp_body resp = Some body"
  by (cases sent; cases "resp_body (the sent)") (auto simp: outcome_of_def retryable_outcome_def)

lemma attempt_frame:
  assumes "attempt wire E at el node sent = (res, ops, node')"
  shows "same_config node node' \<and> limits node' = limits node"
  using assms by (auto simp: attempt_by_outcome health_of_def)

section \<open>Reading a Retry-After header\<close>

lemma parse_digits_append:
  "parse_digits acc (xs @ ys) = Option.bind (parse_digits acc xs) (\<lambda>a. parse_digits a ys)"
  by (induction acc xs rule: parse_digits.induct) (simp_all split: option.splits)

lemma of_char_digit: "d < 10 \<Longrightarrow> of_char (digit_char d) = 48 + d"
  by (simp add: digit_char_def)

lemma digit_value_digit_char: "d < 10 \<Longrightarrow> digit_value (digit_char d) = Some d"
  by (simp add: digit_value_def of_char_digit)

lemma parse_digits_decimal: "n < 2 ^ 32 \<Longrightarrow> parse_digits 0 (decimal n) = Some n"
proof (induction n rule: decimal.induct)
  case (1 n)
  show ?case
  proof (cases "n < 10")
    case True
    then show ?thesis by (simp add: decimal.simps [of n] digit_value_digit_char)
  next
    case False
    moreover have "parse_digits 0 (decimal (n div 10)) = Some (n div 10)"
      using 1 False by simp
    ultimately show ?thesis
      using "1.prems" by (simp add: decimal.simps [of n] parse_digits_append digit_value_digit_char)
  qed
qed

lemma decimal_digits: "c \<in> set (decimal n) \<Longrightarrow> \<exists>d < 10. c = digit_char d"
proof (induction n rule: decimal.induct)
  case (1 n)
  show ?case
  proof (cases "n < 10")
    case True
    with "1.prems" show ?thesis by (auto simp: decimal.simps [of n])
  next
    case False
    with "1.prems" have "c \<in> set (decimal (n div 10)) \<or> c = digit_char (n mod 10)"
      by (auto simp: decimal.simps [of n])
    moreover have "n mod 10 < 10" by simp
    ultimately show ?thesis using 1 False by blast
  qed
qed

lemma decimal_not_Nil: "decimal n \<noteq> []"
  by (simp add: decimal.simps [of n])

lemma decimal_plain: "c \<in> set (decimal n) \<Longrightarrow> \<not> ascii_ws c \<and> c \<noteq> CHR ''+''"
proof -
  assume "c \<in> set (decimal n)"
  then obtain d where d: "d < 10" "c = digit_char d" using decimal_digits by blast
  then have oc: "of_char c = 48 + d" by (simp add: of_char_digit)
  have "c \<noteq> CHR ''+''"
  proof
    assume "c = CHR ''+''"
    then have "of_char c = (43 :: nat)" by simp
    with oc show False by simp
  qed
  with oc d show ?thesis by (simp add: ascii_ws_def)
qed

lemma parse_u32_decimal: "n < 2 ^ 32 \<Longrightarrow> parse_u32 (decimal n) = Some (of_nat n)"
  using parse_digits_decimal [of n] decimal_not_Nil [of n] decimal_plain [of _ n]
  by (cases "decimal n") (auto simp: parse_u32_def)

lemma dropWhile_ws: "\<forall>c \<in> set ws. P c \<Longrightarrow> dropWhile P (ws @ xs) = dropWhile P xs"
  by (induction ws) auto

lemma dropWhile_plain: "\<forall>c \<in> set xs. \<not> P c \<Longrightarrow> dropWhile P xs = xs"
  by (cases xs) auto

lemma trim_padded:
  assumes "\<forall>c \<in> set ws. ascii_ws c" "\<forall>c \<in> set ws'. ascii_ws c" "\<forall>c \<in> set xs. \<not> ascii_ws c" "xs \<noteq> []"
  shows "trim (ws @ xs @ ws') = xs"
proof -
  have "dropWhile ascii_ws (xs @ ws') = xs @ ws'" using assms(3,4) by (cases xs) auto
  then show ?thesis using assms by (simp add: trim_def dropWhile_ws dropWhile_plain)
qed

section \<open>A concrete wire\<close>

text \<open>
  A reader that knows three bodies: an error page, a retryable error and an answer.
\<close>

definition demo_wire :: wire_api where
  "demo_wire = \<lparr>to_str = Some, is_success = (\<lambda>s. 200 \<le> s \<and> s < 300),
     error_key_find = (\<lambda>b. if b = ''busy'' then Some 0 else None),
     from_slice_error = (\<lambda>b. if b = ''busy'' then Some \<lparr>error_field = Some \<lparr>code = -32000\<rparr>\<rparr>
       else if b = ''ok'' then Some \<lparr>error_field = None\<rparr> else None)\<rparr>"

definition demo_response :: "u16 \<Rightarrow> bytes \<Rightarrow> response" where
  "demo_response status body =
     \<lparr>resp_status = status, resp_retry_after = Some '' 30'', resp_body = Some body\<rparr>"

section \<open>Properties\<close>

text \<open>
  Every attempt is recorded exactly once: whatever the upstream does, one counter and one
  histogram of the node are touched, under one and only one outcome label.
\<close>

lemma one_attempt_recorded:
  assumes "attempt wire EPOCH at elapsed node sent = (res, ops, node')"
    and "metrics node = NodeMetrics_new (node_name node)"
  shows "\<exists>!oc. ops = record_attempt (metrics node) oc elapsed"
proof (rule ex1I)
  show "ops = record_attempt (metrics node) (outcome_of wire sent) elapsed"
    using assms(1) by (simp add: attempt_by_outcome)
  then show "oc = outcome_of wire sent" if "ops = record_attempt (metrics node) oc elapsed" for oc
    using that assms(2) by (simp add: record_attempt_new outcome_label_inj)
qed

text \<open>
  The reference for an attempt: the statuses that settle a request, what a body says (it is not
  JSON, or it carries an error with a code, or it carries none or is too long to be looked at),
  and a node that is taken out of rotation for a number of seconds and otherwise left alone.
\<close>

definition request_faults :: "u16 list" where
  "request_faults = [400, 402, 404, 405, 406, 407, 408, 409, 410, 411, 412, 413, 414, 415, 416, 417, 418,
     421, 422, 423, 424, 425, 426, 428, 431, 451]"

lemma is_final_status_iff: "is_final_status s \<longleftrightarrow> s \<in> set request_faults"
proof -
  have "(404 \<le> n \<and> n \<le> 418 \<longleftrightarrow> n \<in> {404, 405, 406, 407, 408, 409, 410, 411, 412, 413, 414, 415, 416, 417, 418})
    \<and> (421 \<le> n \<and> n \<le> 426 \<longleftrightarrow> n \<in> {421, 422, 423, 424, 425, 426})" for n :: nat
    unfolding insert_iff empty_iff by presburger
  from this [of "unat s"] show ?thesis
    by (simp add: is_final_status_def request_faults_def word_le_nat_alt word_unat_eq_iff)
qed

definition body_says :: "wire_api \<Rightarrow> bytes \<Rightarrow> unit + i32 option" where
  "body_says wire body =
     (if length body \<le> 512 \<or> error_key_find wire body \<noteq> None
      then (case from_slice_error wire body of
              None \<Rightarrow> Inl () | Some p \<Rightarrow> Inr (map_option code (error_field p)))
      else Inr None)"

definition out_of_rotation :: "nat \<Rightarrow> nat \<Rightarrow> ('l, 's, 'u) rpc_node \<Rightarrow> ('l, 's, 'u) rpc_node \<Rightarrow> bool" where
  "out_of_rotation now secs node node' \<longleftrightarrow>
     node' = node\<lparr>until_s := until_s node'\<rparr> \<and> unat (until_s node') = now + 1 + secs"

lemma out_of_rotation_penalize:
  assumes "unat now + 302 < 2 ^ 32"
  shows "out_of_rotation (unat now) (max 5 (min (unat r) 300)) node (penalize now r node)"
  using assms unat_until_s [of now r node]
  by (simp add: out_of_rotation_def unat_penalty_seconds) (simp add: penalize_def)

text \<open>
  C26. The verdict on every answer, and what it does to the node. Without an answer or with a
  body cut short the request goes on to another node, and this one is out of rotation for 5
  seconds. Otherwise two questions are settled apart. A status that is the request's own fault,
  and an error object with one of the four codes every node would give, are forwarded byte for
  byte and leave the node exactly as it was. A body that is not JSON or carries any other error
  sends the request on, a body without an error is forwarded byte for byte; in both cases the
  node is out of rotation for 5 seconds, or on a 429 for the seconds its \<open>Retry-After\<close> asked
  for, between 5 and 300, unless the answer is a success without an error: only that one
  clears the penalty and moves the latency average, and an answer that puts the node out of
  rotation changes nothing else of it. (The seconds since the start are taken to be small enough
  for the deadline to fit into 32 bits, which they are for more than a century.)
\<close>

theorem verdict_and_health:
  assumes "attempt wire EPOCH at elapsed node sent = (res, ops, node')"
    and "unat (seconds_since_start EPOCH at) + 302 < 2 ^ 32"
  shows "let out = (\<lambda>secs. out_of_rotation (unat (seconds_since_start EPOCH at)) secs node node')
    in case sent of
        None \<Rightarrow> res = Retry \<and> out 5
      | Some resp \<Rightarrow>
          (let status = resp_status resp;
               secs = (if status = 429 then max 5 (min (unat (retry_after_secs wire resp)) 300) else 5)
           in case resp_body resp of
             None \<Rightarrow> res = Retry \<and> out 5
           | Some body \<Rightarrow>
               if status \<in> set request_faults then res = Done status body \<and> node' = node
               else (case body_says wire body of
                   Inl _ \<Rightarrow> res = Retry \<and> out secs
                 | Inr (Some c) \<Rightarrow>
                     if c \<in> {-32700, -32600, -32601, -32602} then res = Done status body \<and> node' = node
                     else res = Retry \<and> out secs
                 | Inr None \<Rightarrow> res = Done status body \<and>
                     (if is_success wire status
                      then node' = node\<lparr>until_s := 0, ema_us := next_ema (ema_us node) (sample_us elapsed)\<rparr>
                      else out secs)))"
proof (cases sent)
  case None
  with assms(1) out_of_rotation_penalize [OF assms(2), of 0 node] show ?thesis by (auto simp: attempt_def Let_def)
next
  case S: (Some resp)
  let ?now = "seconds_since_start EPOCH at"
  let ?asked = "if resp_status resp = 429 then retry_after_secs wire resp else 0"
  show ?thesis
  proof (cases "resp_body resp")
    case None
    with S assms(1) out_of_rotation_penalize [OF assms(2), of 0 node] show ?thesis
      by (auto simp: attempt_def classify_response_def Let_def)
  next
    case B: (Some body)
    have out: "out_of_rotation (unat ?now)
        (if resp_status resp = 429 then max 5 (min (unat (retry_after_secs wire resp)) 300) else 5) node
        (penalize ?now ?asked node)"
      using out_of_rotation_penalize [OF assms(2), of "retry_after_secs wire resp" node]
        out_of_rotation_penalize [OF assms(2), of 0 node] by simp
    have codes: "is_retryable_json_rpc_error c \<longleftrightarrow> c \<notin> {-32700, -32600, -32601, -32602}" for c
      by (auto simp: is_retryable_json_rpc_error_def)
    have "attempt wire EPOCH at elapsed node sent = classify_response wire EPOCH at elapsed node resp"
      by (simp add: attempt_def S)
    with assms(1) have c: "classify_response wire EPOCH at elapsed node resp = (res, ops, node')" by simp
    show ?thesis
    proof (cases "is_final_status (resp_status resp)")
      case True
      with S B c show ?thesis by (simp add: classify_response_def Let_def is_final_status_iff)
    next
      case final: False
      show ?thesis
      proof (cases "body_says wire body")
        case (Inl u)
        with c B final have "res = Retry" "node' = penalize ?now ?asked node"
          by (auto simp: classify_response_def body_says_def VALIDATE_BELOW_def TOO_MANY_REQUESTS_def Let_def
              split: if_splits option.splits)
        with S B out Inl final show ?thesis by (simp add: is_final_status_iff Let_def)
      next
        case (Inr e)
        show ?thesis
        proof (cases e)
          case None
          with c B final Inr have "res = Done (resp_status resp) body"
            "node' = (if is_success wire (resp_status resp) then observe_answer elapsed node
               else penalize ?now ?asked node)"
            by (auto simp: classify_response_def body_says_def VALIDATE_BELOW_def TOO_MANY_REQUESTS_def Let_def
                split: if_splits option.splits)
          with S B out Inr None final show ?thesis
            by (simp add: is_final_status_iff observe_answer_def Let_def)
        next
          case (Some k)
          with c B final Inr have "if is_retryable_json_rpc_error k then res = Retry \<and> node' = penalize ?now ?asked node
              else res = Done (resp_status resp) body \<and> node' = node"
            by (auto simp: classify_response_def body_says_def VALIDATE_BELOW_def TOO_MANY_REQUESTS_def Let_def
                split: if_splits option.splits)
          with S B out Inr Some final show ?thesis
            unfolding codes by (auto simp: is_final_status_iff Let_def)
        qed
      qed
    qed
  qed
qed

theorem verdict_and_health_witness:
  "case attempt demo_wire 0 0 7 demo_node (Some (demo_response 200 ''busy'')) of
     (res, ops, node') \<Rightarrow> res = Retry \<and> unat (until_s node') = 6"
proof -
  obtain res ops node' where a:
    "attempt demo_wire 0 0 7 demo_node (Some (demo_response 200 ''busy'')) = (res, ops, node')"
    by (metis prod_cases3)
  have "body_says demo_wire ''busy'' = Inr (Some (-32000))" by (simp add: body_says_def demo_wire_def)
  with verdict_and_health [OF a] a show ?thesis
    by (simp add: seconds_since_start_def u32_try_from_def demo_response_def request_faults_def
        out_of_rotation_def Let_def)
qed

text \<open>
  Only served work is measured: the latency average moves only on a success status whose
  answer is forwarded, and a mere rejection of the request (a final HTTP status, or a JSON-RPC
  error that every node would give) leaves the node exactly as it was, so that a node that
  refuses everything cannot become the fastest of its tier.
\<close>

lemma only_served_answers_measure:
  assumes "attempt wire EPOCH at elapsed node sent = (res, ops, node')"
  shows "(ema_us node' \<noteq> ema_us node \<longrightarrow>
      (\<exists>resp body. sent = Some resp \<and> is_success wire (resp_status resp) \<and>
         \<not> is_final_status (resp_status resp) \<and> res = Done (resp_status resp) body))
    \<and> (\<forall>resp body. sent = Some resp \<and> resp_body resp = Some body \<and>
         is_final_status (resp_status resp) \<longrightarrow> node' = node)
    \<and> (\<forall>resp body e. sent = Some resp \<and> resp_body resp = Some body \<and>
         length body \<le> VALIDATE_BELOW \<and> from_slice_error wire body = Some \<lparr>error_field = Some e\<rparr> \<and>
         \<not> is_retryable_json_rpc_error (code e) \<longrightarrow> node' = node)"
proof -
  have h: "node' = health_of wire (seconds_since_start EPOCH at) elapsed sent node"
    "res = verdict_of wire sent"
    using assms by (simp_all add: attempt_by_outcome)
  have "outcome_of wire sent = Success" if "ema_us node' \<noteq> ema_us node"
    using that h by (auto simp: health_of_def split: if_splits)
  moreover have "\<exists>resp body. sent = Some resp \<and> is_success wire (resp_status resp) \<and>
      \<not> is_final_status (resp_status resp)" if "outcome_of wire sent = Success"
    using that by (auto simp: outcome_of_def split: option.splits if_splits)
  moreover have "res = Done (resp_status (the sent)) (the (resp_body (the sent)))"
    if "outcome_of wire sent = Success"
    using that h by (simp add: verdict_of_def retryable_outcome_def)
  ultimately have measured: "ema_us node' \<noteq> ema_us node \<longrightarrow>
      (\<exists>resp body. sent = Some resp \<and> is_success wire (resp_status resp) \<and>
         \<not> is_final_status (resp_status resp) \<and> res = Done (resp_status resp) body)"
    by fastforce
  have "rejection wire sent" if "sent = Some resp" "resp_body resp = Some body"
    "is_final_status (resp_status resp)" for resp body
    using that by (simp add: rejection_def outcome_of_def)
  moreover have "rejection wire sent" if "sent = Some resp" "resp_body resp = Some body"
    "length body \<le> VALIDATE_BELOW" "from_slice_error wire body = Some \<lparr>error_field = Some e\<rparr>"
    "\<not> is_retryable_json_rpc_error (code e)" for resp body e
    using that by (simp add: rejection_def outcome_of_def)
  ultimately show ?thesis
    using measured h(1) unfolding health_of_def by metis
qed

text \<open>
  A 429 or a 5xx over a plain-text or empty body of at most 512 bytes is retried on
  another node and is not forwarded: the body is always parsed at that size, and it is not
  JSON. The comment above the last branch of \<open>classify_response\<close> describes that branch as the
  one such answers take.
\<close>

lemma short_plain_text_failure_is_retried:
  assumes "\<not> is_final_status (resp_status resp)" and "resp_body resp = Some body"
    and "length body \<le> VALIDATE_BELOW" and "from_slice_error wire body = None"
  shows "attempt wire EPOCH at elapsed node (Some resp) =
    (Retry, record_attempt (metrics node) InvalidJson elapsed,
     penalize (seconds_since_start EPOCH at)
       (if resp_status resp = 429 then retry_after_secs wire resp else 0) node)"
  using assms by (simp add: attempt_def classify_response_def Let_def TOO_MANY_REQUESTS_def)

text \<open>
  A \<open>Retry-After\<close> in delta-seconds is read exactly: every decimal number below 2 to the
  32, with any blanks around it, parses back to itself.
\<close>

lemma retry_after_roundtrip:
  assumes "n < 2 ^ 32" and "\<forall>c \<in> set before. ascii_ws c" and "\<forall>c \<in> set after. ascii_ws c"
    and "resp_retry_after resp = Some v" and "to_str wire v = Some (before @ decimal n @ after)"
  shows "unat (retry_after_secs wire resp) = n"
proof -
  have "trim (before @ decimal n @ after) = decimal n"
    using assms(2,3) decimal_plain decimal_not_Nil by (intro trim_padded) auto
  with assms show ?thesis
    by (simp add: retry_after_secs_def parse_u32_decimal unsigned_of_nat take_bit_nat_eq_self)
qed

end
