(* ===== verification/Router.thy ===== *)
theory Router
  imports Rpc_Client Upstream
begin

text \<open>
  Routing one client request (\<open>src/core/router.rs\<close>). \<open>route\<close> is an async function: between two
  awaits it runs through, and at an await every other task may run. It is modelled as a step
  function on the local variables of the call and a program counter whose values are the
  places where the code loops or awaits. The events say what the outside did: the scheduler ran
  the task (with the two clock readings the limiter needs), the network answered, a sleep ended,
  the semaphore was polled, the global budget expired. One iteration of the walk is one step.

  \<^const>\<open>None\<close> as the result of an admission stands for a panic (an index or a shift out of
  range); as the result of a step, for an event that does not apply in that state.
\<close>

section \<open>Errors of the balancer itself\<close>

datatype route_error = BadRequest | AllNodesFailed | Timeout

definition GLOBAL_TIMEOUT :: duration where
  "GLOBAL_TIMEOUT = 10 ^ 9"

fun status_of :: "route_error \<Rightarrow> u16" where
  "status_of BadRequest = 400"
| "status_of AllNodesFailed = 502"
| "status_of Timeout = 504"

fun body_of :: "route_error \<Rightarrow> bytes" where
  \<open>body_of BadRequest =
     ''{"jsonrpc":"2.0","error":{"code":-32700,"message":"Parse error"},"id":null}''\<close>
| \<open>body_of AllNodesFailed =
     ''{"jsonrpc":"2.0","error":{"code":-32000,"message":"All nodes failed with server/network errors (no rate limits to wait for)"},"id":null}''\<close>
| \<open>body_of Timeout =
     ''{"jsonrpc":"2.0","error":{"code":-32000,"message":"Global timeout exceeded while retrying nodes"},"id":null}''\<close>

fun error_outcome :: "route_error \<Rightarrow> request_outcome" where
  "error_outcome BadRequest = ReqBadRequest"
| "error_outcome AllNodesFailed = ReqBadGateway"
| "error_outcome Timeout = ReqTimeout"

definition error_response :: "route_error \<Rightarrow> u16 \<times> bytes" where
  "error_response e = (status_of e, body_of e)"

section \<open>Finding the method\<close>

definition json_ws :: "char \<Rightarrow> bool" where
  "json_ws b \<longleftrightarrow> b = CHR 0x20 \<or> b = CHR 0x09 \<or> b = CHR 0x0A \<or> b = CHR 0x0D"

definition skip_ws :: "bytes \<Rightarrow> bytes" where
  "skip_ws body =
     drop (case position (\<lambda>b. \<not> json_ws b) body of Some i \<Rightarrow> i | None \<Rightarrow> length body) body"

definition expect_byte :: "char \<Rightarrow> bytes \<Rightarrow> bytes option" where
  "expect_byte byte body =
     (case body of first # rest \<Rightarrow> if first = byte then Some rest else None | [] \<Rightarrow> None)"

definition strip_prefix :: "bytes \<Rightarrow> bytes \<Rightarrow> bytes option" where
  "strip_prefix p s = (if take (length p) s = p then Some (drop (length p) s) else None)"

text \<open>
  The two libraries the scan and its fallback call: the byte search of \<open>memchr\<close>, which finds the
  first occurrence of either byte, and the full parse of the method field by \<open>serde_json\<close>.
\<close>

record body_api =
  memchr2 :: "char \<Rightarrow> char \<Rightarrow> bytes \<Rightarrow> nat option"
  from_slice_method :: "bytes \<Rightarrow> string option"

definition memchr2_ok :: "body_api \<Rightarrow> bool" where
  "memchr2_ok lib \<longleftrightarrow> (\<forall>a b s. memchr2 lib a b s = position (\<lambda>c. c = a \<or> c = b) s)"

definition QUOTE :: char where
  "QUOTE = CHR 0x22"

definition BACKSLASH :: char where
  "BACKSLASH = CHR 0x5C"

definition scan_leading_method :: "body_api \<Rightarrow> bytes \<Rightarrow> string option" where
  "scan_leading_method lib body =
     Option.bind (expect_byte CHR ''{'' (skip_ws body)) (\<lambda>rest.
     Option.bind (expect_byte QUOTE (skip_ws rest)) (\<lambda>rest.
     Option.bind (strip_prefix (''method'' @ [QUOTE]) rest) (\<lambda>rest.
     Option.bind (expect_byte CHR '':'' (skip_ws rest)) (\<lambda>rest.
     Option.bind (expect_byte QUOTE (skip_ws rest)) (\<lambda>rest.
     Option.bind (memchr2 lib QUOTE BACKSLASH rest) (\<lambda>i.
       if rest ! i \<noteq> QUOTE then None else from_utf8 (take i rest)))))))"

definition extract_method :: "body_api \<Rightarrow> bytes \<Rightarrow> route_error + string" where
  "extract_method lib body =
     (case scan_leading_method lib body of
        Some m \<Rightarrow> Inr m
      | None \<Rightarrow> (case from_slice_method lib body of Some m \<Rightarrow> Inr m | None \<Rightarrow> Inl BadRequest))"

section \<open>Admission\<close>

datatype admission = Ready | Skip | AdmRateLimited duration | AdmSaturated

definition set_cell ::
  "nat \<Rightarrow> ('l, 's, 'u) rpc_node \<Rightarrow> ('l, 's, 'u, 'd) rpc_client \<Rightarrow> ('l, 's, 'u, 'd) rpc_client" where
  "set_cell r node c = c\<lparr>cells := (cells c)[r := node]\<rparr>"

text \<open>The permit the caller holds of cell \<open>r\<close> goes back.\<close>

definition release ::
  "('l, 's, 'u) node_api \<Rightarrow> nat \<Rightarrow> ('l, 's, 'u, 'd) rpc_client \<Rightarrow> ('l, 's, 'u, 'd) rpc_client" where
  "release api r c = set_cell r (drop_permit api (cells c ! r)) c"

definition skip_node ::
  "skip_reason \<Rightarrow> nat \<Rightarrow> ('l, 's, 'u, 'd) rpc_client \<Rightarrow> ('l, 's, 'u, 'd) rpc_client" where
  "skip_node reason r c = emit (record_skip (metrics (cells c ! r)) reason) c"

definition book ::
  "('l, 's, 'u) node_api \<Rightarrow> nat \<Rightarrow> nat \<Rightarrow> ('l, 's, 'u, 'd) rpc_client
     \<Rightarrow> (admission \<times> ('l, 's, 'u, 'd) rpc_client) option" where
  "book api method_id r c =
     (let node = cells c ! r
      in case counter_get (nodes_usage c) (node_id node) of
        None \<Rightarrow> None
      | Some u \<Rightarrow>
          if spillover_threshold node < u then
            Some (Skip, release api r (skip_node SkipQuotaExhausted r c))
          else
            let method_cost = cost (method_costs node) method_id
            in if method_cost = u32_MAX then
                 Some (Skip, release api r (skip_node SkipMethodUnsupported r c))
               else
                 (case counter_add (nodes_usage c) (node_id node) (ucast method_cost) of
                    None \<Rightarrow> None
                  | Some q \<Rightarrow> Some (Ready, c\<lparr>nodes_usage := q\<rparr>)))"

definition admit ::
  "('l, 's, 'u) node_api \<Rightarrow> instant \<Rightarrow> instant \<Rightarrow> nat \<Rightarrow> nat \<Rightarrow> ('l, 's, 'u, 'd) rpc_client
     \<Rightarrow> (admission \<times> ('l, 's, 'u, 'd) rpc_client) option" where
  "admit api t t' method_id r c =
     (case try_admit api t t' (cells c ! r) of
        (Inl (RateLimited time), node) \<Rightarrow>
          Some (AdmRateLimited time, skip_node SkipRateLimit r (set_cell r node c))
      | (Inl Saturated, node) \<Rightarrow> Some (AdmSaturated, skip_node SkipSaturated r (set_cell r node c))
      | (Inr _, node) \<Rightarrow> book api method_id r (set_cell r node c))"

text \<open>
  \<open>admit_waiting\<close> up to its await, and one poll of the semaphore after it: \<open>Some None\<close> means
  that the waiter stays queued. The guard of the gauge drops as soon as the wait is over. The semaphore of
  tokio hands a freed permit to its first waiter; here a permit that is free may go to any request that
  asks, so there are more executions than in the program, and what holds of all of them holds of its own.
\<close>

definition admit_waiting_begin :: "('l, 's, 'u, 'd) rpc_client \<Rightarrow> ('l, 's, 'u, 'd) rpc_client" where
  "admit_waiting_begin c = emit sleeping_on_rate_limit c"

definition admit_waiting_poll ::
  "('l, 's, 'u) node_api \<Rightarrow> instant \<Rightarrow> instant \<Rightarrow> nat \<Rightarrow> nat \<Rightarrow> ('l, 's, 'u, 'd) rpc_client
     \<Rightarrow> ((admission \<times> ('l, 's, 'u, 'd) rpc_client) option) option" where
  "admit_waiting_poll api t t' method_id r c =
     (case sem_acquire api (concurrency (limits (cells c ! r))) of
        Pending \<Rightarrow> Some None
      | Closed \<Rightarrow> Some (Some (AdmSaturated, emit (GaugeGuard_drop SLEEP_QUEUE) c))
      | Granted s \<Rightarrow>
          let c = emit (GaugeGuard_drop SLEEP_QUEUE) (set_cell r (set_semaphore s (cells c ! r)) c)
          in case check_rate api t t' (cells c ! r) of
            (Inl time, node) \<Rightarrow>
              Some (Some (AdmRateLimited time,
                release api r (skip_node SkipRateLimit r (set_cell r node c))))
          | (Inr _, node) \<Rightarrow> map_option Some (book api method_id r (set_cell r node c)))"

section \<open>The routing loop\<close>

datatype pc =
    RoundStart
  | Walking
  | Attempting nat
  | Sleeping duration
  | Parked nat
  | ParkAttempting nat
  | Finished "route_error + u16 \<times> bytes"
  | Panicked

record route_state =
  pc :: pc
  tried :: u64
  ignore_penalty :: bool
  round_topo :: topology
  remaining :: "nat list"
  best_time :: "duration option"
  saturated :: "nat option"
  penalized :: bool

definition route_init :: route_state where
  "route_init = \<lparr>pc = RoundStart, tried = 0, ignore_penalty = False,
     round_topo = \<lparr>t_all = [], t_ranked = []\<rparr>, remaining = [], best_time = None,
     saturated = None, penalized = False\<rparr>"

datatype event =
    Go instant instant
  | Answer "response option" instant duration
  | Wake
  | Poll instant instant
  | Expire

definition begin_round :: "topology \<Rightarrow> route_state \<Rightarrow> route_state" where
  "begin_round tp st = st\<lparr>pc := Walking, round_topo := tp, remaining := t_ranked tp,
     best_time := None, saturated := None, penalized := False\<rparr>"

text \<open>The loop body for one node of the round.\<close>

definition visit ::
  "('l, 's, 'u) node_api \<Rightarrow> instant \<Rightarrow> instant \<Rightarrow> nat \<Rightarrow> u32 \<Rightarrow> nat \<Rightarrow> route_state
     \<Rightarrow> ('l, 's, 'u, 'd) rpc_client \<Rightarrow> (route_state \<times> ('l, 's, 'u, 'd) rpc_client) option" where
  "visit api t t' method_id now_s r st c =
     (case slot_bit (node_id (cells c ! r)) of
        None \<Rightarrow> None
      | Some bt \<Rightarrow>
          if tried st AND bt \<noteq> 0 then Some (st, c)
          else if \<not> ignore_penalty st \<and> is_penalized (cells c ! r) now_s then
            Some (st\<lparr>penalized := True\<rparr>, skip_node SkipPenalized r c)
          else
            (case admit api t t' method_id r c of
               None \<Rightarrow> None
             | Some (Ready, c') \<Rightarrow> Some (st\<lparr>tried := tried st OR bt, pc := Attempting r\<rparr>, c')
             | Some (Skip, c') \<Rightarrow> Some (st\<lparr>tried := tried st OR bt\<rparr>, c')
             | Some (AdmRateLimited time, c') \<Rightarrow>
                 Some (st\<lparr>best_time :=
                   Some (case best_time st of None \<Rightarrow> time | Some b \<Rightarrow> min b time)\<rparr>, c')
             | Some (AdmSaturated, c') \<Rightarrow>
                 Some (st\<lparr>saturated := (case saturated st of None \<Rightarrow> Some r | Some s \<Rightarrow> Some s)\<rparr>, c')))"

text \<open>\<open>wait_rate_limited\<close> up to its await: the guard counts the request as sleeping.\<close>

definition wait_rate_limited ::
  "duration \<Rightarrow> route_state \<Rightarrow> ('l, 's, 'u, 'd) rpc_client \<Rightarrow> route_state \<times> ('l, 's, 'u, 'd) rpc_client" where
  [simp]: "wait_rate_limited time st c = (st\<lparr>pc := Sleeping time\<rparr>, emit sleeping_on_rate_limit c)"

text \<open>What the round does when it has offered the request to every node.\<close>

definition round_end ::
  "route_state \<Rightarrow> ('l, 's, 'u, 'd) rpc_client \<Rightarrow> route_state \<times> ('l, 's, 'u, 'd) rpc_client" where
  "round_end st c =
     (case best_time st of
        Some time \<Rightarrow> wait_rate_limited time st c
      | None \<Rightarrow>
          (case saturated st of
             Some r \<Rightarrow> (st\<lparr>pc := Parked r\<rparr>, admit_waiting_begin c)
           | None \<Rightarrow>
               if penalized st \<and> \<not> ignore_penalty st
               then (st\<lparr>ignore_penalty := True, pc := RoundStart\<rparr>, c)
               else (st\<lparr>pc := Finished (Inl AllNodesFailed)\<rparr>, c)))"

text \<open>
  \<open>attempt_on\<close>, from the moment the network answered: the permit drops with the attempt, and a
  retry goes on at \<open>next\<close>.
\<close>

definition attempt_on ::
  "('l, 's, 'u) node_api \<Rightarrow> wire_api \<Rightarrow> instant \<Rightarrow> response option \<Rightarrow> instant \<Rightarrow> duration \<Rightarrow> nat \<Rightarrow> pc
     \<Rightarrow> route_state \<Rightarrow> ('l, 's, 'u, 'd) rpc_client \<Rightarrow> route_state \<times> ('l, 's, 'u, 'd) rpc_client" where
  "attempt_on api wire EPOCH sent at elapsed r nxt st c =
     (case attempt wire EPOCH at elapsed (cells c ! r) sent of (res, ops, node) \<Rightarrow>
        (st\<lparr>pc := (case res of Done status body \<Rightarrow> Finished (Inr (status, body)) | Retry \<Rightarrow> nxt)\<rparr>,
         release api r (emit ops (set_cell r node c))))"

definition unpark ::
  "('l, 's, 'u) node_api \<Rightarrow> instant \<Rightarrow> instant \<Rightarrow> nat \<Rightarrow> nat \<Rightarrow> route_state
     \<Rightarrow> ('l, 's, 'u, 'd) rpc_client \<Rightarrow> (route_state \<times> ('l, 's, 'u, 'd) rpc_client) option" where
  "unpark api t t' method_id r st c =
     (case (admit_waiting_poll api t t' method_id r c, slot_bit (node_id (cells c ! r))) of
        (Some None, _) \<Rightarrow> Some (st, c)
      | (Some (Some (Ready, c')), Some bt) \<Rightarrow>
          Some (st\<lparr>tried := tried st OR bt, pc := ParkAttempting r\<rparr>, c')
      | (Some (Some (Skip, c')), Some bt) \<Rightarrow> Some (st\<lparr>tried := tried st OR bt, pc := RoundStart\<rparr>, c')
      | (Some (Some (AdmRateLimited time, c')), _) \<Rightarrow> Some (wait_rate_limited time st c')
      | (Some (Some (AdmSaturated, c')), _) \<Rightarrow> Some (st\<lparr>pc := Finished (Inl AllNodesFailed)\<rparr>, c')
      | _ \<Rightarrow> None)"

text \<open>
  The global timeout drops the future at an await: the permit or the gauge guard it holds goes
  back.
\<close>

definition expire ::
  "('l, 's, 'u) node_api \<Rightarrow> route_state \<Rightarrow> ('l, 's, 'u, 'd) rpc_client
     \<Rightarrow> route_state \<times> ('l, 's, 'u, 'd) rpc_client" where
  "expire api st c =
     (st\<lparr>pc := Finished (Inl Timeout)\<rparr>,
      (case pc st of
         Attempting r \<Rightarrow> release api r c
       | ParkAttempting r \<Rightarrow> release api r c
       | Sleeping _ \<Rightarrow> emit (GaugeGuard_drop SLEEP_QUEUE) c
       | Parked _ \<Rightarrow> emit (GaugeGuard_drop SLEEP_QUEUE) c
       | _ \<Rightarrow> c))"

definition or_panic ::
  "(route_state \<times> ('l, 's, 'u, 'd) rpc_client) option \<Rightarrow> route_state \<Rightarrow> ('l, 's, 'u, 'd) rpc_client
     \<Rightarrow> route_state \<times> ('l, 's, 'u, 'd) rpc_client" where
  "or_panic x st c = (case x of Some y \<Rightarrow> y | None \<Rightarrow> (st\<lparr>pc := Panicked\<rparr>, c))"

fun route_step ::
  "('l, 's, 'u) node_api \<Rightarrow> wire_api \<Rightarrow> instant \<Rightarrow> nat \<Rightarrow> u32 \<Rightarrow> event
     \<Rightarrow> route_state \<times> ('l, 's, 'u, 'd) rpc_client \<Rightarrow> (route_state \<times> ('l, 's, 'u, 'd) rpc_client) option" where
  "route_step api wire EPOCH method_id now_s ev (st, c) =
     (case pc st of
        RoundStart \<Rightarrow>
          (case ev of Go _ _ \<Rightarrow> Some (begin_round (topo c) st, c) | _ \<Rightarrow> None)
      | Walking \<Rightarrow>
          (case ev of
             Go t t' \<Rightarrow>
               (case remaining st of
                  [] \<Rightarrow> Some (round_end st c)
                | r # rs \<Rightarrow>
                    Some (or_panic (visit api t t' method_id now_s r (st\<lparr>remaining := rs\<rparr>) c)
                      (st\<lparr>remaining := rs\<rparr>) c))
           | _ \<Rightarrow> None)
      | Attempting r \<Rightarrow>
          (case ev of
             Answer sent at el \<Rightarrow> Some (attempt_on api wire EPOCH sent at el r Walking st c)
           | Expire \<Rightarrow> Some (expire api st c)
           | _ \<Rightarrow> None)
      | Sleeping _ \<Rightarrow>
          (case ev of
             Wake \<Rightarrow> Some (st\<lparr>pc := RoundStart\<rparr>, emit (GaugeGuard_drop SLEEP_QUEUE) c)
           | Expire \<Rightarrow> Some (expire api st c)
           | _ \<Rightarrow> None)
      | Parked r \<Rightarrow>
          (case ev of
             Poll t t' \<Rightarrow> Some (or_panic (unpark api t t' method_id r st c) st c)
           | Expire \<Rightarrow> Some (expire api st c)
           | _ \<Rightarrow> None)
      | ParkAttempting r \<Rightarrow>
          (case ev of
             Answer sent at el \<Rightarrow> Some (attempt_on api wire EPOCH sent at el r RoundStart st c)
           | Expire \<Rightarrow> Some (expire api st c)
           | _ \<Rightarrow> None)
      | Finished _ \<Rightarrow> None
      | Panicked \<Rightarrow> None)"

section \<open>One request from end to end\<close>

record request =
  rq_method_id :: nat
  rq_now_s :: u32
  rq_started :: instant
  rq_route :: route_state

text \<open>
  \<open>send\<close> and \<open>dispatch\<close> up to the first step of \<open>route\<close>: a body without a method never reaches it.
\<close>

definition dispatch ::
  "body_api \<Rightarrow> interned \<Rightarrow> bytes \<Rightarrow> nat \<times> route_state" where
  "dispatch lib methods body =
     (case extract_method lib body of
        Inl e \<Rightarrow> (0, route_init\<lparr>pc := Finished (Inl e)\<rparr>)
      | Inr m \<Rightarrow> (resolve methods m, route_init))"

definition send_begin ::
  "body_api \<Rightarrow> instant \<Rightarrow> instant \<Rightarrow> bytes \<Rightarrow> ('l, 's, 'u, 'd) rpc_client \<Rightarrow> request" where
  "send_begin lib EPOCH started body c =
     (case dispatch lib (custom_methods c) body of (method_id, st) \<Rightarrow>
        \<lparr>rq_method_id = method_id, rq_now_s = seconds_since_start EPOCH started,
         rq_started = started, rq_route = st\<rparr>)"

text \<open>The end of \<open>send\<close>: the outcome is recorded once and the answer is made.\<close>

definition send_end ::
  "duration \<Rightarrow> route_error + u16 \<times> bytes \<Rightarrow> ('l, 's, 'u, 'd) rpc_client
     \<Rightarrow> ((u16 \<times> bytes) + (u16 \<times> bytes)) \<times> ('l, 's, 'u, 'd) rpc_client" where
  "send_end elapsed res c =
     (let oc = (case res of Inr _ \<Rightarrow> ReqForwarded | Inl e \<Rightarrow> error_outcome e)
      in ((case res of Inr ok \<Rightarrow> Inr ok | Inl e \<Rightarrow> Inl (error_response e)),
          emit (record_request oc elapsed) c))"

section \<open>What the scan accepts\<close>

lemma skip_ws_dropWhile: "skip_ws body = dropWhile json_ws body"
proof (induction body)
  case (Cons b body)
  then show ?case
    by (cases "position (\<lambda>b. \<not> json_ws b) body") (auto simp: skip_ws_def)
qed (simp add: skip_ws_def)

definition blank :: "bytes \<Rightarrow> bool" where
  "blank w \<longleftrightarrow> (\<forall>b \<in> set w. json_ws b)"

lemma skip_ws_split: "\<exists>w. blank w \<and> body = w @ skip_ws body"
proof -
  have "body = takeWhile json_ws body @ skip_ws body" by (simp add: skip_ws_dropWhile)
  moreover have "blank (takeWhile json_ws body)" by (auto simp: blank_def dest: set_takeWhileD)
  ultimately show ?thesis by blast
qed

lemma skip_ws_padded: "blank w \<Longrightarrow> \<not> json_ws x \<Longrightarrow> skip_ws (w @ x # s) = x # s"
  unfolding skip_ws_dropWhile blank_def by (induction w) auto

lemma expect_after_ws: "blank w \<Longrightarrow> \<not> json_ws x \<Longrightarrow> expect_byte x (skip_ws (w @ x # s)) = Some s"
  by (simp add: skip_ws_padded expect_byte_def)

lemma expect_byte_Some_iff: "expect_byte b s = Some rest \<longleftrightarrow> s = b # rest"
  by (cases s) (auto simp: expect_byte_def)

lemma strip_prefix_Some_iff: "strip_prefix p s = Some rest \<longleftrightarrow> s = p @ rest"
  by (auto simp: strip_prefix_def) (metis append_take_drop_id)

lemma not_json_ws [simp]: "\<not> json_ws QUOTE" "\<not> json_ws CHR ''{''" "\<not> json_ws CHR '':''"
  by (simp_all add: json_ws_def QUOTE_def)

lemma closing_quote_iff:
  assumes "memchr2_ok lib"
  shows "(memchr2 lib QUOTE BACKSLASH rest = Some i \<and> rest ! i = QUOTE) \<longleftrightarrow>
    (\<exists>tl. rest = take i rest @ QUOTE # tl \<and> i < length rest \<and> QUOTE \<notin> set (take i rest) \<and> BACKSLASH \<notin> set (take i rest))"
proof -
  have m: "memchr2 lib QUOTE BACKSLASH rest = position (\<lambda>c. c = QUOTE \<or> c = BACKSLASH) rest"
    using assms by (simp add: memchr2_ok_def)
  show ?thesis
  proof
    assume "memchr2 lib QUOTE BACKSLASH rest = Some i \<and> rest ! i = QUOTE"
    then have p: "position (\<lambda>c. c = QUOTE \<or> c = BACKSLASH) rest = Some i" and q: "rest ! i = QUOTE" by (auto simp: m)
    from position_take_drop [OF p] q position_lt [OF p]
    show "\<exists>tl. rest = take i rest @ QUOTE # tl \<and> i < length rest \<and> QUOTE \<notin> set (take i rest) \<and> BACKSLASH \<notin> set (take i rest)"
      by auto
  next
    assume "\<exists>tl. rest = take i rest @ QUOTE # tl \<and> i < length rest \<and> QUOTE \<notin> set (take i rest) \<and> BACKSLASH \<notin> set (take i rest)"
    then obtain tl where r: "rest = take i rest @ QUOTE # tl" "i < length rest"
      "QUOTE \<notin> set (take i rest)" "BACKSLASH \<notin> set (take i rest)" by blast
    have q: "rest ! i = QUOTE" by (subst r(1)) (use r(2) in \<open>simp add: nth_append\<close>)
    have "rest ! j \<noteq> QUOTE \<and> rest ! j \<noteq> BACKSLASH" if "j < i" for j
    proof -
      have "take i rest ! j \<in> set (take i rest)" using that r(2) by (intro nth_mem) simp
      then have "rest ! j \<in> set (take i rest)" using that by simp
      then show ?thesis using r(3,4) by metis
    qed
    with q r(2) show "memchr2 lib QUOTE BACKSLASH rest = Some i \<and> rest ! i = QUOTE"
      by (simp add: m position_Some_iff)
  qed
qed

text \<open>The bodies the scan is for: an object whose first key is \<open>method\<close>, with a plain string value.\<close>

definition leading_method :: "bytes \<Rightarrow> string \<Rightarrow> bool" where
  "leading_method body name \<longleftrightarrow>
     (\<exists>w1 w2 w3 w4 tl. blank w1 \<and> blank w2 \<and> blank w3 \<and> blank w4 \<and>
        QUOTE \<notin> set name \<and> BACKSLASH \<notin> set name \<and> utf8_ok name \<and>
        body = w1 @ CHR ''{'' # w2 @ QUOTE # (''method'' @ [QUOTE]) @ w3 @ CHR '':'' # w4 @ QUOTE # name @ QUOTE # tl)"

lemma scan_sound:
  assumes lib: "memchr2_ok lib" and "scan_leading_method lib body = Some name"
  shows "leading_method body name"
proof -
  from assms(2) obtain r1 r2 r3 r4 r5 i where
    s: "skip_ws body = CHR ''{'' # r1" "skip_ws r1 = QUOTE # r2" "r2 = (''method'' @ [QUOTE]) @ r3"
      "skip_ws r3 = CHR '':'' # r4" "skip_ws r4 = QUOTE # r5"
    and i: "memchr2 lib QUOTE BACKSLASH r5 = Some i" "r5 ! i = QUOTE" "from_utf8 (take i r5) = Some name"
    unfolding scan_leading_method_def bind_eq_Some_conv expect_byte_Some_iff strip_prefix_Some_iff
    by (auto split: if_splits)
  from closing_quote_iff [OF lib] i(1,2) obtain tl where
    tl: "r5 = take i r5 @ QUOTE # tl" "QUOTE \<notin> set (take i r5)" "BACKSLASH \<notin> set (take i r5)" by blast
  have name: "name = take i r5" "utf8_ok name" using i(3) by (auto simp: from_utf8_def split: if_splits)
  obtain w1 w2 w3 w4 where w: "blank w1 \<and> blank w2 \<and> blank w3 \<and> blank w4"
    "body = w1 @ skip_ws body" "r1 = w2 @ skip_ws r1" "r3 = w3 @ skip_ws r3" "r4 = w4 @ skip_ws r4"
    using skip_ws_split [of body] skip_ws_split [of r1] skip_ws_split [of r3] skip_ws_split [of r4] by blast
  have "r4 = w4 @ QUOTE # name @ QUOTE # tl" using w(5) s(5) tl(1) name(1) by simp
  then have "r3 = w3 @ CHR '':'' # w4 @ QUOTE # name @ QUOTE # tl" using w(4) s(4) by simp
  then have "r1 = w2 @ QUOTE # (''method'' @ [QUOTE]) @ w3 @ CHR '':'' # w4 @ QUOTE # name @ QUOTE # tl"
    using w(3) s(2,3) by simp
  then have "body = w1 @ CHR ''{'' # w2 @ QUOTE # (''method'' @ [QUOTE]) @ w3 @ CHR '':'' # w4 @ QUOTE # name @ QUOTE # tl"
    using w(2) s(1) by simp
  with w(1) tl(2,3) name show ?thesis unfolding leading_method_def by blast
qed

lemma scan_complete:
  assumes lib: "memchr2_ok lib" and "leading_method body name"
  shows "scan_leading_method lib body = Some name"
proof -
  from assms(2) obtain w1 w2 w3 w4 tl where
    w: "blank w1" "blank w2" "blank w3" "blank w4"
    and n: "QUOTE \<notin> set name" "BACKSLASH \<notin> set name" "utf8_ok name"
    and b: "body = w1 @ CHR ''{'' # w2 @ QUOTE # (''method'' @ [QUOTE]) @ w3 @ CHR '':'' # w4 @ QUOTE # name @ QUOTE # tl"
    unfolding leading_method_def by blast
  let ?r5 = "name @ QUOTE # tl"
  have "memchr2 lib QUOTE BACKSLASH ?r5 = Some (length name) \<and> ?r5 ! length name = QUOTE"
    using closing_quote_iff [OF lib, of ?r5 "length name"] n by simp
  then have m: "memchr2 lib QUOTE BACKSLASH ?r5 = Some (length name)" by blast
  have "strip_prefix (''method'' @ [QUOTE]) ((''method'' @ [QUOTE]) @ x) = Some x" for x
    by (simp only: strip_prefix_Some_iff)
  then show ?thesis
    unfolding scan_leading_method_def b
    using w n(3) m by (simp only: expect_after_ws not_json_ws not_False_eq_True Option.bind.simps)
      (simp add: from_utf8_def)
qed

section \<open>Properties\<close>

text \<open>
  C29. The scan reads the method exactly when \<open>method\<close> is the first key of the object and its
  value is a plain UTF-8 string, wherever JSON allows blanks before it: it never takes a nested
  \<open>method\<close>, a later key or a name with an escape sequence for the real one, and every body it
  declines goes to the full parse, whose verdict is final.
\<close>

theorem scan_reads_leading_method:
  assumes "memchr2_ok lib"
  shows "(scan_leading_method lib body = Some name \<longleftrightarrow> leading_method body name)
    \<and> (leading_method body name \<longrightarrow> extract_method lib body = Inr name)
    \<and> ((\<nexists>m. leading_method body m) \<longrightarrow> extract_method lib body =
         (case from_slice_method lib body of Some m \<Rightarrow> Inr m | None \<Rightarrow> Inl BadRequest))"
proof -
  have iff: "scan_leading_method lib body = Some m \<longleftrightarrow> leading_method body m" for m
    using scan_sound [OF assms] scan_complete [OF assms] by blast
  then have "scan_leading_method lib body = None" if "\<nexists>m. leading_method body m"
    using that by (cases "scan_leading_method lib body") auto
  with iff show ?thesis by (metis (no_types, lifting) extract_method_def option.simps(4,5))
qed

definition demo_lib :: body_api where
  "demo_lib = \<lparr>memchr2 = (\<lambda>a b s. position (\<lambda>c. c = a \<or> c = b) s), from_slice_method = (\<lambda>_. None)\<rparr>"

theorem scan_reads_leading_method_witness:
  \<open>extract_method demo_lib ''{ "method" : "getSlot", "params": []}'' = Inr ''getSlot''\<close>
proof -
  have "memchr2_ok demo_lib" by (simp add: memchr2_ok_def demo_lib_def)
  moreover have \<open>scan_leading_method demo_lib ''{ "method" : "getSlot", "params": []}'' = Some ''getSlot''\<close>
    by code_simp
  ultimately show ?thesis
    using scan_reads_leading_method [of demo_lib \<open>''{ "method" : "getSlot", "params": []}''\<close> "''getSlot''"]
    by blast
qed

end
