(* ===== verification/Routing.thy ===== *)
theory Routing
  imports Router
begin

text \<open>
  What the routing loop guarantees. The invariant \<^verbatim>\<open>route_wf\<close> of one request is stable under
  whatever other tasks do to the shared state as long as they keep the cells and their
  configuration (\<^const>\<open>evolves\<close>). On top of it: no panic, every slot is offered the request at
  most once, one booking per attempt, permits and gauge guards are given back on every path
  including cancellation, a 502 only when nothing is left, and progress between two waits.
\<close>

section \<open>The effect of an admission on the shared state\<close>

text \<open>A step that touches only cell \<open>r\<close>, its counter and the metrics.\<close>

definition local_step ::
  "nat \<Rightarrow> ('l, 's, 'u, 'd) rpc_client \<Rightarrow> ('l, 's, 'u, 'd) rpc_client \<Rightarrow> bool" where
  "local_step r c c' \<longleftrightarrow>
     (\<exists>n. cells c' = (cells c)[r := n] \<and> same_config (cells c ! r) n) \<and> topo c' = topo c \<and>
     periods c' = periods c \<and> custom_methods c' = custom_methods c \<and>
     length (nodes_usage c') = length (nodes_usage c)"

lemma local_step_refl [simp]: "local_step r c c"
  unfolding local_step_def by (metis list_update_id same_config_refl)

lemma local_step_trans:
  assumes "local_step r a b" and "local_step r b c" and "r < length (cells a)"
  shows "local_step r a c"
  using assms by (fastforce simp: local_step_def intro: same_config_trans)

lemma local_step_length: "local_step r c c' \<Longrightarrow> length (cells c') = length (cells c)"
  by (auto simp: local_step_def)

lemma local_step_other: "local_step r c c' \<Longrightarrow> r' \<noteq> r \<Longrightarrow> cells c' ! r' = cells c ! r'"
  by (auto simp: local_step_def)

lemma local_step_config:
  "local_step r c c' \<Longrightarrow> r' < length (cells c) \<Longrightarrow> same_config (cells c ! r') (cells c' ! r')"
  by (cases "r' = r") (auto simp: local_step_def)

lemma local_step_emit [simp]: "local_step r c (emit ops c') = local_step r c c'"
  by (simp add: local_step_def)

lemma local_step_skip [simp]: "local_step r c (skip_node rs r' c') = local_step r c c'"
  by (simp add: skip_node_def)

lemma local_step_set_cell: "same_config (cells c ! r) n \<Longrightarrow> local_step r c (set_cell r n c)"
  by (auto simp: local_step_def set_cell_def)

lemma local_step_usage: "length q = length (nodes_usage c) \<Longrightarrow> local_step r c (c\<lparr>nodes_usage := q\<rparr>)"
  unfolding local_step_def by (auto intro!: exI [of _ "cells c ! r"])

lemma local_step_release: "local_step r c (release api r c)"
  by (simp add: release_def local_step_set_cell)

lemma set_cell_simps [simp]:
  "length (cells (set_cell r n c)) = length (cells c)" "nodes_usage (set_cell r n c) = nodes_usage c"
  "r < length (cells c) \<Longrightarrow> cells (set_cell r n c) ! r = n"
  "topo (set_cell r n c) = topo c" "emitted (set_cell r n c) = emitted c"
  by (simp_all add: set_cell_def)

lemma release_simps [simp]:
  "length (cells (release api r c)) = length (cells c)" "nodes_usage (release api r c) = nodes_usage c"
  "r < length (cells c) \<Longrightarrow> cells (release api r c) ! r = drop_permit api (cells c ! r)"
  "topo (release api r c) = topo c" "emitted (release api r c) = emitted c"
  by (simp_all add: release_def)

lemma skip_node_simps [simp]:
  "cells (skip_node rs r c) = cells c" "nodes_usage (skip_node rs r c) = nodes_usage c"
  "topo (skip_node rs r c) = topo c"
  by (simp_all add: skip_node_def)

lemma local_step_wf:
  assumes "client_wf c" and "local_step r c c'" and "r < length (cells c)"
  shows "evolves c c'"
proof -
  obtain n where n: "cells c' = (cells c)[r := n]" "same_config (cells c ! r) n"
    using assms(2) by (auto simp: local_step_def)
  have k: "keeps (cells c) (cells c')" using keeps_update [OF assms(3) n(2)] n(1) by simp
  moreover have "\<forall>m \<in> set (cells c'). node_wf m"
    using assms(1,3) n by (auto simp: client_wf_def dest!: set_update_subset_insert [THEN subsetD] intro: node_wf_same_config)
  ultimately show ?thesis
    using assms(1,2) topo_wf_keeps [OF _ k]
    by (auto simp: evolves_def client_wf_def local_step_def quota_ok_def)
qed

section \<open>Permits, guards and bookings\<close>

definition free_permits :: "('s \<Rightarrow> nat) \<Rightarrow> ('l, 's, 'u, 'd) rpc_client \<Rightarrow> nat \<Rightarrow> nat" where
  "free_permits permits c r = permits (concurrency (limits (cells c ! r)))"

text \<open>The change of the sleep gauge that a list of metric operations makes.\<close>

fun gauge_delta :: "metric_op \<Rightarrow> int" where
  "gauge_delta (GaugeIncrement k n) = (if k = SLEEP_QUEUE then int n else 0)"
| "gauge_delta (GaugeDecrement k n) = (if k = SLEEP_QUEUE then - int n else 0)"
| "gauge_delta _ = 0"

definition sleepers :: "('l, 's, 'u, 'd) rpc_client \<Rightarrow> int" where
  "sleepers c = sum_list (map gauge_delta (emitted c))"

lemma sleepers_emit: "sleepers (emit ops c) = sleepers c + sum_list (map gauge_delta ops)"
  by (simp add: sleepers_def)

lemma gauge_delta_record [simp]:
  "sum_list (map gauge_delta (record_skip m rs)) = 0"
  "sum_list (map gauge_delta (record_attempt m oc d)) = 0"
  "sum_list (map gauge_delta sleeping_on_rate_limit) = 1"
  "sum_list (map gauge_delta (GaugeGuard_drop SLEEP_QUEUE)) = - 1"
  by (simp_all add: record_skip_def record_attempt_def sleeping_on_rate_limit_def GaugeGuard_new_def
      GaugeGuard_drop_def)

lemma sleepers_simps [simp]:
  "sleepers (set_cell r n c) = sleepers c" "sleepers (release api r c) = sleepers c"
  "sleepers (skip_node rs r c) = sleepers c" "sleepers (c\<lparr>nodes_usage := q\<rparr>) = sleepers c"
  by (simp_all add: sleepers_def skip_node_def sleepers_emit [unfolded sleepers_def])

text \<open>
  What an admission did: it never moves the gauge, and it holds a permit and has booked the
  method's price exactly when the node is ready; otherwise permits and counters are as before.
\<close>

definition refuses :: "('l, 's, 'u, 'd) rpc_client \<Rightarrow> nat \<Rightarrow> nat \<Rightarrow> bool" where
  "refuses c method_id r \<longleftrightarrow>
     spillover_threshold (cells c ! r) < nodes_usage c ! node_id (cells c ! r) \<or>
     cost (method_costs (cells c ! r)) method_id = u32_MAX"

definition admitted ::
  "('s \<Rightarrow> nat) \<Rightarrow> nat \<Rightarrow> nat \<Rightarrow> admission \<Rightarrow> nat
     \<Rightarrow> ('l, 's, 'u, 'd) rpc_client \<Rightarrow> ('l, 's, 'u, 'd) rpc_client \<Rightarrow> bool" where
  "admitted permits method_id r a before c c' \<longleftrightarrow>
     local_step r c c' \<and> sleepers c' = sleepers c \<and>
     (let node = cells c ! r; price = cost (method_costs node) method_id; i = node_id node
      in if a = Ready then
           Suc (free_permits permits c' r) = before \<and> price \<noteq> u32_MAX \<and>
           nodes_usage c ! i \<le> spillover_threshold node \<and>
           nodes_usage c' = (nodes_usage c)[i := nodes_usage c ! i + ucast price]
         else free_permits permits c' r = before \<and> nodes_usage c' = nodes_usage c \<and>
           (a = Skip \<longrightarrow> refuses c method_id r))"

lemma book_admitted:
  assumes sem: "semaphore_ok api permits" and "node_id (cells c ! r) < length (nodes_usage c)"
    and r: "r < length (cells c)"
  shows "\<exists>a c'. book api method_id r c = Some (a, c') \<and> (a = Ready \<or> a = Skip) \<and>
    admitted permits method_id r a (Suc (free_permits permits c r)) c c'"
proof -
  have sk: "admitted permits method_id r Skip (Suc (free_permits permits c r)) c (release api r (skip_node rs r c))"
    if "refuses c method_id r" for rs
    using that sem r local_step_release [of r "skip_node rs r c" api]
    by (auto simp: admitted_def free_permits_def semaphore_ok_def
        intro: local_step_trans [where b = "skip_node rs r c"])
  consider "spillover_threshold (cells c ! r) < nodes_usage c ! node_id (cells c ! r)"
    | "\<not> spillover_threshold (cells c ! r) < nodes_usage c ! node_id (cells c ! r)"
      "cost (method_costs (cells c ! r)) method_id = u32_MAX"
    | "\<not> spillover_threshold (cells c ! r) < nodes_usage c ! node_id (cells c ! r)"
      "cost (method_costs (cells c ! r)) method_id \<noteq> u32_MAX" by blast
  then show ?thesis
  proof cases
    case 1
    then show ?thesis using assms(2) sk [of SkipQuotaExhausted] by (simp add: book_def Let_def quota_simps refuses_def)
  next
    case 2
    then show ?thesis using assms(2) sk [of SkipMethodUnsupported] by (simp add: book_def Let_def quota_simps refuses_def)
  next
    case 3
    then have "nodes_usage c ! node_id (cells c ! r) \<le> spillover_threshold (cells c ! r)" by simp
    with 3 show ?thesis using assms(2)
      by (simp add: book_def Let_def quota_simps admitted_def free_permits_def local_step_usage
          del: not_less)
  qed
qed

lemma admitted_local: "admitted permits m r a b c c' \<Longrightarrow> local_step r c c' \<and> sleepers c' = sleepers c"
  by (simp add: admitted_def)

text \<open>Booking after a step that changed only the limits of the same cell.\<close>

lemma admitted_after:
  assumes "admitted permits m r a b (set_cell r n c) c'" and "same_config (cells c ! r) n"
    and "r < length (cells c)"
  shows "admitted permits m r a b c c'"
  using assms local_step_trans [OF local_step_set_cell [OF assms(2)], of c'] 
  by (auto simp: admitted_def Let_def same_config_def refuses_def split: if_splits)

lemma admit_admitted:
  assumes sem: "semaphore_ok api permits" and i: "node_id (cells c ! r) < length (nodes_usage c)"
    and r: "r < length (cells c)"
  shows "\<exists>a c'. admit api t t' method_id r c = Some (a, c') \<and>
    admitted permits method_id r a (free_permits permits c r) c c'"
proof (cases "sem_try_acquire api (concurrency (limits (cells c ! r)))")
  case None
  then have "admit api t t' method_id r c =
      Some (AdmSaturated, skip_node SkipSaturated r (set_cell r (cells c ! r) c))"
    by (simp add: admit_def try_admit_def)
  then show ?thesis
    using r by (simp add: admitted_def free_permits_def local_step_set_cell)
next
  case (Some s)
  obtain res n where n: "check_rate api t t' (set_semaphore s (cells c ! r)) = (res, n)" by (metis surj_pair)
  have p: "free_permits permits c r = Suc (permits s)"
    using sem Some by (simp add: free_permits_def semaphore_ok_def)
  have same: "same_config (cells c ! r) n" "concurrency (limits n) = s"
    using check_rate_frame [OF n] by (auto intro: same_config_trans [OF set_semaphore_simps(1)])
  show ?thesis
  proof (cases res)
    case (Inl w)
    have "same_config (cells c ! r) (drop_permit api n)"
      using same(1) by (rule same_config_trans) simp
    with Inl n Some p r sem same show ?thesis
      by (simp add: admit_def try_admit_def admitted_def free_permits_def local_step_set_cell semaphore_ok_def)
  next
    case (Inr u)
    let ?c = "set_cell r n c"
    have "node_id (cells ?c ! r) < length (nodes_usage ?c)"
      using i r same(1) by (simp add: same_config_def)
    from book_admitted [OF sem this, of method_id] r obtain a c' where
      b: "book api method_id r ?c = Some (a, c')"
        "admitted permits method_id r a (Suc (free_permits permits ?c r)) ?c c'" by auto
    have "Suc (free_permits permits ?c r) = free_permits permits c r"
      using p r same(2) by (simp add: free_permits_def)
    with b admitted_after [OF _ same(1) r] Inr n Some show ?thesis
      by (auto simp: admit_def try_admit_def)
  qed
qed

lemma poll_admitted:
  assumes sem: "semaphore_ok api permits" and i: "node_id (cells c ! r) < length (nodes_usage c)"
    and r: "r < length (cells c)"
  shows "admit_waiting_poll api t t' method_id r c = Some None \<or>
    (\<exists>a c'. admit_waiting_poll api t t' method_id r c = Some (Some (a, c')) \<and> a \<noteq> AdmSaturated \<and>
      admitted permits method_id r a (free_permits permits c r) (emit (GaugeGuard_drop SLEEP_QUEUE) c) c')"
proof (cases "sem_acquire api (concurrency (limits (cells c ! r)))")
  case (Granted s)
  let ?c = "emit (GaugeGuard_drop SLEEP_QUEUE) c"
  let ?n = "set_semaphore s (cells c ! r)"
  let ?c1 = "emit (GaugeGuard_drop SLEEP_QUEUE) (set_cell r ?n c)"
  have comm: "?c1 = set_cell r ?n ?c" by (simp add: emit_def set_cell_def)
  obtain res n where n: "check_rate api t t' ?n = (res, n)" by (metis surj_pair)
  have p: "free_permits permits c r = Suc (permits s)"
    using sem Granted by (simp add: free_permits_def semaphore_ok_def)
  have same: "same_config (cells c ! r) n" "concurrency (limits n) = s"
    using check_rate_frame [OF n] by (auto intro: same_config_trans [OF set_semaphore_simps(1)])
  have c2: "set_cell r n ?c1 = set_cell r n ?c" by (simp add: emit_def set_cell_def)
  show ?thesis
  proof (cases res)
    case (Inl w)
    let ?d = "release api r (skip_node SkipRateLimit r (set_cell r n ?c))"
    have "local_step r ?c ?d"
      using local_step_trans [OF _ local_step_release, of r ?c "skip_node SkipRateLimit r (set_cell r n ?c)" api]
        local_step_set_cell [of ?c r n] same(1) r by simp
    then have "admitted permits method_id r (AdmRateLimited w) (free_permits permits c r) ?c ?d"
      using p r sem same by (simp add: admitted_def free_permits_def semaphore_ok_def)
    with Inl n Granted r c2 show ?thesis by (simp add: admit_waiting_poll_def)
  next
    case (Inr u)
    have "node_id (cells (set_cell r n ?c) ! r) < length (nodes_usage (set_cell r n ?c))"
      using i r same(1) by (simp add: same_config_def)
    from book_admitted [OF sem this, of method_id] r obtain a c' where
      b: "book api method_id r (set_cell r n ?c) = Some (a, c')" "a = Ready \<or> a = Skip"
        "admitted permits method_id r a (Suc (free_permits permits (set_cell r n ?c) r)) (set_cell r n ?c) c'"
      by auto
    have "Suc (free_permits permits (set_cell r n ?c) r) = free_permits permits c r"
      using p r same(2) by (simp add: free_permits_def)
    with b admitted_after [of permits method_id r a _ n ?c c'] same(1) r
    have "admitted permits method_id r a (free_permits permits c r) ?c c'" by simp
    with b(1,2) Inr n Granted r c2 show ?thesis by (auto simp: admit_waiting_poll_def)
  qed
qed (use sem in \<open>auto simp: admit_waiting_poll_def semaphore_ok_def\<close>)

section \<open>The branches of a step\<close>

abbreviation slot :: "('l, 's, 'u, 'd) rpc_client \<Rightarrow> nat \<Rightarrow> nat" where
  "slot c r \<equiv> node_id (cells c ! r)"

text \<open>What the walk notes about a node it could ask.\<close>

definition noted :: "admission \<Rightarrow> nat \<Rightarrow> nat \<Rightarrow> route_state \<Rightarrow> route_state" where
  "noted a r i st =
     (case a of
        Ready \<Rightarrow> st\<lparr>tried := tried st OR 2 ^ i, pc := Attempting r\<rparr>
      | Skip \<Rightarrow> st\<lparr>tried := tried st OR 2 ^ i\<rparr>
      | AdmRateLimited time \<Rightarrow>
          st\<lparr>best_time := Some (case best_time st of None \<Rightarrow> time | Some b \<Rightarrow> min b time)\<rparr>
      | AdmSaturated \<Rightarrow>
          st\<lparr>saturated := (case saturated st of None \<Rightarrow> Some r | Some s \<Rightarrow> Some s)\<rparr>)"

lemma client_wf_slot: "client_wf c \<Longrightarrow> r < length (cells c) \<Longrightarrow> slot c r < 64 \<and> slot c r < length (nodes_usage c)"
  by (auto simp: client_wf_def node_wf_def quota_ok_def MAX_NODES_def)

lemma visit_cases:
  assumes sem: "semaphore_ok api permits" and c: "client_wf c" and r: "r < length (cells c)"
  obtains
    (seen) "bit (tried st) (slot c r)" "visit api t t' m now_s r st c = Some (st, c)"
  | (penalty) "\<not> bit (tried st) (slot c r)" "\<not> ignore_penalty st" "is_penalized (cells c ! r) now_s"
      "visit api t t' m now_s r st c = Some (st\<lparr>penalized := True\<rparr>, skip_node SkipPenalized r c)"
  | (asked) a c' where "\<not> bit (tried st) (slot c r)" "ignore_penalty st \<or> \<not> is_penalized (cells c ! r) now_s"
      "admit api t t' m r c = Some (a, c')" "admitted permits m r a (free_permits permits c r) c c'"
      "visit api t t' m now_s r st c = Some (noted a r (slot c r) st, c')"
proof -
  have i: "slot c r < 64" "slot c r < length (nodes_usage c)" using client_wf_slot [OF c r] by auto
  consider "bit (tried st) (slot c r)"
    | "\<not> bit (tried st) (slot c r)" "\<not> ignore_penalty st" "is_penalized (cells c ! r) now_s"
    | "\<not> bit (tried st) (slot c r)" "ignore_penalty st \<or> \<not> is_penalized (cells c ! r) now_s" by blast
  then show ?thesis
  proof cases
    case 1
    with i seen show ?thesis by (simp add: visit_def)
  next
    case 2
    with i penalty show ?thesis by (simp add: visit_def)
  next
    case 3
    obtain a c' where a: "admit api t t' m r c = Some (a, c')"
      "admitted permits m r a (free_permits permits c r) c c'"
      using admit_admitted [OF sem i(2) r] by blast
    have "visit api t t' m now_s r st c = Some (noted a r (slot c r) st, c')"
      using 3 i a(1) by (auto simp: visit_def noted_def split: admission.splits)
    with 3 a asked show ?thesis by blast
  qed
qed

text \<open>The end of a wait for a permit.\<close>

definition unparked ::
  "admission \<Rightarrow> nat \<Rightarrow> nat \<Rightarrow> route_state \<Rightarrow> ('l, 's, 'u, 'd) rpc_client
     \<Rightarrow> route_state \<times> ('l, 's, 'u, 'd) rpc_client" where
  "unparked a r i st c =
     (case a of
        Ready \<Rightarrow> (st\<lparr>tried := tried st OR 2 ^ i, pc := ParkAttempting r\<rparr>, c)
      | Skip \<Rightarrow> (st\<lparr>tried := tried st OR 2 ^ i, pc := RoundStart\<rparr>, c)
      | AdmRateLimited time \<Rightarrow> (st\<lparr>pc := Sleeping time\<rparr>, emit sleeping_on_rate_limit c)
      | AdmSaturated \<Rightarrow> (st\<lparr>pc := Finished (Inl AllNodesFailed)\<rparr>, c))"

lemma unpark_cases:
  assumes sem: "semaphore_ok api permits" and c: "client_wf c" and r: "r < length (cells c)"
  obtains
    (queued) "unpark api t t' m r st c = Some (st, c)"
  | (granted) a c' where "a \<noteq> AdmSaturated"
      "admitted permits m r a (free_permits permits c r) (emit (GaugeGuard_drop SLEEP_QUEUE) c) c'"
      "unpark api t t' m r st c = Some (unparked a r (slot c r) st c')"
proof -
  have i: "slot c r < 64" "slot c r < length (nodes_usage c)" using client_wf_slot [OF c r] by auto
  from poll_admitted [OF sem i(2) r, of t t' m] show ?thesis
  proof (elim disjE exE conjE)
    assume "admit_waiting_poll api t t' m r c = Some None"
    then show ?thesis using queued by (simp add: unpark_def)
  next
    fix a c' assume a: "admit_waiting_poll api t t' m r c = Some (Some (a, c'))" "a \<noteq> AdmSaturated"
      "admitted permits m r a (free_permits permits c r) (emit (GaugeGuard_drop SLEEP_QUEUE) c) c'"
    then have "unpark api t t' m r st c = Some (unparked a r (slot c r) st c')"
      using i by (cases a) (simp_all add: unpark_def unparked_def)
    with a granted show ?thesis by blast
  qed
qed

declare route_step.simps [simp del]

lemma route_step_pc:
  "pc st = RoundStart \<Longrightarrow> route_step api wire E m now_s ev (st, c) =
     (case ev of Go _ _ \<Rightarrow> Some (begin_round (topo c) st, c) | _ \<Rightarrow> None)"
  "pc st = Walking \<Longrightarrow> route_step api wire E m now_s ev (st, c) =
     (case ev of
        Go t t' \<Rightarrow>
          (case remaining st of
             [] \<Rightarrow> Some (round_end st c)
           | r # rs \<Rightarrow>
               Some (or_panic (visit api t t' m now_s r (st\<lparr>remaining := rs\<rparr>) c) (st\<lparr>remaining := rs\<rparr>) c))
      | _ \<Rightarrow> None)"
  "pc st = Attempting r \<Longrightarrow> route_step api wire E m now_s ev (st, c) =
     (case ev of
        Answer sent at el \<Rightarrow> Some (attempt_on api wire E sent at el r Walking st c)
      | Expire \<Rightarrow> Some (expire api st c) | _ \<Rightarrow> None)"
  "pc st = Sleeping d \<Longrightarrow> route_step api wire E m now_s ev (st, c) =
     (case ev of
        Wake \<Rightarrow> Some (st\<lparr>pc := RoundStart\<rparr>, emit (GaugeGuard_drop SLEEP_QUEUE) c)
      | Expire \<Rightarrow> Some (expire api st c) | _ \<Rightarrow> None)"
  "pc st = Parked r \<Longrightarrow> route_step api wire E m now_s ev (st, c) =
     (case ev of
        Poll t t' \<Rightarrow> Some (or_panic (unpark api t t' m r st c) st c)
      | Expire \<Rightarrow> Some (expire api st c) | _ \<Rightarrow> None)"
  "pc st = ParkAttempting r \<Longrightarrow> route_step api wire E m now_s ev (st, c) =
     (case ev of
        Answer sent at el \<Rightarrow> Some (attempt_on api wire E sent at el r RoundStart st c)
      | Expire \<Rightarrow> Some (expire api st c) | _ \<Rightarrow> None)"
  "pc st = Finished res \<Longrightarrow> route_step api wire E m now_s ev (st, c) = None"
  "pc st = Panicked \<Longrightarrow> route_step api wire E m now_s ev (st, c) = None"
  by (simp_all add: route_step.simps cong: list.case_cong)

lemma route_stepE:
  assumes "route_step api wire E m now_s ev (st, c) = Some (st', c')"
  obtains
    (round) "pc st = RoundStart" "st' = begin_round (topo c) st" "c' = c"
  | (ended) "pc st = Walking" "remaining st = []" "round_end st c = (st', c')"
  | (visited) t t' r rs where "pc st = Walking" "remaining st = r # rs"
      "or_panic (visit api t t' m now_s r (st\<lparr>remaining := rs\<rparr>) c) (st\<lparr>remaining := rs\<rparr>) c = (st', c')"
  | (answered) r sent at el where "pc st = Attempting r"
      "attempt_on api wire E sent at el r Walking st c = (st', c')"
  | (park_answered) r sent at el where "pc st = ParkAttempting r"
      "attempt_on api wire E sent at el r RoundStart st c = (st', c')"
  | (woke) d where "pc st = Sleeping d" "ev = Wake" "st' = st\<lparr>pc := RoundStart\<rparr>"
      "c' = emit (GaugeGuard_drop SLEEP_QUEUE) c"
  | (polled) r t t' where "pc st = Parked r" "ev = Poll t t'"
      "or_panic (unpark api t t' m r st c) st c = (st', c')"
  | (expired) "(\<exists>r. pc st = Attempting r) \<or> (\<exists>r. pc st = ParkAttempting r) \<or> (\<exists>d. pc st = Sleeping d) \<or> (\<exists>r. pc st = Parked r)"
      "ev = Expire" "expire api st c = (st', c')"
proof (cases "pc st")
  case RoundStart
  with assms have "st' = begin_round (topo c) st \<and> c' = c"
    unfolding route_step_pc(1) [OF RoundStart] by (cases ev) auto
  with round RoundStart show ?thesis by blast
next
  case Walking
  with assms obtain t t' where "ev = Go t t'"
    unfolding route_step_pc(2) [OF Walking] by (cases ev) auto
  then show ?thesis
    using assms ended [OF Walking] visited [OF Walking, of _ _ t t']
    unfolding route_step_pc(2) [OF Walking] by (cases "remaining st") auto
next
  case (Attempting r)
  show ?thesis
    using assms answered [OF Attempting] expired Attempting
    unfolding route_step_pc(3) [OF Attempting] by (cases ev) auto
next
  case (Sleeping d)
  show ?thesis
    using assms woke [OF Sleeping] expired Sleeping
    unfolding route_step_pc(4) [OF Sleeping] by (cases ev) auto
next
  case (Parked r)
  show ?thesis
    using assms polled [OF Parked] expired Parked
    unfolding route_step_pc(5) [OF Parked] by (cases ev) auto
next
  case (ParkAttempting r)
  show ?thesis
    using assms park_answered [OF ParkAttempting] expired ParkAttempting
    unfolding route_step_pc(6) [OF ParkAttempting] by (cases ev) auto
next
  case (Finished res)
  show ?thesis using assms unfolding route_step_pc(7) [OF Finished] by simp
next
  case Panicked
  show ?thesis using assms unfolding route_step_pc(8) [OF Panicked] by simp
qed

section \<open>The invariant of one request\<close>

text \<open>
  Inside a round: the part of the order already walked is accounted for, and the node the
  request may park on has not been tried.
\<close>

definition round_ok :: "('l, 's, 'u, 'd) rpc_client \<Rightarrow> route_state \<Rightarrow> bool" where
  "round_ok c st \<longleftrightarrow>
     (\<forall>r \<in> set (t_ranked (round_topo st)). r < length (cells c)) \<and>
     distinct (map (slot c) (t_ranked (round_topo st))) \<and>
     (ignore_penalty st \<longrightarrow> \<not> penalized st) \<and>
     (\<exists>vs. t_ranked (round_topo st) = vs @ remaining st \<and>
        (\<forall>v \<in> set vs. bit (tried st) (slot c v) \<or> best_time st \<noteq> None \<or> saturated st \<noteq> None \<or> penalized st) \<and>
        (\<forall>s. saturated st = Some s \<longrightarrow> s \<in> set vs \<and> \<not> bit (tried st) (slot c s)))"

definition exhausted :: "('l, 's, 'u, 'd) rpc_client \<Rightarrow> route_state \<Rightarrow> bool" where
  "exhausted c st \<longleftrightarrow>
     (\<forall>r \<in> set (t_ranked (round_topo st)). r < length (cells c) \<and> bit (tried st) (slot c r))"

definition route_wf :: "('l, 's, 'u, 'd) rpc_client \<Rightarrow> route_state \<Rightarrow> bool" where
  "route_wf c st \<longleftrightarrow>
     (case pc st of
        RoundStart \<Rightarrow> True
      | Walking \<Rightarrow> round_ok c st
      | Attempting r \<Rightarrow> round_ok c st \<and> r < length (cells c) \<and> bit (tried st) (slot c r)
      | Sleeping _ \<Rightarrow> True
      | Parked r \<Rightarrow> r < length (cells c) \<and> \<not> bit (tried st) (slot c r)
      | ParkAttempting r \<Rightarrow> r < length (cells c) \<and> bit (tried st) (slot c r)
      | Finished res \<Rightarrow> (res = Inl AllNodesFailed \<longrightarrow> exhausted c st)
      | Panicked \<Rightarrow> False)"

lemma round_okI:
  assumes "t_ranked (round_topo st) = vs @ remaining st"
    and "\<forall>r \<in> set (t_ranked (round_topo st)). r < length (cells c)"
    and "distinct (map (slot c) (t_ranked (round_topo st)))"
    and "ignore_penalty st \<longrightarrow> \<not> penalized st"
    and "\<forall>v \<in> set vs. bit (tried st) (slot c v) \<or> best_time st \<noteq> None \<or> saturated st \<noteq> None \<or> penalized st"
    and "\<forall>s. saturated st = Some s \<longrightarrow> s \<in> set vs \<and> \<not> bit (tried st) (slot c s)"
  shows "round_ok c st"
  unfolding round_ok_def using assms by blast

lemma round_okE:
  assumes "round_ok c st"
  obtains vs where "t_ranked (round_topo st) = vs @ remaining st"
    "\<forall>r \<in> set (t_ranked (round_topo st)). r < length (cells c)"
    "distinct (map (slot c) (t_ranked (round_topo st)))"
    "ignore_penalty st \<longrightarrow> \<not> penalized st"
    "\<forall>v \<in> set vs. bit (tried st) (slot c v) \<or> best_time st \<noteq> None \<or> saturated st \<noteq> None \<or> penalized st"
    "\<forall>s. saturated st = Some s \<longrightarrow> s \<in> set vs \<and> \<not> bit (tried st) (slot c s)"
  using assms unfolding round_ok_def by blast

lemma round_ok_keeps:
  assumes "round_ok c st" and k: "keeps (cells c) (cells c')"
  shows "round_ok c' st"
  using assms(1)
proof (rule round_okE)
  fix vs assume vs: "t_ranked (round_topo st) = vs @ remaining st"
    and lt: "\<forall>r \<in> set (t_ranked (round_topo st)). r < length (cells c)"
    and d: "distinct (map (slot c) (t_ranked (round_topo st)))"
    and p: "ignore_penalty st \<longrightarrow> \<not> penalized st"
    and v: "\<forall>v \<in> set vs. bit (tried st) (slot c v) \<or> best_time st \<noteq> None \<or> saturated st \<noteq> None \<or> penalized st"
    and s: "\<forall>s. saturated st = Some s \<longrightarrow> s \<in> set vs \<and> \<not> bit (tried st) (slot c s)"
  have eq: "slot c' r = slot c r" if "r \<in> set (t_ranked (round_topo st))" for r
    using keeps_id [OF k] lt that by blast
  then have "map (slot c') (t_ranked (round_topo st)) = map (slot c) (t_ranked (round_topo st))" by simp
  with d have d': "distinct (map (slot c') (t_ranked (round_topo st)))" by (simp only:)
  have "length (cells c) \<le> length (cells c')" using k by (simp add: keeps_def)
  then have lt': "\<forall>r \<in> set (t_ranked (round_topo st)). r < length (cells c')"
    using lt by (meson less_le_trans)
  have "slot c' u = slot c u" if "u \<in> set vs" for u using eq vs that by simp
  then show ?thesis
    using v s by (intro round_okI [OF vs lt' d' p]) auto
qed

lemma exhausted_keeps: "exhausted c st \<Longrightarrow> keeps (cells c) (cells c') \<Longrightarrow> exhausted c' st"
  unfolding exhausted_def keeps_def same_config_def by fastforce

lemma route_wf_keeps:
  assumes "route_wf c st" and k: "keeps (cells c) (cells c')"
  shows "route_wf c' st"
proof -
  have lt: "r < length (cells c')" "slot c' r = slot c r" if "r < length (cells c)" for r
    using k keeps_id [OF k that] that by (auto simp: keeps_def)
  show ?thesis
    using assms(1) round_ok_keeps [OF _ k] exhausted_keeps [OF _ k] lt
    by (cases "pc st") (auto simp: route_wf_def)
qed

lemma route_wf_evolves: "route_wf c st \<Longrightarrow> evolves c c' \<Longrightarrow> route_wf c' st"
  unfolding evolves_def using route_wf_keeps by blast

lemma route_wf_init [simp]: "route_wf c route_init"
  by (simp add: route_wf_def route_init_def)

section \<open>Steps keep the invariant\<close>

lemma attempt_on_effect:
  assumes sem: "semaphore_ok api permits" and r: "r < length (cells c)"
    and step: "attempt_on api wire E sent at el r nxt st c = (st', c')"
  shows "local_step r c c' \<and> nodes_usage c' = nodes_usage c \<and> sleepers c' = sleepers c \<and>
    free_permits permits c' r = Suc (free_permits permits c r) \<and> st' = st\<lparr>pc := pc st'\<rparr> \<and>
    (pc st' = nxt \<or> (\<exists>x. pc st' = Finished (Inr x)))"
proof -
  obtain res ops n where n: "attempt wire E at el (cells c ! r) sent = (res, ops, n)" by (metis prod_cases3)
  have same: "same_config (cells c ! r) n" "limits n = limits (cells c ! r)" using attempt_frame [OF n] by auto
  have ops: "sum_list (map gauge_delta ops) = 0" using n by (auto simp: attempt_by_outcome)
  have c': "c' = release api r (emit ops (set_cell r n c))"
    and st': "st' = st\<lparr>pc := (case res of Done status body \<Rightarrow> Finished (Inr (status, body)) | Retry \<Rightarrow> nxt)\<rparr>"
    using step n by (simp_all add: attempt_on_def)
  have "local_step r c c'"
    unfolding c' using local_step_trans [OF _ local_step_release, of r c "emit ops (set_cell r n c)" api]
      local_step_set_cell [OF same(1)] r by simp
  moreover have "free_permits permits c' r = Suc (free_permits permits c r)"
    using sem r same(2) by (simp add: c' free_permits_def semaphore_ok_def)
  ultimately show ?thesis
    using ops by (cases res) (auto simp: c' st' sleepers_emit)
qed

lemma topo_wf_slots:
  assumes "topo_wf (cells c) tp"
  shows "distinct (map (slot c) (t_ranked tp))" "\<forall>r \<in> set (t_ranked tp). r < length (cells c)"
  using assms topo_wf_distinct [OF assms] topo_wf_ids [OF assms]
  by (auto simp: distinct_map inj_on_def topo_wf_def)

lemma begin_round_wf: "client_wf c \<Longrightarrow> route_wf c (begin_round (topo c) st)"
  unfolding route_wf_def begin_round_def
  using topo_wf_slots [of c "topo c"] by (auto simp: client_wf_def intro!: round_okI [where vs = "[]"])

lemma round_end_wf:
  assumes "round_ok c st" and "remaining st = []" and "round_end st c = (st', c')"
  shows "route_wf c st'"
  using assms(1)
proof (rule round_okE)
  fix vs assume "t_ranked (round_topo st) = vs @ remaining st"
    "\<forall>r \<in> set (t_ranked (round_topo st)). r < length (cells c)"
    "ignore_penalty st \<longrightarrow> \<not> penalized st"
    "\<forall>v \<in> set vs. bit (tried st) (slot c v) \<or> best_time st \<noteq> None \<or> saturated st \<noteq> None \<or> penalized st"
    "\<forall>s. saturated st = Some s \<longrightarrow> s \<in> set vs \<and> \<not> bit (tried st) (slot c s)"
  with assms(2,3) show ?thesis
    by (auto simp: round_end_def route_wf_def exhausted_def split: option.splits if_splits)
qed

lemma visit_wf:
  assumes wf: "round_ok c st" and rs: "remaining st = r # rs" and pc: "pc st = Walking"
    and i: "slot c r < 64"
    and st': "st' = (st\<lparr>remaining := rs\<rparr>) \<and> bit (tried st) (slot c r)
      \<or> st' = st\<lparr>remaining := rs, penalized := True\<rparr> \<and> \<not> ignore_penalty st
      \<or> st' = noted a r (slot c r) (st\<lparr>remaining := rs\<rparr>) \<and> \<not> bit (tried st) (slot c r)"
  shows "route_wf c st'"
  using wf
proof (rule round_okE)
  fix vs assume vs: "t_ranked (round_topo st) = vs @ remaining st"
    and lt: "\<forall>r \<in> set (t_ranked (round_topo st)). r < length (cells c)"
    and d: "distinct (map (slot c) (t_ranked (round_topo st)))"
    and p: "ignore_penalty st \<longrightarrow> \<not> penalized st"
    and v: "\<forall>v \<in> set vs. bit (tried st) (slot c v) \<or> best_time st \<noteq> None \<or> saturated st \<noteq> None \<or> penalized st"
    and s: "\<forall>s. saturated st = Some s \<longrightarrow> s \<in> set vs \<and> \<not> bit (tried st) (slot c s)"
  have split: "t_ranked (round_topo st) = (vs @ [r]) @ rs" using vs rs by simp
  have r: "r < length (cells c)" using lt split by simp
  have ne: "slot c u \<noteq> slot c r" if "u \<in> set vs" for u
    using d imageI [OF that, of "slot c"] unfolding split by auto
  have topo: "round_topo st' = round_topo st" "remaining st' = rs"
    using st' by (cases a; auto simp: noted_def)+
  let ?new = "(ignore_penalty st' \<longrightarrow> \<not> penalized st') \<and>
    (\<forall>u \<in> set (vs @ [r]). bit (tried st') (slot c u) \<or> best_time st' \<noteq> None \<or> saturated st' \<noteq> None \<or> penalized st') \<and>
    (\<forall>z. saturated st' = Some z \<longrightarrow> z \<in> set (vs @ [r]) \<and> \<not> bit (tried st') (slot c z))"
  have new: ?new
    using st'
  proof (elim disjE conjE)
    assume "st' = noted a r (slot c r) (st\<lparr>remaining := rs\<rparr>)" "\<not> bit (tried st) (slot c r)"
    with p v s ne i show ?new
      by (cases a) (auto simp: noted_def split: option.splits)
  qed (use p v s in auto)
  have "round_ok c st'"
    by (rule round_okI [of _ "vs @ [r]"]) (use lt d topo split new in simp_all)
  moreover have "pc st' = Walking \<or> pc st' = Attempting r \<and> bit (tried st') (slot c r)"
    using st' pc i by (cases a) (auto simp: noted_def)
  ultimately show ?thesis using r by (auto simp: route_wf_def)
qed

section \<open>The effect of one step\<close>

text \<open>The permit and the gauge guard the future holds in a state.\<close>

fun holding :: "pc \<Rightarrow> nat option" where
  "holding (Attempting r) = Some r"
| "holding (ParkAttempting r) = Some r"
| "holding _ = None"

fun guarding :: "pc \<Rightarrow> int" where
  "guarding (Sleeping _) = 1"
| "guarding (Parked _) = 1"
| "guarding _ = 0"

definition held :: "route_state \<Rightarrow> nat \<Rightarrow> nat" where
  "held st r = (if holding (pc st) = Some r then 1 else 0)"

text \<open>
  A step books exactly when it starts an attempt, and then the price of the method on a slot
  that was not tried before.
\<close>

definition booked ::
  "nat \<Rightarrow> route_state \<Rightarrow> ('l, 's, 'u, 'd) rpc_client \<Rightarrow> route_state \<Rightarrow> ('l, 's, 'u, 'd) rpc_client \<Rightarrow> bool" where
  "booked method_id st c st' c' \<longleftrightarrow>
     (case holding (pc st') of
        Some r \<Rightarrow>
          (let node = cells c ! r; i = node_id node; price = cost (method_costs node) method_id
           in holding (pc st) = None \<and> r < length (cells c) \<and> i < 64 \<and>
              \<not> bit (tried st) i \<and> tried st' = tried st OR 2 ^ i \<and> price \<noteq> u32_MAX \<and>
              nodes_usage c ! i \<le> spillover_threshold node \<and>
              nodes_usage c' = (nodes_usage c)[i := nodes_usage c ! i + ucast price])
      | None \<Rightarrow> nodes_usage c' = nodes_usage c \<and>
          (tried st' = tried st \<or>
           (\<exists>r < length (cells c). let i = slot c r in i < 64 \<and> \<not> bit (tried st) i \<and>
              tried st' = tried st OR 2 ^ i \<and> refuses c method_id r)))"

definition step_effect ::
  "('s \<Rightarrow> nat) \<Rightarrow> nat \<Rightarrow> route_state \<Rightarrow> ('l, 's, 'u, 'd) rpc_client
     \<Rightarrow> route_state \<Rightarrow> ('l, 's, 'u, 'd) rpc_client \<Rightarrow> bool" where
  "step_effect permits method_id st c st' c' \<longleftrightarrow>
     route_wf c' st' \<and> evolves c c' \<and>
     (\<forall>r < length (cells c). free_permits permits c' r + held st' r = free_permits permits c r + held st r) \<and>
     sleepers c' = sleepers c + guarding (pc st') - guarding (pc st) \<and>
     booked method_id st c st' c'"

lemma evolves_refl: "client_wf c \<Longrightarrow> evolves c c"
  by (simp add: evolves_def)

lemma evolves_emit: "evolves c c' \<Longrightarrow> evolves c (emit ops c')"
  by (simp add: evolves_def)

lemma free_permits_emit [simp]: "free_permits permits (emit ops c) r = free_permits permits c r"
  by (simp add: free_permits_def)

lemma free_permits_other: "local_step r c c' \<Longrightarrow> r' \<noteq> r \<Longrightarrow> free_permits permits c' r' = free_permits permits c r'"
  by (simp add: free_permits_def local_step_other)

lemma route_wf_cells: "cells c' = cells c \<Longrightarrow> route_wf c' st = route_wf c st"
  using route_wf_keeps [of c st c'] route_wf_keeps [of c' st c] by auto

text \<open>Steps that only move the program counter and emit metrics.\<close>

lemma quiet_step:
  assumes "client_wf c" and "route_wf c st'" and "holding (pc st) = None" and "holding (pc st') = None"
    and "tried st' = tried st" and "sum_list (map gauge_delta ops) = guarding (pc st') - guarding (pc st)"
  shows "step_effect permits m st c st' (emit ops c)"
  using assms
  by (simp add: step_effect_def booked_def held_def sleepers_emit evolves_emit evolves_refl
      route_wf_cells [of "emit ops c" c])

text \<open>Steps that end an attempt.\<close>

lemma attempt_over:
  assumes "client_wf c" and "local_step r c c'" and "r < length (cells c)" and "nodes_usage c' = nodes_usage c"
    and "sleepers c' = sleepers c" and "free_permits permits c' r = Suc (free_permits permits c r)"
    and "holding (pc st) = Some r" and "holding (pc st') = None" and "tried st' = tried st"
    and "guarding (pc st') = 0" and "route_wf c st'"
  shows "step_effect permits m st c st' c'"
proof -
  have e: "evolves c c'" using local_step_wf [OF assms(1-3)] .
  have g: "guarding (pc st) = 0" using assms(7) by (cases "pc st") auto
  have "free_permits permits c' r' + held st' r' = free_permits permits c r' + held st r'" for r'
    using assms(6-8) free_permits_other [OF assms(2)] by (cases "r' = r") (auto simp: held_def)
  then show ?thesis
    using e g assms(4,5,8-11) route_wf_evolves [OF assms(11) e] by (simp add: step_effect_def booked_def)
qed

text \<open>Steps that asked a node for admission.\<close>

lemma admission_step:
  assumes "client_wf c" and r: "r < length (cells c)"
    and adm: "admitted permits m r a (free_permits permits c r) c0 c1"
    and c0: "cells c0 = cells c" "nodes_usage c0 = nodes_usage c" "topo c0 = topo c" "periods c0 = periods c"
      "custom_methods c0 = custom_methods c"
    and c': "cells c' = cells c1" "nodes_usage c' = nodes_usage c1" "topo c' = topo c1" "periods c' = periods c1"
      "custom_methods c' = custom_methods c1"
    and fresh: "\<not> bit (tried st) (slot c r)" and st: "holding (pc st) = None"
    and ready: "a = Ready \<Longrightarrow> holding (pc st') = Some r \<and> tried st' = tried st OR 2 ^ slot c r"
    and busy: "a \<noteq> Ready \<Longrightarrow> holding (pc st') = None \<and>
      (tried st' = tried st \<or> a = Skip \<and> tried st' = tried st OR 2 ^ slot c r)"
    and g: "sleepers c' = sleepers c + guarding (pc st') - guarding (pc st)" and wf: "route_wf c st'"
  shows "step_effect permits m st c st' c'"
proof -
  have loc: "local_step r c c'" using adm c0 c' by (simp add: admitted_def local_step_def)
  have e: "evolves c c'" using local_step_wf [OF assms(1) loc r] .
  have i: "slot c r < 64" using client_wf_slot [OF assms(1) r] by simp
  have "free_permits permits c' r' + held st' r' = free_permits permits c r' + held st r'" for r'
  proof (cases "r' = r")
    case True
    then show ?thesis
      using adm ready busy st c0 c' by (cases "a = Ready") (auto simp: admitted_def Let_def held_def free_permits_def)
  next
    case False
    then show ?thesis
      using free_permits_other [OF loc] ready busy st by (cases "a = Ready") (auto simp: held_def)
  qed
  moreover have "refuses c0 m r = refuses c m r" by (simp add: refuses_def c0)
  then have "booked m st c st' c'"
    using adm ready busy st fresh i r c0 c'
    by (cases "a = Ready") (auto simp: admitted_def Let_def booked_def)
  ultimately show ?thesis
    using e g route_wf_evolves [OF wf e] by (simp add: step_effect_def)
qed

lemma quiet_step_id:
  assumes "client_wf c" and "route_wf c st'" and "holding (pc st) = None" and "holding (pc st') = None"
    and "tried st' = tried st" and "guarding (pc st') = guarding (pc st)"
  shows "step_effect permits m st c st' c"
  using assms by (simp add: step_effect_def booked_def held_def evolves_refl)

lemma sleepers_shift: "admitted permits m r a b (emit ops c) c' \<Longrightarrow> sleepers c' = sleepers c + sum_list (map gauge_delta ops)"
  by (simp add: admitted_def sleepers_emit)

lemma noted_facts:
  "a = Ready \<Longrightarrow> holding (pc (noted a r i st)) = Some r \<and> tried (noted a r i st) = tried st OR 2 ^ i"
  "a \<noteq> Ready \<Longrightarrow> pc (noted a r i st) = pc st \<and>
     (tried (noted a r i st) = tried st \<or> a = Skip \<and> tried (noted a r i st) = tried st OR 2 ^ i)"
  "guarding (pc st) = 0 \<Longrightarrow> guarding (pc (noted a r i st)) = 0"
  by (cases a; simp add: noted_def)+

lemma visited_effect:
  assumes sem: "semaphore_ok api permits" and c: "client_wf c" and st: "pc st = Walking" "round_ok c st"
    and rs: "remaining st = r # rs"
    and v: "or_panic (visit api t t' m now_s r (st\<lparr>remaining := rs\<rparr>) c) (st\<lparr>remaining := rs\<rparr>) c = (st', c')"
  shows "step_effect permits m st c st' c'"
proof -
  let ?st = "st\<lparr>remaining := rs\<rparr>"
  have r: "r < length (cells c)" using st(2) rs by (auto elim!: round_okE)
  have i: "slot c r < 64" using client_wf_slot [OF c r] by simp
  note wf = visit_wf [OF st(2) rs st(1) i]
  from sem c r show ?thesis
  proof (cases rule: visit_cases [where st = ?st and t = t and t' = t' and m = m and now_s = now_s])
    case seen
    with v have "st' = ?st" "c' = c" by (simp_all add: or_panic_def)
    with seen wf [of st'] c st show ?thesis by (auto intro: quiet_step_id)
  next
    case penalty
    with v have e: "st' = st\<lparr>remaining := rs, penalized := True\<rparr>" "c' = skip_node SkipPenalized r c"
      by (simp_all add: or_panic_def)
    with penalty wf [of st'] c st show ?thesis
      unfolding e(2) skip_node_def by (intro quiet_step) auto
  next
    case (asked a c1)
    with v have e: "st' = noted a r (slot c r) ?st" "c' = c1" by (simp_all add: or_panic_def)
    have "route_wf c st'" using wf [of st' a] e asked by simp
    then show ?thesis
      using asked st noted_facts(1,2) [of a r "slot c r" ?st] noted_facts(3) [of ?st a r "slot c r"] admitted_local [OF asked(4)] e
      by (intro admission_step [OF c r asked(4)]) auto
  qed
qed

lemma polled_effect:
  assumes sem: "semaphore_ok api permits" and c: "client_wf c" and st: "pc st = Parked r"
    and wf: "r < length (cells c)" "\<not> bit (tried st) (slot c r)"
    and v: "or_panic (unpark api t t' m r st c) st c = (st', c')"
  shows "step_effect permits m st c st' c'"
proof -
  have i: "slot c r < 64" using client_wf_slot [OF c wf(1)] by simp
  from sem c wf(1) show ?thesis
  proof (cases rule: unpark_cases [where t = t and t' = t' and m = m and st = st])
    case queued
    with v have "st' = st" "c' = c" by (simp_all add: or_panic_def)
    with c st wf show ?thesis by (auto intro!: quiet_step_id simp: route_wf_def)
  next
    case (granted a c1)
    with v have e: "unparked a r (slot c r) st c1 = (st', c')" by (simp add: or_panic_def)
    have "sleepers c1 = sleepers c - 1" using sleepers_shift [OF granted(2)] by simp
    with e granted(1) st wf i show ?thesis
      by (intro admission_step [OF c wf(1) granted(2)])
        (cases a; auto simp: unparked_def route_wf_def sleepers_emit)+
  qed
qed

lemma round_end_effect:
  assumes c: "client_wf c" and st: "pc st = Walking" "round_ok c st" "remaining st = []"
    and e: "round_end st c = (st', c')"
  shows "step_effect permits m st c st' c'"
proof -
  have wf: "route_wf c st'" by (rule round_end_wf [OF st(2,3) e])
  show ?thesis
  proof (cases "best_time st = None \<and> saturated st = None")
    case True
    with e have "c' = c" "holding (pc st') = None" "guarding (pc st') = 0" "tried st' = tried st"
      by (auto simp: round_end_def split: if_splits)
    with c wf st(1) show ?thesis by (auto intro: quiet_step_id)
  next
    case False
    with e have "c' = emit sleeping_on_rate_limit c" "holding (pc st') = None" "guarding (pc st') = 1"
      "tried st' = tried st"
      by (auto simp: round_end_def admit_waiting_begin_def split: option.splits)
    with c wf st(1) show ?thesis by (auto intro: quiet_step)
  qed
qed

lemma expire_effect:
  assumes sem: "semaphore_ok api permits" and c: "client_wf c" and wf: "route_wf c st"
    and st: "(\<exists>r. pc st = Attempting r) \<or> (\<exists>r. pc st = ParkAttempting r) \<or> (\<exists>d. pc st = Sleeping d) \<or> (\<exists>r. pc st = Parked r)"
    and e: "expire api st c = (st', c')"
  shows "step_effect permits m st c st' c'"
proof -
  have st': "pc st' = Finished (Inl Timeout)" "tried st' = tried st" "route_wf c st'"
    using e by (auto simp: expire_def route_wf_def)
  show ?thesis
  proof (cases "holding (pc st)")
    case None
    then have "c' = emit (GaugeGuard_drop SLEEP_QUEUE) c" "guarding (pc st) = 1"
      using st e by (auto simp: expire_def)
    then show ?thesis using c None st' by (auto intro: quiet_step)
  next
    case (Some r)
    then have c': "c' = release api r c" using st e by (cases "pc st") (auto simp: expire_def)
    from Some have r: "r < length (cells c)" using st wf by (cases "pc st") (auto simp: route_wf_def)
    have "free_permits permits c' r = Suc (free_permits permits c r)"
      using sem r by (simp add: c' free_permits_def semaphore_ok_def)
    then show ?thesis
      using c r Some st' c' by (intro attempt_over [where r = r]) (auto intro: local_step_release)
  qed
qed

lemma answered_effect:
  assumes sem: "semaphore_ok api permits" and c: "client_wf c" and r: "r < length (cells c)"
    and st: "holding (pc st) = Some r" and nxt: "holding nxt = None" "guarding nxt = 0" "route_wf c (st\<lparr>pc := nxt\<rparr>)"
    and e: "attempt_on api wire E sent at el r nxt st c = (st', c')"
  shows "step_effect permits m st c st' c'"
proof -
  note eff = attempt_on_effect [OF sem r e]
  have "route_wf c (st\<lparr>pc := Finished (Inr x)\<rparr>)" for x by (simp add: route_wf_def)
  then have "route_wf c st'" "holding (pc st') = None" "guarding (pc st') = 0" "tried st' = tried st"
    using eff nxt by (metis, metis holding.simps(7), metis guarding.simps(7), metis route_state.select_convs(2) route_state.surjective route_state.update_convs(1))
  with eff c r st show ?thesis by (intro attempt_over [where r = r]) auto
qed

lemma route_step_effect:
  assumes sem: "semaphore_ok api permits" and c: "client_wf c" and wf: "route_wf c st"
    and step: "route_step api wire E m now_s ev (st, c) = Some (st', c')"
  shows "step_effect permits m st c st' c'"
  using step
proof (cases rule: route_stepE)
  case round
  then show ?thesis
    using c begin_round_wf [OF c, of st] by (auto intro!: quiet_step_id simp: begin_round_def)
next
  case ended
  with c wf show ?thesis by (auto intro: round_end_effect simp: route_wf_def)
next
  case (visited t t' r rs)
  with sem c wf show ?thesis by (auto intro: visited_effect simp: route_wf_def)
next
  case (answered r sent at el)
  with sem c wf show ?thesis by (auto intro!: answered_effect simp: route_wf_def round_ok_def)
next
  case (park_answered r sent at el)
  with sem c wf show ?thesis by (auto intro!: answered_effect simp: route_wf_def)
next
  case (woke d)
  with c show ?thesis by (auto intro!: quiet_step simp: route_wf_def)
next
  case (polled r t t')
  with sem c wf show ?thesis by (auto intro: polled_effect simp: route_wf_def)
next
  case expired
  with sem c wf show ?thesis by (intro expire_effect)
qed

end
