(* ===== verification/Route_Execution.thy ===== *)
theory Route_Execution
  imports Routing
begin

text \<open>
  Whole executions of one request among other tasks, and the properties of the routing loop.
  Between two steps of the request the shared state may change in any way that \<^const>\<open>evolves\<close>
  allows: other requests, ranking rounds, reloads, rollovers. The ledger of an execution lists,
  in order, every attempt the request starts, with the quota slot of the node, whether or not
  that slot was marked as tried before, and every slot that it marks as tried without starting
  an attempt, because the node refused it.
\<close>

section \<open>Executions\<close>

type_synonym ledger = "(nat \<times> bool) list"

definition entries :: "('l, 's, 'u, 'd) rpc_client \<Rightarrow> route_state \<Rightarrow> route_state \<Rightarrow> ledger" where
  "entries c st st' =
     (case holding (pc st') of
        Some r \<Rightarrow> [(slot c r, True)]
      | None \<Rightarrow> map (\<lambda>i. (i, False)) (filter (\<lambda>i. bit (tried st') i \<and> \<not> bit (tried st) i) [0..<64]))"

definition exec_init :: "ledger \<times> route_state \<times> ('l, 's, 'u, 'd) rpc_client \<Rightarrow> bool" where
  "exec_init x \<longleftrightarrow> (case x of (led, st, c) \<Rightarrow> led = [] \<and> st = route_init \<and> client_wf c)"

inductive exec_step ::
  "('l, 's, 'u) node_api \<Rightarrow> wire_api \<Rightarrow> instant \<Rightarrow> nat \<Rightarrow> u32
     \<Rightarrow> ledger \<times> route_state \<times> ('l, 's, 'u, 'd) rpc_client
     \<Rightarrow> ledger \<times> route_state \<times> ('l, 's, 'u, 'd) rpc_client \<Rightarrow> bool"
  for api :: "('l, 's, 'u) node_api" and wire :: wire_api and EPOCH :: instant and method_id :: nat and now_s :: u32
where
  own: "route_step api wire EPOCH method_id now_s ev (st, c) = Some (st', c') \<Longrightarrow>
    exec_step api wire EPOCH method_id now_s (led, st, c) (led @ entries c st st', st', c')"
| others: "evolves c c' \<Longrightarrow> exec_step api wire EPOCH method_id now_s (led, st, c) (led, st, c')"

inductive_cases exec_stepE: "exec_step api wire EPOCH method_id now_s x y"

definition exec_inv ::
  "('l, 's, 'u) node_api \<Rightarrow> ('s \<Rightarrow> nat) \<Rightarrow> ledger \<times> route_state \<times> ('l, 's, 'u, 'd) rpc_client \<Rightarrow> bool" where
  "exec_inv api permits x \<longleftrightarrow> (case x of (led, st, c) \<Rightarrow>
     semaphore_ok api permits \<longrightarrow>
       client_wf c \<and> route_wf c st \<and> distinct (map fst led) \<and>
       (\<forall>i. i \<in> set (map fst led) \<longleftrightarrow> i < 64 \<and> bit (tried st) i))"

lemma bit_route_init [simp]: "\<not> bit (tried route_init) i"
  by (simp add: route_init_def)

lemma booked_monotone:
  assumes "booked m st c st' c'" and "bit (tried st) i"
  shows "bit (tried st') i"
  using assms by (auto simp: booked_def Let_def split: option.splits)

text \<open>The ledger lists the tried slots, each once, as long as a step books only untried ones.\<close>

lemma entries_booked:
  assumes b: "booked m st c st' c'" and "distinct (map fst led)"
    and led: "\<And>i. i \<in> fst ` set led \<longleftrightarrow> i < 64 \<and> bit (tried st) i"
  shows "distinct (map fst (led @ entries c st st')) \<and>
    (\<forall>i. i \<in> set (map fst (led @ entries c st st')) \<longleftrightarrow> i < 64 \<and> bit (tried st') i)"
proof (cases "holding (pc st')")
  case None
  have mono: "bit (tried st') i" if "bit (tried st) i" for i by (rule booked_monotone [OF b that])
  have fst: "map fst (entries c st st') = filter (\<lambda>i. bit (tried st') i \<and> \<not> bit (tried st) i) [0..<64]"
    by (simp add: entries_def None comp_def)
  have "i \<in> set (map fst (led @ entries c st st')) \<longleftrightarrow> i < 64 \<and> bit (tried st') i" for i
    using led [of i] mono [of i] unfolding map_append set_append fst by auto
  moreover have "distinct (map fst (led @ entries c st st'))"
    using assms(2) led unfolding map_append fst by auto
  ultimately show ?thesis by blast
next
  case (Some r)
  then have "slot c r < 64" "\<not> bit (tried st) (slot c r)" "tried st' = tried st OR 2 ^ slot c r"
    using b by (auto simp: booked_def Let_def)
  with Some assms(2) led show ?thesis by (auto simp: entries_def)
qed

lemma exec_inv_own:
  assumes inv: "exec_inv api permits (led, st, c)"
    and step: "route_step api wire E m now_s ev (st, c) = Some (st', c')"
  shows "exec_inv api permits (led @ entries c st st', st', c')"
proof -
  have "client_wf c' \<and> route_wf c' st' \<and> distinct (map fst (led @ entries c st st')) \<and>
      (\<forall>i. i \<in> set (map fst (led @ entries c st st')) \<longleftrightarrow> i < 64 \<and> bit (tried st') i)"
    if sem: "semaphore_ok api permits"
  proof -
    have led: "client_wf c" "route_wf c st" "distinct (map fst led)"
      "\<And>i. i \<in> fst ` set led \<longleftrightarrow> i < 64 \<and> bit (tried st) i"
      using inv sem by (auto simp: exec_inv_def)
    have eff: "step_effect permits m st c st' c'"
      by (rule route_step_effect [OF sem led(1,2) step])
    then have b: "booked m st c st' c'" by (simp add: step_effect_def)
    from entries_booked [OF b led(3,4)] eff show ?thesis by (simp add: step_effect_def evolves_def)
  qed
  then show ?thesis unfolding exec_inv_def prod.case by blast
qed

lemma exec_inv_others: "exec_inv api permits (led, st, c) \<Longrightarrow> evolves c c' \<Longrightarrow> exec_inv api permits (led, st, c')"
  by (auto simp: exec_inv_def evolves_def intro: route_wf_keeps)

interpretation routing: invariant_machine exec_init "exec_step api wire EPOCH method_id now_s"
  "exec_inv api permits" for api wire EPOCH method_id now_s permits
proof
  fix s :: "ledger \<times> route_state \<times> ('a, 'b, 'c, 'd) rpc_client"
  assume "exec_init s"
  then show "exec_inv api permits s" by (auto simp: exec_init_def exec_inv_def)
next
  fix s t :: "ledger \<times> route_state \<times> ('a, 'b, 'c, 'd) rpc_client"
  assume "exec_inv api permits s" "exec_step api wire EPOCH method_id now_s s t"
  then show "exec_inv api permits t"
    by (auto elim!: exec_stepE dest: exec_inv_own exec_inv_others)
qed

section \<open>Progress\<close>

definition untried :: "u64 \<Rightarrow> nat" where
  "untried w = card {i. i < 64 \<and> \<not> bit w i}"

fun phase :: "pc \<Rightarrow> nat \<Rightarrow> nat" where
  "phase RoundStart _ = 68"
| "phase Walking n = 2 + n"
| "phase (Attempting _) n = 3 + n"
| "phase (Sleeping _) _ = 1"
| "phase (Parked _) _ = 1"
| "phase (ParkAttempting _) _ = 69"
| "phase (Finished _) _ = 0"
| "phase Panicked _ = 0"

definition route_measure :: "route_state \<Rightarrow> nat" where
  "route_measure st =
     1000 * untried (tried st) + (if ignore_penalty st then 0 else 100) + phase (pc st) (length (remaining st))"

lemma untried_or:
  assumes "i < 64" and "\<not> bit w i"
  shows "untried w = Suc (untried (w OR 2 ^ i))"
proof -
  have "{k. k < 64 \<and> \<not> bit w k} = insert i {k. k < 64 \<and> \<not> bit (w OR 2 ^ i) k}"
    using assms by auto
  moreover have "i \<notin> {k. k < 64 \<and> \<not> bit (w OR 2 ^ i) k}" using assms by simp
  ultimately show ?thesis unfolding untried_def by simp
qed

lemma untried_le: "untried w \<le> 64"
proof -
  have "card {i. i < 64 \<and> \<not> bit w i} \<le> card {..<64 :: nat}" by (intro card_mono) auto
  then show ?thesis by (simp add: untried_def)
qed

lemma topo_length:
  assumes "client_wf c"
  shows "length (t_ranked (topo c)) \<le> 64"
proof -
  have t: "topo_wf (cells c) (topo c)" using assms by (simp add: client_wf_def)
  have "set (map (slot c) (t_ranked (topo c))) \<subseteq> {..<64}"
    using topo_wf_slots(2) [OF t] client_wf_slot [OF assms] by auto
  then have "card (set (map (slot c) (t_ranked (topo c)))) \<le> 64"
    using card_mono [of "{..<64 :: nat}"] by fastforce
  with topo_wf_slots(1) [OF t] show ?thesis by (metis distinct_card length_map)
qed

text \<open>The only events that may lead back to a new round for free: a wait came to its end.\<close>

fun is_wait :: "event \<Rightarrow> bool" where
  "is_wait Wake = True"
| "is_wait (Poll _ _) = True"
| "is_wait _ = False"

lemma visited_measure:
  assumes sem: "semaphore_ok api permits" and c: "client_wf c" and st: "pc st = Walking"
    and r: "r < length (cells c)" and rs: "remaining st = r # rs"
    and v: "or_panic (visit api t t' m now_s r (st\<lparr>remaining := rs\<rparr>) c) (st\<lparr>remaining := rs\<rparr>) c = (st', c')"
  shows "route_measure st' < route_measure st"
proof -
  let ?st = "st\<lparr>remaining := rs\<rparr>"
  from sem c r show ?thesis
  proof (cases rule: visit_cases [where st = ?st and t = t and t' = t' and m = m and now_s = now_s])
    case seen
    with v rs st show ?thesis by (auto simp: or_panic_def route_measure_def)
  next
    case penalty
    with v rs st show ?thesis by (auto simp: or_panic_def route_measure_def)
  next
    case (asked a c1)
    with v have e: "st' = noted a r (slot c r) ?st" by (simp add: or_panic_def)
    have "untried (tried st) = Suc (untried (tried st OR 2 ^ slot c r))"
      using asked(1) client_wf_slot [OF c r] by (intro untried_or) auto
    with e rs st show ?thesis
      by (cases a) (auto simp: noted_def route_measure_def)
  qed
qed

lemma polled_measure:
  assumes sem: "semaphore_ok api permits" and c: "client_wf c" and st: "pc st = Parked r"
    and r: "r < length (cells c)" "\<not> bit (tried st) (slot c r)"
    and v: "or_panic (unpark api t t' m r st c) st c = (st', c')"
  shows "route_measure st' \<le> route_measure st + 68"
proof -
  have u: "untried (tried st) = Suc (untried (tried st OR 2 ^ slot c r))"
    using r client_wf_slot [OF c r(1)] by (intro untried_or) auto
  from sem c r(1) show ?thesis
  proof (cases rule: unpark_cases [where t = t and t' = t' and m = m and st = st])
    case queued
    with v show ?thesis by (simp add: or_panic_def)
  next
    case (granted a c1)
    with v have "unparked a r (slot c r) st c1 = (st', c')" by (simp add: or_panic_def)
    with u st show ?thesis by (cases a) (auto simp: unparked_def route_measure_def)
  qed
qed

lemma finished_measure:
  assumes "st' = st\<lparr>pc := pc st'\<rparr>" and "phase (pc st') (length (remaining st)) < phase (pc st) (length (remaining st))"
  shows "route_measure st' < route_measure st"
proof -
  have "tried st' = tried st" "ignore_penalty st' = ignore_penalty st" "remaining st' = remaining st"
    by (subst assms(1), simp)+
  with assms(2) show ?thesis by (simp add: route_measure_def)
qed

lemma attempt_measure:
  assumes sem: "semaphore_ok api permits" and r: "r < length (cells c)"
    and over: "attempt_on api wire E sent at el r nxt st c = (st', c')"
    and "phase nxt (length (remaining st)) < phase (pc st) (length (remaining st))"
    and "\<And>x. phase (Finished (Inr x)) (length (remaining st)) < phase (pc st) (length (remaining st))"
  shows "route_measure st' < route_measure st"
  using attempt_on_effect [OF sem r over] assms(4,5) by (intro finished_measure) auto

lemma route_step_measure:
  assumes sem: "semaphore_ok api permits" and c: "client_wf c" and wf: "route_wf c st"
    and step: "route_step api wire E m now_s ev (st, c) = Some (st', c')"
  shows "if is_wait ev then route_measure st' \<le> route_measure st + 68 else route_measure st' < route_measure st"
proof -
  let ?goal = "(is_wait ev \<or> route_measure st' < route_measure st) \<and> route_measure st' \<le> route_measure st + 68"
  have ?goal
    using step
  proof (cases rule: route_stepE)
    case round
    then show ?goal
      using topo_length [OF c] by (simp add: begin_round_def route_measure_def)
  next
    case ended
    then show ?goal
      by (auto simp: round_end_def route_measure_def split: option.splits if_splits)
  next
    case (visited t t' r rs)
    then have "r < length (cells c)" using wf by (auto simp: route_wf_def elim!: round_okE)
    with visited_measure [OF sem c visited(1) _ visited(2,3)]
    show ?goal by force
  next
    case (answered r sent at el)
    then have "r < length (cells c)" using wf by (simp add: route_wf_def)
    from attempt_measure [OF sem this answered(2)] answered(1) show ?goal by simp
  next
    case (park_answered r sent at el)
    then have "r < length (cells c)" using wf by (simp add: route_wf_def)
    from attempt_measure [OF sem this park_answered(2)] park_answered(1) show ?goal by simp
  next
    case (woke d)
    then show ?goal
      by (simp add: route_measure_def)
  next
    case (polled r t t')
    with wf polled_measure [OF sem c polled(1) _ _ polled(3)]
    show ?goal
      by (simp add: route_wf_def)
  next
    case expired
    then show ?goal
      by (auto simp: expire_def route_measure_def)
  qed
  then show ?thesis by auto
qed

lemma route_measure_bound:
  assumes "client_wf c" and "route_wf c st"
  shows "route_measure st < 64200"
proof -
  have len: "length (remaining st) \<le> 64" if ok: "round_ok c st"
  proof -
    obtain vs where vs: "t_ranked (round_topo st) = vs @ remaining st"
      "\<forall>r \<in> set (t_ranked (round_topo st)). r < length (cells c)"
      "distinct (map (slot c) (t_ranked (round_topo st)))" using ok by (rule round_okE)
    have "card (set (map (slot c) (remaining st))) \<le> card {..<64 :: nat}"
      using vs(1,2) client_wf_slot [OF assms(1)] by (intro card_mono) auto
    moreover have "distinct (map (slot c) (remaining st))" using vs(1,3) by simp
    ultimately show ?thesis by (metis card_lessThan distinct_card length_map)
  qed
  have "phase (pc st) (length (remaining st)) \<le> 69"
    using assms(2) len by (cases "pc st") (auto simp: route_wf_def)
  then show ?thesis using untried_le [of "tried st"] by (simp add: route_measure_def)
qed

lemma step_enabled:
  assumes "\<forall>res. pc st \<noteq> Finished res" and "pc st \<noteq> Panicked"
  shows "\<exists>ev. route_step api wire E m now_s ev (st, c) \<noteq> None"
proof (cases "holding (pc st) \<noteq> None \<or> guarding (pc st) = 1")
  case True
  then show ?thesis by (intro exI [of _ Expire]) (cases "pc st"; simp add: route_step_pc)
next
  case False
  with assms show ?thesis
    by (intro exI [of _ "Go 0 0"]) (cases "pc st"; simp add: route_step_pc split: list.splits)
qed

lemma attempt_on_state:
  assumes "semaphore_ok api permits" and "r < length (cells c)"
    and "attempt_on api wire E sent at el r nxt st c = (st', c')"
  shows "ignore_penalty st' = ignore_penalty st \<and> saturated st' = saturated st \<and> (pc st' = nxt \<or> (\<exists>x. pc st' = Finished (Inr x)))"
proof -
  from attempt_on_effect [OF assms] have e: "st' = st\<lparr>pc := pc st'\<rparr>"
    "pc st' = nxt \<or> (\<exists>x. pc st' = Finished (Inr x))" by blast+
  have "ignore_penalty st' = ignore_penalty st" "saturated st' = saturated st" by (subst e(1), simp)+
  with e(2) show ?thesis by blast
qed

section \<open>The node a round picks\<close>

text \<open>Whether the node would take the request if it were asked now.\<close>

definition offers ::
  "('l, 's, 'u) node_api \<Rightarrow> instant \<Rightarrow> instant \<Rightarrow> nat \<Rightarrow> u32 \<Rightarrow> route_state
     \<Rightarrow> ('l, 's, 'u, 'd) rpc_client \<Rightarrow> nat \<Rightarrow> bool" where
  "offers api t t' method_id now_s st c r \<longleftrightarrow>
     \<not> bit (tried st) (slot c r) \<and> (ignore_penalty st \<or> \<not> is_penalized (cells c ! r) now_s) \<and>
     map_option fst (admit api t t' method_id r c) = Some Ready"

text \<open>An uninterrupted run of the task.\<close>

fun run_go ::
  "('l, 's, 'u) node_api \<Rightarrow> wire_api \<Rightarrow> instant \<Rightarrow> nat \<Rightarrow> u32 \<Rightarrow> instant \<Rightarrow> instant \<Rightarrow> nat
     \<Rightarrow> route_state \<times> ('l, 's, 'u, 'd) rpc_client \<Rightarrow> (route_state \<times> ('l, 's, 'u, 'd) rpc_client) option" where
  "run_go api wire EPOCH method_id now_s t t' 0 x = Some x"
| "run_go api wire EPOCH method_id now_s t t' (Suc n) x =
     Option.bind (route_step api wire EPOCH method_id now_s (Go t t') x)
       (run_go api wire EPOCH method_id now_s t t' n)"

lemma book_verdict:
  assumes "cells c' ! r = cells c ! r" and "nodes_usage c' = nodes_usage c"
  shows "map_option fst (book api m r c') = map_option fst (book api m r c)"
  using assms by (simp add: book_def Let_def split: option.splits)

lemma admit_verdict:
  assumes "cells c' ! r = cells c ! r" and "nodes_usage c' = nodes_usage c"
    and "r < length (cells c)" and "r < length (cells c')"
  shows "map_option fst (admit api t t' m r c') = map_option fst (admit api t t' m r c)"
proof -
  obtain res n where n: "try_admit api t t' (cells c ! r) = (res, n)" by (metis surj_pair)
  show ?thesis
  proof (cases res)
    case (Inl u)
    with n assms show ?thesis by (cases u) (simp_all add: admit_def)
  next
    case (Inr u)
    have "map_option fst (book api m r (set_cell r n c')) = map_option fst (book api m r (set_cell r n c))"
      using assms by (intro book_verdict) simp_all
    with Inr n assms(1) show ?thesis by (simp add: admit_def)
  qed
qed

lemma offers_after_visit:
  assumes c: "client_wf c" and loc: "local_step r c c1" and q: "nodes_usage c1 = nodes_usage c"
    and r': "r' < length (cells c)" "r' \<noteq> r" "slot c r' \<noteq> slot c r"
    and st1: "ignore_penalty st1 = ignore_penalty st" "tried st1 = tried st \<or> tried st1 = tried st OR 2 ^ slot c r"
    and i: "slot c r < 64"
  shows "offers api t t' m now_s st1 c1 r' = offers api t t' m now_s st c r'"
proof -
  have cell: "cells c1 ! r' = cells c ! r'" using local_step_other [OF loc r'(2)] .
  have "bit (tried st1) (slot c r') = bit (tried st) (slot c r')" using st1(2) r'(3) i by auto
  moreover have "map_option fst (admit api t t' m r' c1) = map_option fst (admit api t t' m r' c)"
    using cell q r'(1) local_step_length [OF loc] by (intro admit_verdict) simp_all
  ultimately show ?thesis using cell st1(1) by (simp add: offers_def)
qed

lemma visit_offered:
  assumes sem: "semaphore_ok api permits" and c: "client_wf c" and st: "pc st = Walking"
    and r: "r < length (cells c)"
  shows "\<exists>st1 c1. visit api t t' m now_s r st c = Some (st1, c1) \<and>
    (if offers api t t' m now_s st c r then pc st1 = Attempting r
     else pc st1 = Walking \<and> remaining st1 = remaining st \<and> local_step r c c1 \<and> nodes_usage c1 = nodes_usage c \<and>
       ignore_penalty st1 = ignore_penalty st \<and> (tried st1 = tried st \<or> tried st1 = tried st OR 2 ^ slot c r))"
  using sem c r
proof (cases rule: visit_cases [where st = st and t = t and t' = t' and m = m and now_s = now_s])
  case seen
  with st show ?thesis by (simp add: offers_def)
next
  case penalty
  with st show ?thesis by (simp add: offers_def)
next
  case (asked a c1)
  then have "offers api t t' m now_s st c r \<longleftrightarrow> a = Ready" by (auto simp: offers_def)
  with asked st show ?thesis
    by (cases a) (auto simp: noted_def admitted_def Let_def)
qed

lemma round_ok_next:
  assumes "round_ok c st" and "remaining st = r # rs"
  shows "r < length (cells c)" and "\<forall>x \<in> set rs. x < length (cells c) \<and> x \<noteq> r \<and> slot c x \<noteq> slot c r"
proof -
  from assms obtain vs where vs: "t_ranked (round_topo st) = vs @ r # rs"
    "\<forall>x \<in> set (t_ranked (round_topo st)). x < length (cells c)"
    "distinct (map (slot c) (t_ranked (round_topo st)))"
    by (elim round_okE) simp
  then show "r < length (cells c)" by simp
  have "slot c r \<notin> slot c ` set rs" using vs(1,3) by simp
  then have "x \<noteq> r \<and> slot c x \<noteq> slot c r" if "x \<in> set rs" for x using imageI [OF that, of "slot c"] by auto
  then show "\<forall>x \<in> set rs. x < length (cells c) \<and> x \<noteq> r \<and> slot c x \<noteq> slot c r"
    using vs(1,2) by simp
qed

lemma walk_picks:
  assumes sem: "semaphore_ok api permits" and "client_wf c" and "pc st = Walking" and "round_ok c st"
  shows "\<exists>n st' c'. run_go api wire E m now_s t t' n (st, c) = Some (st', c') \<and>
    (case find (offers api t t' m now_s st c) (remaining st) of
       Some r \<Rightarrow> pc st' = Attempting r
     | None \<Rightarrow> pc st' = Walking \<and> remaining st' = [])"
  using assms(2-)
proof (induction "remaining st" arbitrary: st c)
  case Nil
  then show ?case by (intro exI [of _ 0]) (auto simp: Nil.hyps [symmetric])
next
  case (Cons r rs)
  let ?st = "st\<lparr>remaining := rs\<rparr>"
  have rem: "remaining st = r # rs" using Cons.hyps(2) by simp
  have lt: "r < length (cells c)" "\<forall>x \<in> set rs. x < length (cells c) \<and> x \<noteq> r \<and> slot c x \<noteq> slot c r"
    using round_ok_next [OF Cons.prems(3) rem] by auto
  have i: "slot c r < 64" using client_wf_slot [OF Cons.prems(1) lt(1)] by simp
  obtain st1 c1 where v: "visit api t t' m now_s r ?st c = Some (st1, c1)"
    and o: "if offers api t t' m now_s ?st c r then pc st1 = Attempting r
     else pc st1 = Walking \<and> remaining st1 = rs \<and> local_step r c c1 \<and> nodes_usage c1 = nodes_usage c \<and>
       ignore_penalty st1 = ignore_penalty st \<and> (tried st1 = tried st \<or> tried st1 = tried st OR 2 ^ slot c r)"
    using visit_offered [OF sem Cons.prems(1) _ lt(1), of ?st t t' m now_s] Cons.prems(2)
    by (auto split: if_splits)
  have step: "route_step api wire E m now_s (Go t t') (st, c) = Some (st1, c1)"
    using v rem Cons.prems(2) by (simp add: route_step_pc or_panic_def)
  have same: "offers api t t' m now_s ?st c x = offers api t t' m now_s st c x" for x by (simp add: offers_def)
  show ?case
  proof (cases "offers api t t' m now_s st c r")
    case True
    with o same step show ?thesis by (intro exI [of _ "Suc 0"]) (simp add: rem)
  next
    case False
    have eff: "step_effect permits m st c st1 c1"
      using route_step_effect [OF sem Cons.prems(1) _ step] Cons.prems(2,3) by (simp add: route_wf_def)
    with False o same have st1: "client_wf c1" "pc st1 = Walking" "round_ok c1 st1" "rs = remaining st1"
      by (auto simp: step_effect_def evolves_def route_wf_def)
    have "offers api t t' m now_s st1 c1 x = offers api t t' m now_s st c x" if "x \<in> set rs" for x
      using False o same lt that i by (intro offers_after_visit [OF Cons.prems(1)]) auto
    then have "find (offers api t t' m now_s st1 c1) rs = find (offers api t t' m now_s st c) (remaining st)"
      using False rem by (auto intro: find_cong)
    with Cons.hyps(1) [OF st1(4,1-3)] st1(4) obtain n st' c' where
      "run_go api wire E m now_s t t' n (st1, c1) = Some (st', c')"
      "case find (offers api t t' m now_s st c) (remaining st) of
         Some r \<Rightarrow> pc st' = Attempting r | None \<Rightarrow> pc st' = Walking \<and> remaining st' = []" by auto
    with step show ?thesis by (intro exI [of _ "Suc n"]) auto
  qed
qed

section \<open>A concrete run\<close>

definition priced_client :: "(nat, nat, string, nat) rpc_client" where
  "priced_client = demo_client\<lparr>cells := [demo_node\<lparr>method_costs := \<lparr>costs = [7]\<rparr>\<rparr>]\<rparr>"

lemma priced_client_wf [simp]: "client_wf priced_client"
  by (simp add: priced_client_def demo_client_def client_wf_def topo_wf_def node_wf_def slots_ok_def
      demo_node_def MAX_NODES_def registry_ok_def CustomMethods_default_def)

lemma run_go_reachable:
  assumes "reachable exec_init (exec_step api wire E m now_s) (led, st, c)"
    and "run_go api wire E m now_s t t' n (st, c) = Some (st', c')"
  shows "\<exists>led'. reachable exec_init (exec_step api wire E m now_s) (led', st', c')"
  using assms
proof (induction n arbitrary: led st c)
  case 0
  then show ?case by auto
next
  case (Suc n)
  then obtain st1 c1 where "route_step api wire E m now_s (Go t t') (st, c) = Some (st1, c1)"
    "run_go api wire E m now_s t t' n (st1, c1) = Some (st', c')"
    by (auto split: Option.bind_splits)
  with Suc show ?case by (blast intro: reachable_step own)
qed

lemma demo_run_fails:
  "case run_go demo_api demo_wire 0 0 0 0 0 3 (route_init, demo_client) of
     Some (st, c) \<Rightarrow> pc st = Finished (Inl AllNodesFailed) \<and> t_ranked (round_topo st) = [0] \<and> slot c 0 = 0
   | None \<Rightarrow> False"
  by code_simp

lemma demo_run_attempts:
  "case run_go demo_api demo_wire 0 0 0 0 0 2 (route_init, priced_client) of
     Some (st, c) \<Rightarrow> pc st = Attempting 0 | None \<Rightarrow> False"
  by code_simp

section \<open>Properties\<close>

text \<open>
  C5. A request is sent to a quota slot at most once, and never to one that has refused it,
  however many rounds, sleeps, reloads and ranking rounds happen in between: of all attempts the
  request starts, each listed with its slot when it starts, no two are on the same slot, and none
  is on a slot whose node refused the request for its quota or its price list. So a request makes
  at most 64 attempts, and the walk never panics on an index or a shift.
\<close>

theorem each_slot_at_most_once:
  assumes "reachable exec_init (exec_step api wire EPOCH method_id now_s) (led, st, c)"
    and "semaphore_ok api permits"
  shows "distinct (map fst led) \<and> length (filter snd led) \<le> 64 \<and> pc st \<noteq> Panicked"
proof -
  have inv: "route_wf c st" "distinct (map fst led)" "fst ` set led \<subseteq> {..<64}"
    using routing.invar_reachable [OF assms(1), of permits] assms(2) by (auto simp: exec_inv_def)
  have "card (set (map fst led)) \<le> card {..<64 :: nat}" using inv(3) by (intro card_mono) simp_all
  then have "length led \<le> 64" using distinct_card [OF inv(2)] by simp
  then have "length (filter snd led) \<le> 64" by (meson length_filter_le order_trans)
  moreover have "pc st \<noteq> Panicked" using inv(1) by (auto simp: route_wf_def)
  ultimately show ?thesis using inv(2) by blast
qed

theorem each_slot_at_most_once_witness:
  "\<exists>led st c. reachable exec_init (exec_step demo_api demo_wire 0 0 0) (led, st, c :: (nat, nat, string, nat) rpc_client) \<and>
     pc st = Attempting 0 \<and> distinct (map fst led)"
proof -
  have "reachable exec_init (exec_step demo_api demo_wire 0 0 0) ([], route_init, priced_client)"
    by (rule reachable_init) (simp add: exec_init_def)
  moreover obtain st c where run: "run_go demo_api demo_wire 0 0 0 0 0 2 (route_init, priced_client) = Some (st, c)"
    "pc st = Attempting 0" using demo_run_attempts by (auto split: option.splits)
  ultimately obtain led where "reachable exec_init (exec_step demo_api demo_wire 0 0 0) (led, st, c)"
    using run_go_reachable by blast
  with run(2) each_slot_at_most_once [OF _ demo_semaphore_ok] show ?thesis by blast
qed

text \<open>
  C9. The balancer answers 502 only when it has nothing left to offer: every node of the order
  its last round walked, penalized ones included, has either been sent the request and failed,
  or refused it for its quota or its price list.
\<close>

theorem bad_gateway_only_when_exhausted:
  assumes "reachable exec_init (exec_step api wire EPOCH method_id now_s) (led, st, c)"
    and "semaphore_ok api permits" and "pc st = Finished (Inl AllNodesFailed)"
    and "r \<in> set (t_ranked (round_topo st))"
  shows "r < length (cells c) \<and> node_id (cells c ! r) \<in> fst ` set led"
proof -
  have inv: "client_wf c" "route_wf c st" "\<And>i. i \<in> fst ` set led \<longleftrightarrow> i < 64 \<and> bit (tried st) i"
    using routing.invar_reachable [OF assms(1), of permits] assms(2) by (auto simp: exec_inv_def)
  from inv(2) assms(3,4) have "r < length (cells c)" "bit (tried st) (slot c r)"
    by (simp_all add: route_wf_def exhausted_def)
  with inv(3) client_wf_slot [OF inv(1)] show ?thesis by blast
qed

theorem bad_gateway_only_when_exhausted_witness:
  "\<exists>led st c. reachable exec_init (exec_step demo_api demo_wire 0 0 0) (led, st, c :: (nat, nat, string, nat) rpc_client) \<and>
     pc st = Finished (Inl AllNodesFailed) \<and> 0 \<in> fst ` set led"
proof -
  have "reachable exec_init (exec_step demo_api demo_wire 0 0 0) ([], route_init, demo_client)"
    by (rule reachable_init) (simp add: exec_init_def)
  moreover obtain st c where run: "run_go demo_api demo_wire 0 0 0 0 0 3 (route_init, demo_client) = Some (st, c)"
    "pc st = Finished (Inl AllNodesFailed)" "t_ranked (round_topo st) = [0]" "slot c 0 = 0"
    using demo_run_fails by (auto split: option.splits)
  ultimately obtain led where reach: "reachable exec_init (exec_step demo_api demo_wire 0 0 0) (led, st, c)"
    using run_go_reachable by blast
  from bad_gateway_only_when_exhausted [OF reach demo_semaphore_ok run(2), of 0] run reach
  show ?thesis by auto
qed

text \<open>
  C2. Every attempt is billed exactly once and nothing else is: a step of a request changes the
  counters only when it starts an attempt, and then it adds the node's price of the method to
  that node's own slot, on a slot not tried before, whose usage had not passed the spillover
  threshold and whose price list knows the method.
\<close>

theorem attempt_billed_exactly_once:
  assumes "semaphore_ok api permits" and "client_wf c" and "route_wf c st"
    and "route_step api wire EPOCH method_id now_s ev (st, c) = Some (st', c')"
  shows "case holding (pc st') of
      None \<Rightarrow> nodes_usage c' = nodes_usage c
    | Some r \<Rightarrow> holding (pc st) = None \<and>
        (let node = cells c ! r; i = node_id node; price = cost (method_costs node) method_id
         in \<not> bit (tried st) i \<and> bit (tried st') i \<and> price \<noteq> u32_MAX \<and>
            nodes_usage c ! i \<le> spillover_threshold node \<and>
            nodes_usage c' = (nodes_usage c)[i := nodes_usage c ! i + ucast price])"
  using route_step_effect [OF assms]
  by (auto simp: step_effect_def booked_def Let_def split: option.splits)

theorem attempt_billed_exactly_once_witness:
  "\<exists>st' c'. route_step demo_api demo_wire 0 0 0 (Go 0 0) (begin_round (topo priced_client) route_init, priced_client)
      = Some (st', c') \<and> nodes_usage c' ! 0 = 7"
proof -
  let ?st = "begin_round (topo priced_client) route_init"
  have "case route_step demo_api demo_wire 0 0 0 (Go 0 0) (?st, priced_client) of
      Some (st', c') \<Rightarrow> holding (pc st') = Some 0 | None \<Rightarrow> False" by code_simp
  then obtain st' c' where s: "route_step demo_api demo_wire 0 0 0 (Go 0 0) (?st, priced_client) = Some (st', c')"
    "holding (pc st') = Some 0" by (auto split: option.splits)
  from attempt_billed_exactly_once [OF demo_semaphore_ok priced_client_wf begin_round_wf [OF priced_client_wf] s(1)] s
  show ?thesis
    by (auto simp: Let_def)
      (simp add: priced_client_def demo_client_def demo_node_def cost_def GlobalQuotaState_default_def MAX_NODES_def)
qed

text \<open>
  C10. Routing makes progress: every step that does not end a wait lowers a measure that starts
  below 64200, a wait raises it by at most 68, and a request that is not finished always has a
  next step. So a request takes a bounded number of steps between two waits, and the global
  timeout can cut every wait.
\<close>

theorem routing_progress:
  assumes "semaphore_ok api permits" and "client_wf c" and "route_wf c st"
  shows "route_measure st < 64200
    \<and> (\<forall>ev st' c'. route_step api wire EPOCH method_id now_s ev (st, c) = Some (st', c') \<longrightarrow>
        (if is_wait ev then route_measure st' \<le> route_measure st + 68 else route_measure st' < route_measure st))
    \<and> ((\<forall>res. pc st \<noteq> Finished res) \<longrightarrow> (\<exists>ev. route_step api wire EPOCH method_id now_s ev (st, c) \<noteq> None))
    \<and> (holding (pc st) \<noteq> None \<or> guarding (pc st) = 1 \<longrightarrow>
        (\<exists>st' c'. route_step api wire EPOCH method_id now_s Expire (st, c) = Some (st', c') \<and>
           pc st' = Finished (Inl Timeout)))"
proof (intro conjI)
  show "route_measure st < 64200" by (rule route_measure_bound [OF assms(2,3)])
  show "\<forall>ev st' c'. route_step api wire EPOCH method_id now_s ev (st, c) = Some (st', c') \<longrightarrow>
      (if is_wait ev then route_measure st' \<le> route_measure st + 68 else route_measure st' < route_measure st)"
    using route_step_measure [OF assms] by blast
  show "(\<forall>res. pc st \<noteq> Finished res) \<longrightarrow> (\<exists>ev. route_step api wire EPOCH method_id now_s ev (st, c) \<noteq> None)"
  proof -
    have "pc st \<noteq> Panicked" using assms(3) by (auto simp: route_wf_def)
    then show ?thesis using step_enabled by blast
  qed
  show "holding (pc st) \<noteq> None \<or> guarding (pc st) = 1 \<longrightarrow>
      (\<exists>st' c'. route_step api wire EPOCH method_id now_s Expire (st, c) = Some (st', c') \<and>
         pc st' = Finished (Inl Timeout))"
    by (cases "pc st") (simp_all add: route_step_pc expire_def)
qed

theorem routing_progress_witness:
  "route_measure (begin_round (topo demo_client) route_init) < 64200 \<and>
   (\<exists>ev. route_step demo_api demo_wire 0 0 0 ev (begin_round (topo demo_client) route_init, demo_client) \<noteq> None)"
proof -
  have "pc (begin_round (topo demo_client) route_init) = Walking" by (simp add: begin_round_def)
  then show ?thesis
    using routing_progress [OF demo_semaphore_ok demo_client_wf begin_round_wf [OF demo_client_wf]] by force
qed

text \<open>
  C20. A request goes to the best node there is: on a freshly published order, if any node would
  take the request, the round sends it to one that would, and no node that would take it has a
  lower tier, or the same tier and a lower latency.
\<close>

theorem request_goes_to_best_node:
  assumes "semaphore_ok api permits" and "client_wf c"
    and "t_ranked (topo c) = rank (cells c) (t_all (topo c))"
    and "st = begin_round (topo c) st0"
    and "r \<in> set (t_all (topo c))" and "offers api t t' method_id now_s st c r"
  shows "\<exists>n st' c' best. run_go api wire EPOCH method_id now_s t t' n (st, c) = Some (st', c')
    \<and> pc st' = Attempting best \<and> offers api t t' method_id now_s st c best
    \<and> (\<forall>x \<in> set (t_all (topo c)). offers api t t' method_id now_s st c x \<longrightarrow>
        (tier (cells c ! best), ema_us (cells c ! best)) \<le> (tier (cells c ! x), ema_us (cells c ! x)))"
proof -
  have wf: "pc st = Walking" "round_ok c st" "remaining st = rank (cells c) (t_all (topo c))"
    using begin_round_wf [OF assms(2), of st0] assms(3,4) by (simp_all add: route_wf_def begin_round_def)
  obtain best where best: "find (offers api t t' method_id now_s st c) (remaining st) = Some best"
    using assms(5,6) wf(3) order.set_rank [of "cells c" "t_all (topo c)"]
    by (cases "find (offers api t t' method_id now_s st c) (remaining st)") (auto simp: find_None_iff)
  then have "offers api t t' method_id now_s st c best" by (auto simp: find_Some_iff)
  moreover have "rank_key (cells c) best \<le> rank_key (cells c) x"
    if "x \<in> set (t_all (topo c))" "offers api t t' method_id now_s st c x" for x
    using order.first_is_best [of "offers api t t' method_id now_s st c" "cells c" "t_all (topo c)" best x]
      that best wf(3) by simp
  moreover obtain n st' c' where "run_go api wire EPOCH method_id now_s t t' n (st, c) = Some (st', c')"
    "pc st' = Attempting best"
    using walk_picks [OF assms(1,2) wf(1,2), of wire EPOCH method_id now_s t t'] best by auto
  ultimately show ?thesis unfolding rank_key_def by blast
qed

theorem request_goes_to_best_node_witness:
  "\<exists>n st' c' best. run_go demo_api demo_wire 0 0 0 0 0 n (begin_round (topo priced_client) route_init, priced_client)
      = Some (st', c') \<and> pc st' = Attempting best"
proof -
  have "t_ranked (topo priced_client) = rank (cells priced_client) (t_all (topo priced_client))"
    "0 \<in> set (t_all (topo priced_client))"
    by (simp_all add: priced_client_def demo_client_def rank_def)
  moreover have "offers demo_api 0 0 0 0 (begin_round (topo priced_client) route_init) priced_client 0"
    by code_simp
  ultimately show ?thesis
    using request_goes_to_best_node [OF demo_semaphore_ok priced_client_wf _ refl] by blast
qed

lemma round_end_opens:
  assumes "round_end st c = (st', c')" and "\<not> ignore_penalty st"
  shows "(ignore_penalty st' \<longleftrightarrow> penalized st \<and> best_time st = None \<and> saturated st = None) \<and>
    saturated st' = saturated st \<and> holding (pc st') = None \<and> (\<forall>r. pc st' = Parked r \<longrightarrow> saturated st = Some r)"
  using assms by (auto simp: round_end_def split: option.splits if_splits)

text \<open>What one visited node does to the record of the request, as long as it has not failed open.\<close>

lemma visited_under_penalty:
  assumes sem: "semaphore_ok api permits" and c: "client_wf c" and r: "r < length (cells c)"
    and st: "pc st = Walking" "\<not> ignore_penalty st"
    and v: "or_panic (visit api t t' m now_s r (st\<lparr>remaining := rs\<rparr>) c) (st\<lparr>remaining := rs\<rparr>) c = (st', c')"
  shows "\<not> ignore_penalty st' \<and> (\<forall>z. pc st' \<noteq> Parked z \<and> pc st' \<noteq> ParkAttempting z) \<and>
    (if is_penalized (cells c ! r) now_s
     then st' = st\<lparr>remaining := rs, penalized := penalized st \<or> \<not> bit (tried st) (slot c r)\<rparr> \<and>
       cells c' = cells c \<and> nodes_usage c' = nodes_usage c
     else (\<forall>z. pc st' = Attempting z \<longrightarrow> z = r) \<and> (\<forall>z. saturated st' = Some z \<longrightarrow> z = r \<or> saturated st = Some z))"
  using sem c r
proof (cases rule: visit_cases [where st = "st\<lparr>remaining := rs\<rparr>" and t = t and t' = t' and m = m and now_s = now_s])
  case seen
  with v st show ?thesis by (auto simp: or_panic_def)
next
  case penalty
  with v st show ?thesis by (auto simp: or_panic_def)
next
  case (asked a c1)
  with v st show ?thesis by (cases a) (auto simp: or_panic_def noted_def split: option.splits)
qed

lemma polled_penalty:
  assumes sem: "semaphore_ok api permits" and c: "client_wf c" and r: "r < length (cells c)"
    and v: "or_panic (unpark api t t' m r st c) st c = (st', c')"
  shows "ignore_penalty st' = ignore_penalty st \<and> saturated st' = saturated st \<and>
    (pc st' = pc st \<or> pc st' = ParkAttempting r \<or> pc st' = RoundStart \<or> (\<exists>d. pc st' = Sleeping d))"
  using sem c r
proof (cases rule: unpark_cases [where st = st and t = t and t' = t' and m = m])
  case queued
  with v show ?thesis by (simp add: or_panic_def)
next
  case (granted a c1)
  with v show ?thesis by (cases a) (auto simp: or_panic_def unparked_def)
qed

definition penalized_client :: "(nat, nat, string, nat) rpc_client" where
  "penalized_client = demo_client\<lparr>cells := [demo_node\<lparr>until_s := 10\<rparr>]\<rparr>"

lemma penalized_client_wf [simp]: "client_wf penalized_client"
  by (simp add: penalized_client_def demo_client_def client_wf_def topo_wf_def node_wf_def slots_ok_def
      demo_node_def MAX_NODES_def registry_ok_def CustomMethods_default_def)

text \<open>
  C21. Penalties are honoured until nothing else is left. As long as a request has not failed
  open, a node the walk meets under a penalty is passed over: the walk moves on, notes that it
  met one (unless the slot had been tried before) and changes nothing else, so the slot is not
  marked as tried, no permit is taken, no counter moves, and the request will not park on it; a
  request is sent only to a node that is not penalized or to the busy one it had parked on, and it
  parks only on a node that had no penalty when the walk met it. It fails open exactly at the end
  of a round that met a penalized node and found no node that is merely rate-limited or busy, and
  then begins a new round. A penalty that comes while the request is parked on the node is not
  looked at again.
\<close>

theorem penalties_honoured_until_fail_open:
  assumes "semaphore_ok api permits" and "client_wf c" and "route_wf c st"
    and "route_step api wire EPOCH method_id now_s ev (st, c) = Some (st', c')"
    and "\<not> ignore_penalty st"
  shows "(\<forall>r. pc st' = Attempting r \<longrightarrow> \<not> is_penalized (cells c ! r) now_s)
    \<and> (\<forall>r. pc st' = ParkAttempting r \<longrightarrow> pc st = Parked r)
    \<and> (\<forall>r. pc st' = Parked r \<longrightarrow> pc st = Parked r \<or> saturated st = Some r)
    \<and> (\<forall>r. saturated st' = Some r \<and> saturated st \<noteq> Some r \<longrightarrow> \<not> is_penalized (cells c ! r) now_s)
    \<and> (\<forall>r rs. pc st = Walking \<and> remaining st = r # rs \<and> is_penalized (cells c ! r) now_s \<longrightarrow>
        st' = st\<lparr>remaining := rs, penalized := penalized st \<or> \<not> bit (tried st) (node_id (cells c ! r))\<rparr> \<and>
        cells c' = cells c \<and> nodes_usage c' = nodes_usage c)
    \<and> (ignore_penalty st' \<longleftrightarrow>
        pc st = Walking \<and> remaining st = [] \<and> penalized st \<and> best_time st = None \<and> saturated st = None)"
  using assms(4)
proof (cases rule: route_stepE)
  case (visited t t' r rs)
  then have "r < length (cells c)" using assms(3) by (auto simp: route_wf_def dest: round_ok_next)
  from visited_under_penalty [OF assms(1,2) this visited(1) assms(5) visited(3)] visited(1,2)
  show ?thesis by (auto split: if_splits)
next
  case ended
  from round_end_opens [OF ended(3) assms(5)] ended(1,2) show ?thesis by auto
next
  case (answered r sent at el)
  then have "r < length (cells c)" using assms(3) by (simp add: route_wf_def)
  from attempt_on_state [OF assms(1) this answered(2)] answered assms(5) show ?thesis by auto
next
  case (park_answered r sent at el)
  then have "r < length (cells c)" using assms(3) by (simp add: route_wf_def)
  from attempt_on_state [OF assms(1) this park_answered(2)] park_answered assms(5) show ?thesis by auto
next
  case (polled r t t')
  then have "r < length (cells c)" using assms(3) by (simp add: route_wf_def)
  from polled_penalty [OF assms(1,2) this polled(3)] polled(1) assms(5) show ?thesis by auto
qed (use assms(5) in \<open>auto simp: begin_round_def expire_def\<close>)

theorem penalties_honoured_until_fail_open_witness:
  "\<exists>st' c'. is_penalized (cells penalized_client ! 0) 0 \<and>
     route_step demo_api demo_wire 0 0 0 (Go 0 0) (begin_round (topo penalized_client) route_init, penalized_client)
       = Some (st', c') \<and> pc st' = Walking \<and> remaining st' = [] \<and> tried st' = 0 \<and> penalized st'"
proof -
  let ?st = "begin_round (topo penalized_client) route_init"
  have st: "\<not> ignore_penalty ?st" "remaining ?st = [0]" "pc ?st = Walking" "tried ?st = 0"
    by (simp_all add: begin_round_def route_init_def penalized_client_def demo_client_def)
  have pen: "is_penalized (cells penalized_client ! 0) 0" by code_simp
  from st have "route_step demo_api demo_wire 0 0 0 (Go 0 0) (?st, penalized_client) \<noteq> None"
    by (simp add: route_step.simps)
  then obtain st' c' where s: "route_step demo_api demo_wire 0 0 0 (Go 0 0) (?st, penalized_client) = Some (st', c')"
    by (metis not_None_eq surj_pair)
  have "st' = ?st\<lparr>remaining := [], penalized := penalized ?st \<or> \<not> bit (tried ?st) (node_id (cells penalized_client ! 0))\<rparr>"
    using penalties_honoured_until_fail_open
      [OF demo_semaphore_ok penalized_client_wf begin_round_wf [OF penalized_client_wf] s st(1)] st(2,3) pen by blast
  then have "pc st' = Walking" "remaining st' = []" "tried st' = 0" "penalized st'" using st(3,4) by simp_all
  with s pen show ?thesis by blast
qed

end
