(* ===== verification/Balancer.thy ===== *)
theory Balancer
  imports Provider Route_Execution
begin

text \<open>
  The process around the client (\<open>src/main.rs\<close>, \<open>src/server.rs\<close>, \<open>src/core/reload.rs\<close>): startup,
  the flusher's tick, the reload on SIGHUP, the HTTP handlers. What they do to the shared state
  is a function of it, as everywhere; the clock, the files and the environment are arguments.

  The main results: what a successful startup has established before the first request, that a
  reload leaves the running node set alone on every error path, and that what a node has spent
  survives a restart.
\<close>

section \<open>The HTTP surface\<close>

record health_response =
  hr_status :: string
  active_nodes :: nat
  total_nodes :: nat
  hr_nodes :: "node_health list"

definition send_request :: "(u16 \<times> bytes) + (u16 \<times> bytes) \<Rightarrow> u16 \<times> bytes" where
  "send_request sent = (case sent of Inr response \<Rightarrow> response | Inl response \<Rightarrow> response)"

definition health_endpoint :: "instant \<Rightarrow> instant \<Rightarrow> ('l, 's, 'u, 'd) rpc_client \<Rightarrow> health_response" where
  "health_endpoint EPOCH at c =
     (let ns = health_snapshot EPOCH at c;
          active = length (filter (\<lambda>n. h_status n \<noteq> ''down'') ns);
          total = length ns;
          status = (if active = 0 then ''critical'' else if active < total then ''degraded'' else ''ok'')
      in \<lparr>hr_status = status, active_nodes = active, total_nodes = total, hr_nodes = ns\<rparr>)"

section \<open>Rollover and flush\<close>

text \<open>\<^const>\<open>None\<close> is an index panic.\<close>

definition roll_over_periods ::
  "('d, 'm) calendar \<Rightarrow> system_time \<Rightarrow> ('l, 's, 'u, 'd) rpc_client \<Rightarrow> ('l, 's, 'u, 'd) rpc_client option" where
  "roll_over_periods cal now c =
     (case rollover_if_new_period cal (all_nodes c) (nodes_usage c) (periods c) now of
        None \<Rightarrow> None
      | Some (q, ps) \<Rightarrow> Some (c\<lparr>nodes_usage := q, periods := ps\<rparr>))"

fun quota_gauges :: "('l, 's, 'u) rpc_node list \<Rightarrow> quota_state \<Rightarrow> metric_op list option" where
  "quota_gauges [] q = Some []"
| "quota_gauges (n # ns) q =
     (case counter_get q (node_id n) of
        None \<Rightarrow> None
      | Some u \<Rightarrow> map_option ((@) (set_node_quota (node_name n) u (spillover_threshold n))) (quota_gauges ns q))"

definition publish_quota_gauges :: "('l, 's, 'u, 'd) rpc_client \<Rightarrow> ('l, 's, 'u, 'd) rpc_client option" where
  "publish_quota_gauges c = map_option (\<lambda>ops. emit ops c) (quota_gauges (all_nodes c) (nodes_usage c))"

definition flush_usage ::
  "('d usage_map \<Rightarrow> bytes option) \<Rightarrow> io_plan \<Rightarrow> nat \<Rightarrow> u64 \<Rightarrow> ('l, 's, 'u, 'd) rpc_client \<Rightarrow> files
     \<Rightarrow> (files list \<times> u64) option" where
  "flush_usage to_vec_pretty plan pid WRITE_COUNTER c fs =
     map_option (\<lambda>m. flush to_vec_pretty plan pid WRITE_COUNTER m fs)
       (snapshot (all_nodes c) (nodes_usage c) (periods c))"

text \<open>One tick of the flusher: the client afterwards and the states the write passes through.\<close>

definition flusher_tick ::
  "('d, 'm) calendar \<Rightarrow> ('d usage_map \<Rightarrow> bytes option) \<Rightarrow> io_plan \<Rightarrow> nat \<Rightarrow> u64 \<Rightarrow> system_time
     \<Rightarrow> ('l, 's, 'u, 'd) rpc_client \<Rightarrow> files
     \<Rightarrow> (('l, 's, 'u, 'd) rpc_client \<times> files list \<times> u64) option" where
  "flusher_tick cal to_vec_pretty plan pid WRITE_COUNTER now c fs =
     Option.bind (roll_over_periods cal now c) (\<lambda>c.
     Option.bind (publish_quota_gauges c) (\<lambda>c.
     map_option (Pair c) (flush_usage to_vec_pretty plan pid WRITE_COUNTER c fs)))"

section \<open>Reload on SIGHUP\<close>

datatype reload_error =
    ReloadConfig config_error
  | ReloadBuild build_error
  | ReloadRejected assign_error

text \<open>
  \<open>reload_once\<close>: its result, whether it warned that the \<open>[server]\<close> section changed, and the
  client. The custom names of the files are interned even where the build then fails.
\<close>

definition reload_once ::
  "('l, 's, 'u) node_api \<Rightarrow> (string \<Rightarrow> string option) \<Rightarrow> (string \<Rightarrow> raw_settings option)
     \<Rightarrow> (string \<Rightarrow> raw_provider option) \<Rightarrow> server_settings \<Rightarrow> ('l, 's, 'u, 'd) rpc_client
     \<Rightarrow> (reload_error + nat) \<times> bool \<times> ('l, 's, 'u, 'd) rpc_client" where
  "reload_once api env read_settings read_pricing startup_server c =
     (case Settings_load env read_settings of
        Inl e \<Rightarrow> (Inl (ReloadConfig e), False, c)
      | Inr settings \<Rightarrow>
          let warned = (server settings \<noteq> startup_server)
          in case build_nodes api read_pricing (nodes settings) (custom_methods c) of
            (Inl e, methods) \<Rightarrow> (Inl (ReloadBuild e), warned, c\<lparr>custom_methods := methods\<rparr>)
          | (Inr new, methods) \<Rightarrow>
              (case reload (c\<lparr>custom_methods := methods\<rparr>) new of
                 (Inl e, c') \<Rightarrow> (Inl (ReloadRejected e), warned, c')
               | (Inr _, c') \<Rightarrow> (Inr (length new), warned, c')))"

text \<open>\<open>watch_sighup\<close>: one round per signal; an error is logged and the loop goes on.\<close>

fun watch_sighup ::
  "('l, 's, 'u) node_api \<Rightarrow> server_settings
     \<Rightarrow> ((string \<Rightarrow> string option) \<times> (string \<Rightarrow> raw_settings option) \<times> (string \<Rightarrow> raw_provider option)) list
     \<Rightarrow> ('l, 's, 'u, 'd) rpc_client \<Rightarrow> ('l, 's, 'u, 'd) rpc_client" where
  "watch_sighup api startup_server [] c = c"
| "watch_sighup api startup_server ((env, rs, rp) # signals) c =
     watch_sighup api startup_server signals (snd (snd (reload_once api env rs rp startup_server c)))"

section \<open>Startup\<close>

datatype startup_error =
    StartConfig config_error
  | StartRecorder
  | StartRestore restore_error
  | StartBuild build_error
  | StartClient client_error
  | StartPanic

definition install_metrics_recorder :: "bool \<Rightarrow> metric_op list option" where
  "install_metrics_recorder recorder_ok = (if recorder_ok then Some describe_all else None)"

text \<open>
  \<open>main\<close> up to the spawning of the tasks. \<open>recorder_ok\<close> and \<open>http_ok\<close> say whether the metrics
  recorder can be installed and the HTTP client built; a recorder is installed only where the
  config asks for one.
\<close>

definition startup ::
  "('l, 's, 'u) node_api \<Rightarrow> ('d, 'm) calendar \<Rightarrow> (string \<Rightarrow> 'd usage_map option)
     \<Rightarrow> (string \<Rightarrow> string option) \<Rightarrow> (string \<Rightarrow> raw_settings option) \<Rightarrow> (string \<Rightarrow> raw_provider option)
     \<Rightarrow> bool \<Rightarrow> bool \<Rightarrow> bool \<Rightarrow> files \<Rightarrow> system_time \<Rightarrow> startup_error + server_settings \<times> ('l, 's, 'u, 'd) rpc_client" where
  "startup api cal from_str env read_settings read_pricing recorder_ok read_ok http_ok fs now =
     (case Settings_load env read_settings of
        Inl e \<Rightarrow> Inl (StartConfig e)
      | Inr config \<Rightarrow>
          (case (if enable_metrics (server config) then install_metrics_recorder recorder_ok else Some []) of
             None \<Rightarrow> Inl StartRecorder
           | Some described \<Rightarrow>
               (case restore from_str read_ok fs of
                  Inl e \<Rightarrow> Inl (StartRestore e)
                | Inr quotas \<Rightarrow>
                    (case build_nodes api read_pricing (nodes config) CustomMethods_default of
                       (Inl e, _) \<Rightarrow> Inl (StartBuild e)
                     | (Inr ns, methods) \<Rightarrow>
                         (case RpcClient_new http_ok methods ns of
                            Inl e \<Rightarrow> Inl (StartClient e)
                          | Inr c \<Rightarrow>
                              (case Option.bind (load_quotas quotas (emit described c)) (\<lambda>c.
                                    Option.bind (roll_over_periods cal now c) publish_quota_gauges) of
                                 None \<Rightarrow> Inl StartPanic
                               | Some c \<Rightarrow> Inr (server config, c)))))))"

section \<open>No operation panics, every operation keeps the invariant\<close>

lemma client_wf_quota: "client_wf c \<Longrightarrow> quota_ok (nodes_usage c)"
  by (simp add: client_wf_def)

lemma quota_gauges_total:
  assumes "\<forall>n \<in> set ns. node_id n < length q"
  shows "\<exists>ops. quota_gauges ns q = Some ops \<and> sum_list (map gauge_delta ops) = 0"
  using assms by (induction ns) (auto simp: quota_simps set_node_quota_def)

lemma publish_quota_gauges_total:
  assumes "client_wf c"
  shows "\<exists>ops. publish_quota_gauges c = Some (emit ops c) \<and> sum_list (map gauge_delta ops) = 0"
proof -
  have "\<forall>n \<in> set (all_nodes c). node_id n < length (nodes_usage c)"
    using client_wf_slots [OF assms] client_wf_quota [OF assms] by (simp add: slots_ok_def quota_ok_def)
  from quota_gauges_total [OF this] show ?thesis by (auto simp: publish_quota_gauges_def)
qed

lemma usage_update_evolves:
  "client_wf c \<Longrightarrow> quota_ok q \<Longrightarrow> evolves c (c\<lparr>nodes_usage := q, periods := ps\<rparr>)"
  by (simp add: evolves_def client_wf_def)

lemma roll_over_periods_total:
  assumes "client_wf c"
  shows "\<exists>q ps. roll_over_periods cal now c = Some (c\<lparr>nodes_usage := q, periods := ps\<rparr>) \<and> quota_ok q
    \<and> (\<forall>n \<in> set (all_nodes c). ps (node_name n) = period_after cal (date_of cal now) (periods c) n
        \<and> q ! node_id n = (if resets cal (date_of cal now) (periods c) n then 0 else nodes_usage c ! node_id n))
    \<and> (\<forall>x. x \<notin> node_name ` set (all_nodes c) \<longrightarrow> ps x = None)
    \<and> (\<forall>i. i \<notin> node_id ` set (all_nodes c) \<longrightarrow> q ! i = nodes_usage c ! i)"
proof -
  obtain q ps where "rollover_if_new_period cal (all_nodes c) (nodes_usage c) (periods c) now = Some (q, ps)"
    "quota_ok q"
    "\<forall>n \<in> set (all_nodes c). ps (node_name n) = period_after cal (date_of cal now) (periods c) n
        \<and> q ! node_id n = (if resets cal (date_of cal now) (periods c) n then 0 else nodes_usage c ! node_id n)"
    "\<forall>x. x \<notin> node_name ` set (all_nodes c) \<longrightarrow> ps x = None"
    "\<forall>i. i \<notin> node_id ` set (all_nodes c) \<longrightarrow> q ! i = nodes_usage c ! i"
    using rollover_eq [OF client_wf_slots [OF assms] client_wf_quota [OF assms], of cal "periods c" now] by blast
  then show ?thesis by (intro exI [of _ q] exI [of _ ps]) (simp add: roll_over_periods_def)
qed

lemma flush_usage_total:
  assumes "client_wf c"
  shows "flush_usage to_vec plan pid k c fs \<noteq> None"
  using snapshot_eq [OF client_wf_slots [OF assms] client_wf_quota [OF assms], of "periods c"]
  by (auto simp: flush_usage_def)

lemma flusher_tick_total:
  assumes "client_wf c"
  shows "\<exists>q ps ops out. flusher_tick cal to_vec plan pid k now c fs =
      Some (emit ops (c\<lparr>nodes_usage := q, periods := ps\<rparr>), out) \<and> quota_ok q \<and> sum_list (map gauge_delta ops) = 0"
proof -
  obtain q ps where r: "roll_over_periods cal now c = Some (c\<lparr>nodes_usage := q, periods := ps\<rparr>)" "quota_ok q"
    using roll_over_periods_total [OF assms, of cal now] by blast
  let ?c = "c\<lparr>nodes_usage := q, periods := ps\<rparr>"
  have wf: "client_wf ?c" using usage_update_evolves [OF assms r(2)] by (simp add: evolves_def)
  obtain ops where p: "publish_quota_gauges ?c = Some (emit ops ?c)" "sum_list (map gauge_delta ops) = 0"
    using publish_quota_gauges_total [OF wf] by blast
  obtain out where "flush_usage to_vec plan pid k (emit ops ?c) fs = Some out"
    using flush_usage_total [of "emit ops ?c" to_vec plan pid k fs] wf by auto
  with r p show ?thesis by (auto simp: flusher_tick_def)
qed

text \<open>The three ways a reload ends.\<close>

lemma custom_methods_evolves:
  "client_wf c \<Longrightarrow> registry_ok r \<Longrightarrow> evolves c (c\<lparr>custom_methods := r\<rparr>)"
  by (simp add: evolves_def client_wf_def)

lemma all_nodes_custom_methods [simp]: "all_nodes (c\<lparr>custom_methods := r\<rparr>) = all_nodes c"
  by (simp add: all_nodes_def)

lemma reload_once_cases:
  assumes "client_wf c" and "reload_once api env rs rp srv c = (res, warned, c')"
  obtains (failed) e r where "res = Inl e" "c' = c\<lparr>custom_methods := r\<rparr>" "registry_ok r"
      "\<exists>nss. r = foldl register (custom_methods c) nss"
  | (published) settings new r where "Settings_load env rs = Inr settings"
      "build_nodes api rp (nodes settings) (custom_methods c) = (Inr new, r)" "registry_ok r"
      "\<exists>nss. r = foldl register (custom_methods c) nss"
      "reload (c\<lparr>custom_methods := r\<rparr>) new = (Inr (), c')" "res = Inr (length new)"
      "\<forall>n \<in> set new. metrics n = NodeMetrics_new (node_name n)"
proof (cases "Settings_load env rs")
  case (Inl e)
  have "c' = c\<lparr>custom_methods := custom_methods c\<rparr>" using assms(2) Inl by (simp add: reload_once_def)
  moreover have "registry_ok (custom_methods c)" using assms(1) by (simp add: client_wf_def)
  moreover have "\<exists>nss. custom_methods c = foldl register (custom_methods c) nss" by (intro exI [of _ "[]"]) simp
  ultimately show ?thesis using assms(2) Inl failed [of "ReloadConfig e" "custom_methods c"]
    by (simp add: reload_once_def)
next
  case (Inr settings)
  obtain b r where b: "build_nodes api rp (nodes settings) (custom_methods c) = (b, r)" by (metis surj_pair)
  have ok: "registry_ok (custom_methods c)" using assms(1) by (simp add: client_wf_def)
  have r: "registry_ok r" by (rule build_nodes_registry_ok [OF ok b])
  have grown: "\<exists>nss. r = foldl register (custom_methods c) nss" by (rule build_nodes_registry [OF b])
  show ?thesis
  proof (cases b)
    case (Inl e)
    with assms(2) Inr b r grown failed show ?thesis by (auto simp: reload_once_def Let_def)
  next
    case new: (Inr new)
    have m: "\<forall>n \<in> set new. metrics n = NodeMetrics_new (node_name n)"
      using build_nodes_metrics [OF ok] b new by blast
    obtain res1 c1 where rl: "reload (c\<lparr>custom_methods := r\<rparr>) new = (res1, c1)" by (metis surj_pair)
    have wf: "client_wf (c\<lparr>custom_methods := r\<rparr>)"
      using custom_methods_evolves [OF assms(1) r] by (simp add: evolves_def)
    from wf rl show ?thesis
    proof (cases rule: reload_cases)
      case (rejected e)
      with assms(2) Inr b new rl r grown failed show ?thesis by (auto simp: reload_once_def Let_def)
    next
      case (published new' q')
      from published(1) assms(2) Inr b new rl have "res = Inr (length new)" "c' = c1"
        by (auto simp: reload_once_def Let_def)
      with that(2) [OF Inr _ r grown _ _ m] b new rl published(1) show ?thesis by simp
    qed
  qed
qed

lemma evolves_trans: "evolves a b \<Longrightarrow> evolves b c \<Longrightarrow> evolves a c"
  unfolding evolves_def using keeps_trans by blast

lemma reload_once_evolves:
  assumes "client_wf c" and "reload_once api env rs rp srv c = (res, warned, c')"
  shows "evolves c c'"
  using assms
proof (cases rule: reload_once_cases)
  case (failed e r)
  then show ?thesis using custom_methods_evolves [OF assms(1)] by simp
next
  case (published settings new r)
  have e: "evolves c (c\<lparr>custom_methods := r\<rparr>)" by (rule custom_methods_evolves [OF assms(1) published(3)])
  then have "evolves (c\<lparr>custom_methods := r\<rparr>) c'"
    by (intro reload_evolves [OF _ published(5,7)]) (simp add: evolves_def)
  with e show ?thesis by (rule evolves_trans)
qed

section \<open>The health endpoint\<close>

text \<open>
  What \<open>/health\<close> counts as active is what a ranking round at the same moment counts as available,
  and \<open>critical\<close> is the state in which the router fails open.
\<close>

lemma health_endpoint_counts:
  "active_nodes (health_endpoint EPOCH at c) = fst (rerank EPOCH at c)
   \<and> total_nodes (health_endpoint EPOCH at c) = length (t_all (topo c))
   \<and> (hr_status (health_endpoint EPOCH at c) = ''critical'' \<longleftrightarrow>
        (\<forall>n \<in> set (all_nodes c). is_penalized n (seconds_since_start EPOCH at)))"
proof -
  let ?now = "seconds_since_start EPOCH at"
  have st: "h_status (node_status n ?now) \<noteq> ''down'' \<longleftrightarrow> \<not> is_penalized n ?now" for n :: "('a, 'b, 'c) rpc_node"
    by (simp add: node_status_def Let_def)
  have snap: "health_snapshot EPOCH at c = map (\<lambda>n. node_status n ?now) (all_nodes c)"
    by (simp add: health_snapshot_def health_def all_nodes_def)
  have active: "length (filter (\<lambda>n. h_status n \<noteq> ''down'') (health_snapshot EPOCH at c)) =
      length (filter (\<lambda>n. \<not> is_penalized n ?now) (all_nodes c))"
    unfolding snap filter_map comp_def st by simp
  have total: "length (health_snapshot EPOCH at c) = length (t_all (topo c))"
    by (simp add: snap all_nodes_def)
  have rr: "fst (rerank EPOCH at c) = length (filter (\<lambda>n. \<not> is_penalized n ?now) (all_nodes c))"
    using node_gauges_count [of ?now "all_nodes c"] by (auto simp: rerank_def Let_def split: prod.split)
  have "length (filter (\<lambda>n. \<not> is_penalized n ?now) (all_nodes c)) = 0 \<longleftrightarrow>
      (\<forall>n \<in> set (all_nodes c). is_penalized n ?now)" by (simp add: filter_empty_conv)
  then show ?thesis
    unfolding health_endpoint_def Let_def active total rr by simp
qed

section \<open>Startup, reload and restart\<close>

lemma all_nodes_simps [simp]:
  "all_nodes (c\<lparr>nodes_usage := q, periods := ps\<rparr>) = all_nodes c"
  "all_nodes (c\<lparr>nodes_usage := q\<rparr>) = all_nodes c" "all_nodes (emit ops c) = all_nodes c"
  by (simp_all add: all_nodes_def)

lemma load_quotas_result:
  assumes "client_wf c"
  shows "\<exists>q ps. load_quotas quotas c = Some (c\<lparr>nodes_usage := q, periods := ps\<rparr>) \<and> quota_ok q \<and>
    (\<forall>n \<in> set (all_nodes c). q ! node_id n = (case quotas (node_name n) of Some e \<Rightarrow> used e | None \<Rightarrow> nodes_usage c ! node_id n) \<and>
       ps (node_name n) = (case quotas (node_name n) of Some e \<Rightarrow> Some (usage_period e) | None \<Rightarrow> periods c (node_name n)))"
proof -
  obtain q ps where "load_entries (all_nodes c) quotas (nodes_usage c, periods c) = Some (q, ps)" "quota_ok q"
    "\<forall>n \<in> set (all_nodes c). q ! node_id n = (case quotas (node_name n) of Some e \<Rightarrow> used e | None \<Rightarrow> nodes_usage c ! node_id n) \<and>
       ps (node_name n) = (case quotas (node_name n) of Some e \<Rightarrow> Some (usage_period e) | None \<Rightarrow> periods c (node_name n))"
    using load_entries_eq [OF client_wf_slots [OF assms] client_wf_quota [OF assms], of quotas "periods c"] by blast
  then show ?thesis by (intro exI [of _ q] exI [of _ ps]) (simp add: load_quotas_def)
qed

lemma startup_cases:
  assumes "startup api cal from_str env rs rp rec_ok read_ok http_ok fs now = Inr (srv, c)"
  obtains config described quotas ns methods c0 c1 c2 where
    "Settings_load env rs = Inr config" "restore from_str read_ok fs = Inr quotas"
    "build_nodes api rp (nodes config) CustomMethods_default = (Inr ns, methods)"
    "RpcClient_new http_ok methods ns = Inr c0" "load_quotas quotas (emit described c0) = Some c1"
    "roll_over_periods cal now c1 = Some c2" "publish_quota_gauges c2 = Some c" "srv = server config"
    "described = [] \<or> described = describe_all"
  using assms by (auto simp: startup_def install_metrics_recorder_def split: sum.splits option.splits prod.splits Option.bind_splits if_splits)

lemma built_reset_days:
  assumes "Settings_load env rs = Inr config" and "registry_ok r"
    and "build_nodes api rp (nodes config) r = (Inr ns, r')"
  shows "\<forall>n \<in> set ns. 1 \<le> reset_day n"
proof -
  have "list_all2 (configured rp r') (nodes config) ns"
    using build_nodes_configured [OF assms(2,3), of r' "[]"] by simp
  then have "list_all2 (\<lambda>_ n. 1 \<le> reset_day n) (nodes config) ns"
    by (rule list.rel_mono_strong) (use Settings_load_ok [OF assms(1)] in \<open>auto simp: configured_def\<close>)
  then show ?thesis by (auto simp: list_all2_conv_all_nth in_set_conv_nth)
qed

text \<open>What a node starts from, given its entry in the usage file and the start of its period.\<close>

definition starts_from ::
  "('d, 'm) calendar \<Rightarrow> 'd \<Rightarrow> 'd node_usage option \<Rightarrow> u64 \<times> 'd" where
  "starts_from cal start entry =
     (case entry of
        Some e \<Rightarrow> if date_le cal start (usage_period e) then (used e, usage_period e) else (0, start)
      | None \<Rightarrow> (0, start))"

lemma startup_node:
  assumes wf: "client_wf c0" and fresh: "periods c0 = (\<lambda>_. None)" "nodes_usage c0 ! node_id n = 0"
    and n: "n \<in> set (all_nodes c0)" and start: "period_start cal (date_of cal now) (reset_day n) = Some start"
    and lq: "load_quotas quotas c0 = Some c1" and ro: "roll_over_periods cal now c1 = Some c2"
  shows "(nodes_usage c2 ! node_id n, periods c2 (node_name n)) =
    (case starts_from cal start (quotas (node_name n)) of (u, d) \<Rightarrow> (u, Some d))"
proof -
  obtain q ps where lr: "load_quotas quotas c0 = Some (c0\<lparr>nodes_usage := q, periods := ps\<rparr>)" "quota_ok q"
    "\<forall>n \<in> set (all_nodes c0). q ! node_id n = (case quotas (node_name n) of Some e \<Rightarrow> used e | None \<Rightarrow> nodes_usage c0 ! node_id n) \<and>
       ps (node_name n) = (case quotas (node_name n) of Some e \<Rightarrow> Some (usage_period e) | None \<Rightarrow> periods c0 (node_name n))"
    using load_quotas_result [OF wf, of quotas] by blast
  then have c1: "c1 = c0\<lparr>nodes_usage := q, periods := ps\<rparr>" "quota_ok q"
    "q ! node_id n = (case quotas (node_name n) of Some e \<Rightarrow> used e | None \<Rightarrow> 0)"
    "ps (node_name n) = (case quotas (node_name n) of Some e \<Rightarrow> Some (usage_period e) | None \<Rightarrow> None)"
    using lq n fresh by (auto split: option.splits)
  have "client_wf c1" using usage_update_evolves [OF wf c1(2)] c1(1) by (simp add: evolves_def)
  from roll_over_periods_total [OF this, of cal now] ro n c1(1)
  have "nodes_usage c2 ! node_id n = (if resets cal (date_of cal now) ps n then 0 else q ! node_id n)"
    "periods c2 (node_name n) = period_after cal (date_of cal now) ps n" by auto
  then show ?thesis
    using start c1(3,4) by (auto simp: starts_from_def resets_def period_after_def split: option.splits)
qed

text \<open>A write whose rename succeeded leaves the new content, whatever fails afterwards.\<close>

definition renames :: "io_plan \<Rightarrow> bool" where
  "renames plan \<longleftrightarrow> create_ok plan \<and> write_stops plan = None \<and> sync_ok plan \<and> rename_ok plan"

lemma write_atomic_async_final:
  assumes "renames plan" and "write_atomic_async plan pid k data fs = (states, ok, k')"
  shows "last states FINAL_PATH = Some data"
  using assms temp_name_not_final
  by (auto simp: renames_def write_atomic_async_def write_then_rename_def Let_def split: bool.splits if_splits)

lemma flush_restore:
  assumes "serde_roundtrip to_vec from_str m" and "renames plan"
    and "flush to_vec plan pid k m fs = (states, k')"
  shows "restore from_str True (last states) = Inr m"
proof -
  obtain data where d: "to_vec m = Some data" "utf8_ok data" "from_str data = Some m"
    using assms(1) by (auto simp: serde_roundtrip_def)
  then obtain ok where "write_atomic_async plan pid k data fs = (states, ok, k')"
    using assms(3) by (auto simp: flush_def split: prod.splits)
  from write_atomic_async_final [OF assms(2) this] d show ?thesis
    by (simp add: restore_def from_utf8_def)
qed

section \<open>Properties\<close>

text \<open>
  C23. A reload that cannot be applied leaves the running configuration alone on every error path:
  the node set, its order, the nodes, their counters, periods and metrics are what they were. Only
  the interning table may have grown, and that changes the id of no name it knew.
\<close>

theorem failed_reload_keeps_serving:
  assumes "client_wf c" and "reload_once api env rs rp srv c = (Inl e, warned, c')"
  shows "client_wf c' \<and> c' = c\<lparr>custom_methods := custom_methods c'\<rparr>
    \<and> (\<forall>m. resolve (custom_methods c) m \<noteq> Unknown \<longrightarrow>
          resolve (custom_methods c') m = resolve (custom_methods c) m)"
  using assms
proof (cases rule: reload_once_cases)
  case (failed e r)
  have ok: "registry_ok (custom_methods c)" using assms(1) by (simp add: client_wf_def)
  have "get_standard_method_id m \<noteq> Unknown \<or> m \<in> set (names (custom_methods c))"
    if "resolve (custom_methods c) m \<noteq> Unknown" for m
    using that lookup_None_iff [OF ok, of m] by (auto simp: resolve_def split: if_splits)
  with failed resolve_kept [OF ok] custom_methods_evolves [OF assms(1) failed(3)] show ?thesis
    by (auto simp: evolves_def)
qed simp

theorem failed_reload_keeps_serving_witness:
  "topo (snd (snd (reload_once demo_api (\<lambda>_. None) (\<lambda>_. None) (\<lambda>_. None)
      \<lparr>port = 1, host = [], enable_metrics = False\<rparr> demo_client))) = topo demo_client"
proof -
  have "reload_once demo_api (\<lambda>_. None) (\<lambda>_. None) (\<lambda>_. None) \<lparr>port = 1, host = [], enable_metrics = False\<rparr>
      demo_client = (Inl (ReloadConfig NoConfigPath), False, demo_client)"
    by (simp add: reload_once_def Settings_load_def)
  from failed_reload_keeps_serving [OF demo_client_wf this] this show ?thesis by simp
qed

text \<open>
  Startup is complete before the first request: when it succeeds the shared state satisfies
  its invariant, and every node of the config starts from its own entry of the usage file if that
  entry belongs to the billing period of today or a later one, and from zero in today's period
  otherwise, so no month already spent is reopened and no finished month is carried over.
\<close>

lemma startup_ready:
  assumes "calendar_ok cal num years" and "year cal (date_of cal now) - 1 \<in> years"
    and "startup api cal from_str env rs rp rec_ok read_ok http_ok fs now = Inr (srv, c)"
  shows "client_wf c \<and> (\<exists>quotas. restore from_str read_ok fs = Inr quotas \<and>
    (\<forall>n \<in> set (all_nodes c). \<exists>start. period_start cal (date_of cal now) (reset_day n) = Some start \<and>
       (nodes_usage c ! node_id n, periods c (node_name n)) =
         (case starts_from cal start (quotas (node_name n)) of (u, d) \<Rightarrow> (u, Some d))))"
  using assms(3)
proof (rule startup_cases)
  fix config described quotas ns methods c0 c1 c2
  assume cfg: "Settings_load env rs = Inr config" and restored: "restore from_str read_ok fs = Inr quotas"
    and built: "build_nodes api rp (nodes config) CustomMethods_default = (Inr ns, methods)"
    and new: "RpcClient_new http_ok methods ns = Inr c0" and lq: "load_quotas quotas (emit described c0) = Some c1"
    and ro: "roll_over_periods cal now c1 = Some c2" and pub: "publish_quota_gauges c2 = Some c"
  have wf0: "client_wf (emit described c0)"
    using RpcClient_new_wf [OF new] build_nodes_registry_ok [OF _ built] build_nodes_metrics [OF _ built] by simp
  have "evolves (emit described c0) c1" by (rule load_quotas_evolves [OF wf0 lq])
  then have wf1: "client_wf c1" by (simp add: evolves_def)
  then have wf2: "client_wf c2"
    using roll_over_periods_total [OF wf1, of cal now] ro usage_update_evolves [OF wf1] by (auto simp: evolves_def)
  obtain ops where c: "c = emit ops c2" using publish_quota_gauges_total [OF wf2] pub by auto
  have all: "all_nodes c = all_nodes c0"
    using load_quotas_result [OF wf0, of quotas] lq roll_over_periods_total [OF wf1, of cal now] ro c by auto
  have "\<exists>start. period_start cal (date_of cal now) (reset_day n) = Some start \<and>
       (nodes_usage c ! node_id n, periods c (node_name n)) =
         (case starts_from cal start (quotas (node_name n)) of (u, d) \<Rightarrow> (u, Some d))"
    if n: "n \<in> set (all_nodes c0)" for n
  proof -
    note fresh = RpcClient_new_fresh [OF new]
    have "1 \<le> reset_day n" using fresh n built_reset_days [OF cfg _ built] by auto
    from period_start_spec [OF assms(1) this assms(2)] obtain start where
      start: "period_start cal (date_of cal now) (reset_day n) = Some start" by blast
    from startup_node [OF wf0 _ _ _ start lq ro] fresh n start c show ?thesis by simp
  qed
  with wf2 restored c all show ?thesis by auto
qed

definition demo_cal :: "(gdate, gmonth) calendar" where
  "demo_cal = gregorian (\<lambda>_. ymd 2026 Aug 3)"

text \<open>A start with one configured node ends with that node on some slot, whatever the usage file holds.\<close>

lemma startup_single:
  assumes load: "Settings_load env rs = Inr config" "\<not> enable_metrics (server config)"
    and b: "build_nodes api rp (nodes config) CustomMethods_default = (Inr [node], r)"
    and restored: "restore from_str True fs = Inr quotas"
  shows "\<exists>c i. startup api cal from_str env rs rp True True True fs now = Inr (server config, c) \<and>
    cells c = [node\<lparr>node_id := i\<rparr>] \<and> topo c = Topology_new [node\<lparr>node_id := i\<rparr>] [0] \<and> custom_methods c = r"
proof -
  have "\<exists>new q. assign_ids [] [node] GlobalQuotaState_default = (Inr new, q)"
    using assign_ids_result [of "[]" GlobalQuotaState_default "[node]"] by (auto simp: MAX_NODES_def)
  then obtain c0 :: "('a, 'b, 'c, 'd) rpc_client" where new: "RpcClient_new True r [node] = Inr c0"
    by (auto simp: RpcClient_new_def)
  then obtain i where c0: "cells c0 = [node\<lparr>node_id := i\<rparr>]" "topo c0 = Topology_new [node\<lparr>node_id := i\<rparr>] [0]" "custom_methods c0 = r"
    by (rule RpcClient_new_result) (auto simp: assigned_def list_all2_Cons1 previous_of_def)
  have wf: "client_wf c0"
    using RpcClient_new_wf [OF new] build_nodes_registry_ok [OF _ b] build_nodes_metrics [OF _ b] by simp
  then obtain q ps where l: "load_quotas quotas c0 = Some (c0\<lparr>nodes_usage := q, periods := ps\<rparr>)" "quota_ok q"
    using load_quotas_result by blast
  have wf1: "client_wf (c0\<lparr>nodes_usage := q, periods := ps\<rparr>)"
    using usage_update_evolves [OF wf l(2)] by (simp add: evolves_def)
  obtain q' ps' where ro: "roll_over_periods cal now (c0\<lparr>nodes_usage := q, periods := ps\<rparr>)
      = Some (c0\<lparr>nodes_usage := q', periods := ps'\<rparr>)" "quota_ok q'"
    using roll_over_periods_total [OF wf1, of cal now] by auto
  have "client_wf (c0\<lparr>nodes_usage := q', periods := ps'\<rparr>)"
    using usage_update_evolves [OF wf ro(2)] by (simp add: evolves_def)
  then obtain c where pub: "publish_quota_gauges (c0\<lparr>nodes_usage := q', periods := ps'\<rparr>) = Some c"
    using publish_quota_gauges_total by blast
  then have "cells c = cells c0" "topo c = topo c0" "custom_methods c = custom_methods c0"
    by (auto simp: publish_quota_gauges_def)
  with pub load b new l ro restored c0 show ?thesis
    by (intro exI [of _ c] exI [of _ i]) (simp add: startup_def emit_def)
qed

lemma demo_startup_on:
  assumes "restore from_str True fs = Inr quotas"
  shows "\<exists>srv c. startup demo_api demo_cal from_str [''CONFIG_PATH'' \<mapsto> ''c''] (\<lambda>_. Some demo_raw)
     (\<lambda>_. Some demo_provider) True True True fs 0 = Inr (srv, c) \<and> map node_name (all_nodes c) = [''a'']"
proof -
  obtain node r where b: "build_nodes demo_api (\<lambda>_. Some demo_provider)
     [\<lparr>cn_name = ''a'', cn_url = ''http://a'', cn_tier = 1, cn_rps_limit = 5, cn_max_concurrent = 2,
       cn_monthly_limit = u64_MAX, cn_provider_pricing_path = ''p.toml'', cn_reset_day = 1\<rparr>]
     CustomMethods_default = (Inr [node], r)" and name: "node_name node = ''a''" using demo_build_nodes by blast
  from startup_single [OF demo_settings_load _ _ assms, of demo_api "\<lambda>_. Some demo_provider" node r demo_cal 0] b name
  show ?thesis by (fastforce simp: all_nodes_def Topology_new_def)
qed

lemma demo_startup:
  "\<exists>srv c. startup demo_api demo_cal (\<lambda>_. None) [''CONFIG_PATH'' \<mapsto> ''c''] (\<lambda>_. Some demo_raw)
     (\<lambda>_. Some demo_provider) True True True (\<lambda>_. None) 0 = Inr (srv, c)"
  using demo_startup_on [of "\<lambda>_. None" "\<lambda>_. None" "\<lambda>_. None"] by (fastforce simp: restore_def)

text \<open>
  What a node has spent survives a restart: after a flush whose rename succeeded, a process
  that starts from the file gives every node that is still in the config and had a billing period
  exactly the counter and the period it had, whatever slot it has now.
\<close>

lemma spend_survives_restart:
  assumes "client_wf c" and "client_wf c2" and "renames plan"
    and "\<And>m. snapshot (all_nodes c) (nodes_usage c) (periods c) = Some m \<Longrightarrow> serde_roundtrip to_vec from_str m"
    and "flush_usage to_vec plan pid k c fs = Some (states, k')"
  shows "\<exists>m c3. restore from_str True (last states) = Inr m \<and> load_quotas m c2 = Some c3 \<and>
    (\<forall>x \<in> node_name ` set (all_nodes c) \<inter> node_name ` set (all_nodes c2). periods c x \<noteq> None \<longrightarrow>
       spend (all_nodes c3) (nodes_usage c3) x = spend (all_nodes c) (nodes_usage c) x \<and> periods c3 x = periods c x)"
proof -
  obtain m where m: "snapshot (all_nodes c) (nodes_usage c) (periods c) = Some m"
    "\<forall>n \<in> set (all_nodes c). m (node_name n) =
       map_option (\<lambda>d. \<lparr>used = nodes_usage c ! node_id n, usage_period = d\<rparr>) (periods c (node_name n))"
    using snapshot_eq [OF client_wf_slots [OF assms(1)] client_wf_quota [OF assms(1)], of "periods c"] by blast
  have restored: "restore from_str True (last states) = Inr m"
    using flush_restore [OF assms(4) [OF m(1)] assms(3)] assms(5) m(1) by (simp add: flush_usage_def)
  obtain q ps where c3: "load_quotas m c2 = Some (c2\<lparr>nodes_usage := q, periods := ps\<rparr>)"
    "\<forall>n \<in> set (all_nodes c2). q ! node_id n = (case m (node_name n) of Some e \<Rightarrow> used e | None \<Rightarrow> nodes_usage c2 ! node_id n) \<and>
       ps (node_name n) = (case m (node_name n) of Some e \<Rightarrow> Some (usage_period e) | None \<Rightarrow> periods c2 (node_name n))"
    using load_quotas_result [OF assms(2), of m] by blast
  have "spend (all_nodes c2) q x = spend (all_nodes c) (nodes_usage c) x \<and> ps x = periods c x"
    if n: "n \<in> set (all_nodes c)" "node_name n = x" and n2: "n2 \<in> set (all_nodes c2)" "node_name n2 = x"
      and d: "periods c x = Some d" for x n n2 d
  proof -
    have "m x = Some \<lparr>used = nodes_usage c ! node_id n, usage_period = d\<rparr>" using m(2) n d by auto
    then have "q ! node_id n2 = nodes_usage c ! node_id n" "ps x = Some d" using c3(2) n2 by auto
    moreover have "distinct (map node_name (all_nodes c))" "distinct (map node_name (all_nodes c2))"
      using client_wf_slots [OF assms(1)] client_wf_slots [OF assms(2)] by (simp_all add: slots_ok_def)
    ultimately show ?thesis using n n2 d spend_Some_iff by metis
  qed
  with restored c3(1) show ?thesis by (intro exI [of _ m] exI conjI) auto
qed

definition running_client :: "(nat, nat, string, nat) rpc_client" where
  "running_client = demo_client\<lparr>nodes_usage := GlobalQuotaState_default[0 := 42], periods := [''a'' \<mapsto> 7]\<rparr>"

lemma running_client_wf: "client_wf running_client"
  using usage_update_evolves [OF demo_client_wf, of "GlobalQuotaState_default[0 := 42]" "[''a'' \<mapsto> 7]"]
  by (simp add: running_client_def evolves_def quota_ok_def GlobalQuotaState_default_def)

definition good_plan :: io_plan where
  "good_plan = \<lparr>create_ok = True, write_stops = None, sync_ok = True, rename_ok = True,
     dir_sync_ok = True, remove_ok = True\<rparr>"

text \<open>
  C39. The flush at shutdown does not roll over first. A node that a reload added since the last
  tick has no billing period yet, so the file that is written has no entry for it: whatever it
  has spent by then is forgotten, and the next process starts it from zero.
\<close>

theorem new_node_spend_lost_at_shutdown:
  assumes "client_wf c" and "\<forall>n \<in> set new. metrics n = NodeMetrics_new (node_name n)"
    and "reload c new = (Inr (), c1)" and "x \<in> node_name ` set new" and "periods c x = None"
    and "quota_ok q"
  shows "\<exists>m u. flush_usage to_vec plan pid k (c1\<lparr>nodes_usage := q\<rparr>) fs = Some (flush to_vec plan pid k m fs) \<and>
    m x = None \<and> spend (all_nodes c1) q x = Some u"
  using assms(1,3)
proof (cases rule: reload_cases)
  case (published new' q')
  have all: "all_nodes c1 = new'"
    using published(6) by (simp add: all_nodes_def Topology_new_def map_nth_append_new del: length_append)
  have ps: "periods c1 x = None" using published(6) assms(5) by simp
  have x: "x \<in> node_name ` set new'"
    using assigned_names [OF published(5)] assms(4) by (metis image_set)
  obtain m where m: "snapshot new' q (periods c1) = Some m"
    "\<forall>n \<in> set new'. m (node_name n) =
       map_option (\<lambda>d. \<lparr>used = q ! node_id n, usage_period = d\<rparr>) (periods c1 (node_name n))"
    using snapshot_eq [OF published(3) assms(6), of "periods c1"] by blast
  have "m x = None" using m(2) x ps by auto
  moreover have "spend new' q x \<noteq> None" using x by (simp add: spend_None_iff)
  ultimately show ?thesis using m(1) all by (auto simp: flush_usage_def)
qed simp

theorem new_node_spend_lost_at_shutdown_witness:
  "\<exists>c1 (m :: nat usage_map) u. reload demo_client [demo_node\<lparr>node_name := ''b'', metrics := NodeMetrics_new ''b''\<rparr>] = (Inr (), c1)
     \<and> flush_usage (\<lambda>_. Some ''{}'') good_plan 7 0 (c1\<lparr>nodes_usage := GlobalQuotaState_default\<rparr>) (\<lambda>_. None)
        = Some (flush (\<lambda>_. Some ''{}'') good_plan 7 0 m (\<lambda>_. None))
     \<and> m ''b'' = None \<and> spend (all_nodes c1) GlobalQuotaState_default ''b'' = Some u"
proof -
  let ?new = "[demo_node\<lparr>node_name := ''b'', metrics := NodeMetrics_new ''b''\<rparr>]"
  obtain new' q' where "assign_ids (all_nodes demo_client) ?new (nodes_usage demo_client) = (Inr new', q')"
    using assign_ids_result [OF client_wf_slots [OF demo_client_wf] client_wf_quota [OF demo_client_wf], of ?new]
    by (auto simp: MAX_NODES_def)
  then obtain c1 where r: "reload demo_client ?new = (Inr (), c1)" by (auto simp: reload_def Let_def)
  have h: "\<forall>n \<in> set ?new. metrics n = NodeMetrics_new (node_name n)" "''b'' \<in> node_name ` set ?new"
    "periods demo_client ''b'' = None" "quota_ok GlobalQuotaState_default" by (simp_all add: demo_client_def)
  show ?thesis
    using r new_node_spend_lost_at_shutdown [OF demo_client_wf h(1) r h(2-4), of "\<lambda>_. Some ''{}''" good_plan 7 0 "\<lambda>_. None"]
    by blast
qed

end
