(* ===== verification/System.thy ===== *)
theory System
  imports Balancer
begin

text \<open>
  The running process as a whole: the shared client, the requests in flight and the background
  tasks, interleaved in any order. One step is one step of one task; a request that the HTTP layer
  drops at an await (its client hung up) gives back what it holds. The ghost component \<open>caps\<close>
  lists, per node cell, the \<open>max_concurrent\<close> of the config entry the node was built from.

  The invariant \<^verbatim>\<open>sys_inv\<close> joins the invariant of the shared state with that of every request and
  with the accounts between them: permits taken are permits held, and the sleep gauge counts the
  requests that sleep. It is an instance of the locale \<open>invariant_machine\<close>.
\<close>

section \<open>The process\<close>

record ('l, 's, 'u, 'd, 'm) world =
  w_api :: "('l, 's, 'u) node_api"
  w_wire :: wire_api
  w_lib :: body_api
  w_epoch :: instant
  w_cal :: "('d, 'm) calendar"
  w_to_vec :: "'d usage_map \<Rightarrow> bytes option"
  w_from_str :: "string \<Rightarrow> 'd usage_map option"
  w_pid :: nat

record ('l, 's, 'u, 'd) system =
  client :: "('l, 's, 'u, 'd) rpc_client"
  inflight :: "request list"
  disk :: files
  write_counter :: u64
  startup_server :: server_settings
  caps :: "nat list"

definition sys_init :: "('l, 's, 'u, 'd, 'm) world \<Rightarrow> ('l, 's, 'u, 'd) system \<Rightarrow> bool" where
  "sys_init w s \<longleftrightarrow>
     (\<exists>env rs rp rec_ok read_ok http_ok now config.
        startup (w_api w) (w_cal w) (w_from_str w) env rs rp rec_ok read_ok http_ok (disk s) now
          = Inr (startup_server s, client s) \<and>
        Settings_load env rs = Inr config \<and> caps s = map cn_max_concurrent (nodes config) \<and> inflight s = [])"

text \<open>The awaits of a request, where it may be dropped.\<close>

fun awaits :: "pc \<Rightarrow> bool" where
  "awaits (Attempting _) = True"
| "awaits (Sleeping _) = True"
| "awaits (Parked _) = True"
| "awaits (ParkAttempting _) = True"
| "awaits _ = False"

lemma awaits_cases:
  "awaits p \<Longrightarrow> (\<exists>r. p = Attempting r) \<or> (\<exists>r. p = ParkAttempting r) \<or> (\<exists>d. p = Sleeping d) \<or> (\<exists>r. p = Parked r)"
  by (cases p) auto

definition remove_nth :: "nat \<Rightarrow> 'a list \<Rightarrow> 'a list" where
  "remove_nth i xs = take i xs @ drop (Suc i) xs"

definition caps_after ::
  "(reload_error + nat) \<Rightarrow> (config_error + settings) \<Rightarrow> nat list \<Rightarrow> nat list" where
  "caps_after res loaded cs =
     (case (res, loaded) of (Inr _, Inr st) \<Rightarrow> cs @ map cn_max_concurrent (nodes st) | _ \<Rightarrow> cs)"

inductive sys_step ::
  "('l, 's, 'u, 'd, 'm) world \<Rightarrow> ('l, 's, 'u, 'd) system \<Rightarrow> ('l, 's, 'u, 'd) system \<Rightarrow> bool"
  for w :: "('l, 's, 'u, 'd, 'm) world"
where
  arrive: "sys_step w s (s\<lparr>inflight := inflight s @ [send_begin (w_lib w) (w_epoch w) started body (client s)]\<rparr>)"
| advance: "i < length (inflight s) \<Longrightarrow> rq = inflight s ! i \<Longrightarrow>
    route_step (w_api w) (w_wire w) (w_epoch w) (rq_method_id rq) (rq_now_s rq) ev (rq_route rq, client s) = Some (st', c') \<Longrightarrow>
    sys_step w s (s\<lparr>client := c', inflight := (inflight s)[i := rq\<lparr>rq_route := st'\<rparr>]\<rparr>)"
| answer: "i < length (inflight s) \<Longrightarrow> pc (rq_route (inflight s ! i)) = Finished res \<Longrightarrow>
    send_end elapsed res (client s) = (response, c') \<Longrightarrow>
    sys_step w s (s\<lparr>client := c', inflight := remove_nth i (inflight s)\<rparr>)"
| hang_up: "i < length (inflight s) \<Longrightarrow> rq = inflight s ! i \<Longrightarrow> awaits (pc (rq_route rq)) \<Longrightarrow>
    expire (w_api w) (rq_route rq) (client s) = (st', c') \<Longrightarrow>
    sys_step w s (s\<lparr>client := c', inflight := remove_nth i (inflight s)\<rparr>)"
| ranked: "rerank (w_epoch w) at (client s) = (n, c') \<Longrightarrow> sys_step w s (s\<lparr>client := c'\<rparr>)"
| flushed: "flusher_tick (w_cal w) (w_to_vec w) plan (w_pid w) (write_counter s) now (client s) (disk s) = Some (c', states, k) \<Longrightarrow>
    sys_step w s (s\<lparr>client := c', disk := last states, write_counter := k\<rparr>)"
| sighup: "reload_once (w_api w) env rs rp (startup_server s) (client s) = (res, warned, c') \<Longrightarrow>
    sys_step w s (s\<lparr>client := c', caps := caps_after res (Settings_load env rs) (caps s)\<rparr>)"

section \<open>The invariant\<close>

definition attempts_on :: "request list \<Rightarrow> nat \<Rightarrow> nat" where
  "attempts_on rqs r = sum_list (map (\<lambda>rq. held (rq_route rq) r) rqs)"

definition asleep :: "request list \<Rightarrow> int" where
  "asleep rqs = sum_list (map (\<lambda>rq. guarding (pc (rq_route rq))) rqs)"

definition accounts ::
  "('s \<Rightarrow> nat) \<Rightarrow> ('l, 's, 'u, 'd) rpc_client \<Rightarrow> request list \<Rightarrow> nat list \<Rightarrow> bool" where
  "accounts permits c rqs cs \<longleftrightarrow> client_wf c \<and> (\<forall>rq \<in> set rqs. route_wf c (rq_route rq)) \<and>
     length cs = length (cells c) \<and>
     (\<forall>r < length (cells c). free_permits permits c r + attempts_on rqs r = cs ! r) \<and>
     sleepers c = asleep rqs"

definition sys_inv ::
  "('l, 's, 'u, 'd, 'm) world \<Rightarrow> ('s \<Rightarrow> nat) \<Rightarrow> ('l, 's, 'u, 'd) system \<Rightarrow> bool" where
  "sys_inv w permits s \<longleftrightarrow>
     (semaphore_ok (w_api w) permits \<longrightarrow> accounts permits (client s) (inflight s) (caps s))"

lemma attempts_on_simps [simp]:
  "attempts_on [] r = 0" "attempts_on (rq # rqs) r = held (rq_route rq) r + attempts_on rqs r"
  "attempts_on (xs @ ys) r = attempts_on xs r + attempts_on ys r"
  by (simp_all add: attempts_on_def)

lemma asleep_simps [simp]:
  "asleep [] = 0" "asleep (rq # rqs) = guarding (pc (rq_route rq)) + asleep rqs"
  "asleep (xs @ ys) = asleep xs + asleep ys"
  by (simp_all add: asleep_def)

lemma set_remove_nth: "set (remove_nth i xs) \<subseteq> set xs"
  by (auto simp: remove_nth_def dest: in_set_takeD in_set_dropD)

lemma accounts_at:
  "accounts permits c rqs cs \<Longrightarrow> i < length rqs \<Longrightarrow> accounts permits c (take i rqs @ rqs ! i # drop (Suc i) rqs) cs"
  by (simp add: id_take_nth_drop [symmetric])

text \<open>Replacing one request.\<close>

lemma accounts_replace:
  assumes acc: "accounts permits c (xs @ rq # ys) cs"
    and eff: "step_effect permits m (rq_route rq) c (rq_route rq') c'" and len: "length (cells c') = length (cells c)"
  shows "accounts permits c' (xs @ rq' # ys) cs"
proof -
  have wf: "route_wf c' (rq_route rq')" "client_wf c'" and ev: "evolves c c'"
    and free: "\<forall>r < length (cells c). free_permits permits c' r + held (rq_route rq') r
      = free_permits permits c r + held (rq_route rq) r"
    and sl: "sleepers c' = sleepers c + guarding (pc (rq_route rq')) - guarding (pc (rq_route rq))"
    using eff by (auto simp: step_effect_def evolves_def)
  have "\<forall>q \<in> set (xs @ rq' # ys). route_wf c' (rq_route q)"
    using acc wf(1) route_wf_evolves [OF _ ev] by (auto simp: accounts_def)
  moreover have "\<forall>r < length (cells c'). free_permits permits c' r + attempts_on (xs @ rq' # ys) r = cs ! r"
    using acc free len by (fastforce simp: accounts_def)
  ultimately show ?thesis using acc wf(2) sl len by (simp add: accounts_def)
qed

text \<open>A request that is over holds nothing and can go.\<close>

lemma accounts_drop:
  assumes "accounts permits c (xs @ rq # ys) cs"
    and "holding (pc (rq_route rq)) = None" and "guarding (pc (rq_route rq)) = 0"
  shows "accounts permits c (xs @ ys) cs"
  using assms by (auto simp: accounts_def held_def)

text \<open>A background task that takes and gives no permit.\<close>

lemma accounts_background:
  assumes "accounts permits c rqs cs" and "evolves c c'" and "cells c' = cells c" and "sleepers c' = sleepers c"
  shows "accounts permits c' rqs cs"
  using assms route_wf_evolves [OF _ assms(2)]
  by (auto simp: accounts_def evolves_def free_permits_def)

lemma attempts_on_new:
  assumes "\<forall>rq \<in> set rqs. route_wf c (rq_route rq)" and "length (cells c) \<le> r"
  shows "attempts_on rqs r = 0"
proof -
  have "held (rq_route rq) r = 0" if "rq \<in> set rqs" for rq
    using assms that by (cases "pc (rq_route rq)") (auto simp: held_def route_wf_def)
  then show ?thesis by (simp add: attempts_on_def)
qed

lemma accounts_grow:
  assumes acc: "accounts permits c rqs cs" and ev: "evolves c c'" and cells: "cells c' = cells c @ new"
    and sl: "sleepers c' = sleepers c"
  shows "accounts permits c' rqs (cs @ map (\<lambda>n. permits (concurrency (limits n))) new)"
proof -
  have wf: "\<forall>rq \<in> set rqs. route_wf c (rq_route rq)" and len: "length cs = length (cells c)"
    using acc by (simp_all add: accounts_def)
  have "free_permits permits c' r + attempts_on rqs r = (cs @ map (\<lambda>n. permits (concurrency (limits n))) new) ! r"
    if "r < length (cells c')" for r
  proof (cases "r < length (cells c)")
    case True
    with acc cells len show ?thesis by (auto simp: accounts_def free_permits_def nth_append)
  next
    case False
    with that cells len attempts_on_new [OF wf, of r] show ?thesis
      by (simp add: free_permits_def nth_append)
  qed
  then show ?thesis
    using acc wf route_wf_evolves [OF _ ev] ev cells sl by (auto simp: accounts_def evolves_def)
qed

section \<open>Steps of requests and of background tasks\<close>

text \<open>Requests change cells in place, and neither the topology nor the billing periods.\<close>

abbreviation in_place :: "('l, 's, 'u, 'd) rpc_client \<Rightarrow> ('l, 's, 'u, 'd) rpc_client \<Rightarrow> bool" where
  "in_place c c' \<equiv> length (cells c') = length (cells c) \<and> topo c' = topo c \<and> periods c' = periods c"

lemma in_place_ops [simp]:
  "in_place c (set_cell r n c)" "in_place c (release api r c)" "in_place c (skip_node rs r c)"
  by (simp_all add: set_cell_def release_def skip_node_def)

lemma book_in_place: "book api m r c = Some (a, c') \<Longrightarrow> in_place c c'"
  by (auto simp: book_def Let_def split: option.splits if_splits)

lemma admit_in_place: "admit api t t' m r c = Some (a, c') \<Longrightarrow> in_place c c'"
  by (auto simp: admit_def split: prod.splits sum.splits unavailable.splits dest!: book_in_place)

lemma poll_in_place: "admit_waiting_poll api t t' m r c = Some (Some (a, c')) \<Longrightarrow> in_place c c'"
  by (auto simp: admit_waiting_poll_def Let_def split: acquired.splits prod.splits sum.splits dest!: book_in_place)

lemma visit_in_place: "visit api t t' m now_s r st c = Some (st', c') \<Longrightarrow> in_place c c'"
  by (auto simp: visit_def split: option.splits if_splits prod.splits admission.splits dest!: admit_in_place)

lemma unpark_in_place: "unpark api t t' m r st c = Some (st', c') \<Longrightarrow> in_place c c'"
  by (auto simp: unpark_def split: option.splits prod.splits admission.splits dest!: poll_in_place)

lemma expire_in_place: "expire api st c = (st', c') \<Longrightarrow> in_place c c'"
  by (auto simp: expire_def split: pc.splits)

lemma route_step_in_place:
  assumes "route_step api wire E m now_s ev (st, c) = Some (st', c')"
  shows "in_place c c'"
  using assms
proof (cases rule: route_stepE)
  case (visited t t' r rs)
  then show ?thesis by (auto simp: or_panic_def split: option.splits dest: visit_in_place)
next
  case (polled r t t')
  then show ?thesis by (auto simp: or_panic_def split: option.splits dest: unpark_in_place)
next
  case ended
  then show ?thesis by (auto simp: round_end_def admit_waiting_begin_def split: option.splits if_splits)
qed (auto simp: attempt_on_def split: prod.splits dest: expire_in_place)

lemma node_gauges_quiet: "sum_list (map gauge_delta (snd (node_gauges now_s ns))) = 0"
  by (induction ns) (auto simp: Let_def set_node_state_def split: prod.splits)

lemma rerank_quiet:
  assumes "rerank EPOCH at c = (n, c')"
  shows "cells c' = cells c \<and> sleepers c' = sleepers c"
  using assms node_gauges_quiet [of "seconds_since_start EPOCH at" "all_nodes c"]
  by (auto simp: rerank_def Let_def sleepers_def set_healthy_nodes_def split: prod.splits)

lemma flusher_tick_quiet:
  assumes "client_wf c" and "flusher_tick cal to_vec plan pid k now c fs = Some (c', out)"
  shows "evolves c c' \<and> cells c' = cells c \<and> sleepers c' = sleepers c"
proof -
  obtain q ps ops where c': "c' = emit ops (c\<lparr>nodes_usage := q, periods := ps\<rparr>)" and q: "quota_ok q"
    and ops: "sum_list (map gauge_delta ops) = 0"
    using flusher_tick_total [OF assms(1), of cal to_vec plan pid k now fs] assms(2) by auto
  have "sleepers c' = sleepers c" unfolding c' by (simp add: sleepers_def ops)
  with usage_update_evolves [OF assms(1) q, of ps] show ?thesis by (simp add: c' evolves_def)
qed

text \<open>The semaphore of a new node has as many permits as its config entry allows.\<close>

abbreviation permits_of :: "('s \<Rightarrow> nat) \<Rightarrow> ('l, 's, 'u) rpc_node \<Rightarrow> nat" where
  "permits_of permits n \<equiv> permits (concurrency (limits n))"

lemma build_node_permits:
  assumes "semaphore_ok api permits" and "build_node api rp n r = (Inr node, r')"
  shows "permits_of permits node = cn_max_concurrent n"
  using assms
  by (auto simp: build_node_def load_from_path_def RpcNode_new_def semaphore_ok_def
      split: sum.splits prod.splits if_splits option.splits)

lemma build_nodes_permits:
  "semaphore_ok api permits \<Longrightarrow> build_nodes api rp ns r = (Inr built, r') \<Longrightarrow>
     map (permits_of permits) built = map cn_max_concurrent ns"
  by (induction ns arbitrary: r built) (auto split: sum.splits prod.splits dest: build_node_permits)

lemma assigned_permits:
  "list_all2 (assigned prev q q') new new' \<Longrightarrow> map (permits_of permits) new' = map (permits_of permits) new"
  by (induction rule: list_all2_induct) (auto simp: assigned_def carry_over_def split: option.splits)

lemma reload_once_accounts:
  assumes sem: "semaphore_ok api permits" and acc: "accounts permits c rqs cs"
    and rl: "reload_once api env rs rp srv c = (res, warned, c')"
  shows "accounts permits c' rqs (caps_after res (Settings_load env rs) cs)"
proof -
  have wf: "client_wf c" using acc by (simp add: accounts_def)
  have ev: "evolves c c'" by (rule reload_once_evolves [OF wf rl])
  from wf rl show ?thesis
  proof (cases rule: reload_once_cases)
    case (failed e r)
    then have "cells c' = cells c" "sleepers c' = sleepers c" by (simp_all add: sleepers_def)
    from accounts_background [OF acc ev this] failed(1) show ?thesis by (simp add: caps_after_def)
  next
    case (published settings new r)
    have "client_wf (c\<lparr>custom_methods := r\<rparr>)"
      using custom_methods_evolves [OF wf published(3)] by (simp add: evolves_def)
    from this published(5) obtain new' where "cells c' = cells c @ new'" "sleepers c' = sleepers c"
      "map (permits_of permits) new' = map cn_max_concurrent (nodes settings)"
    proof (cases rule: reload_cases)
      case (published new' q')
      with that assigned_permits [OF published(5), of permits]
        build_nodes_permits [OF sem \<open>build_nodes api rp (nodes settings) (custom_methods c) = (Inr new, r)\<close>]
      show ?thesis by (simp add: sleepers_def)
    qed simp
    with accounts_grow [OF acc ev] published(1,6) show ?thesis by (simp add: caps_after_def)
  qed
qed

section \<open>The invariant holds throughout\<close>

lemma startup_accounts:
  assumes sem: "semaphore_ok api permits" and cfg: "Settings_load env rs = Inr config"
    and st: "startup api cal from_str env rs rp rec_ok read_ok http_ok fs now = Inr (srv, c)"
  shows "accounts permits c [] (map cn_max_concurrent (nodes config))"
  using st
proof (rule startup_cases)
  fix config' described quotas ns methods c0 c1 c2
  assume cfg': "Settings_load env rs = Inr config'"
    and built: "build_nodes api rp (nodes config') CustomMethods_default = (Inr ns, methods)"
    and new: "RpcClient_new http_ok methods ns = Inr c0" and lq: "load_quotas quotas (emit described c0) = Some c1"
    and ro: "roll_over_periods cal now c1 = Some c2" and pub: "publish_quota_gauges c2 = Some c"
    and d: "described = [] \<or> described = describe_all"
  have wf0: "client_wf (emit described c0)"
    using RpcClient_new_wf [OF new] build_nodes_registry_ok [OF _ built] build_nodes_metrics [OF _ built] by simp
  obtain q1 ps1 where c1: "c1 = (emit described c0)\<lparr>nodes_usage := q1, periods := ps1\<rparr>" "quota_ok q1"
    using load_quotas_result [OF wf0, of quotas] lq by auto
  have wf1: "client_wf c1" using usage_update_evolves [OF wf0 c1(2)] c1(1) by (simp add: evolves_def)
  obtain q2 ps2 where c2: "c2 = c1\<lparr>nodes_usage := q2, periods := ps2\<rparr>" "quota_ok q2"
    using roll_over_periods_total [OF wf1, of cal now] ro by auto
  have wf2: "client_wf c2" using usage_update_evolves [OF wf1 c2(2)] c2(1) by (simp add: evolves_def)
  obtain ops where c: "c = emit ops c2" "sum_list (map gauge_delta ops) = 0"
    using publish_quota_gauges_total [OF wf2] pub by auto
  have "cells c0 = cells c \<and> emitted c0 = [] \<and> map (permits_of permits) (cells c0) = map cn_max_concurrent (nodes config)"
    using new
  proof (rule RpcClient_new_result)
    fix ns' q assume "c0 = \<lparr>cells = ns', topo = Topology_new ns' [0..<length ns'], nodes_usage = q,
        periods = (\<lambda>_. None), custom_methods = methods, emitted = []\<rparr>"
      and "list_all2 (assigned [] GlobalQuotaState_default q) ns ns'"
    with assigned_permits [of "[]" GlobalQuotaState_default q ns ns' permits] build_nodes_permits [OF sem built]
    show ?thesis using cfg cfg' c c1 c2 by simp
  qed
  then have cs: "cells c0 = cells c" "emitted c0 = []" "map (permits_of permits) (cells c) = map cn_max_concurrent (nodes config)"
    by auto
  have "sum_list (map gauge_delta described) = 0" using d by (auto simp: describe_all_def)
  then have "sleepers c = 0" using c c1(1) c2(1) cs(2) by (simp add: sleepers_def)
  moreover have "length (map cn_max_concurrent (nodes config)) = length (cells c)"
    using cs(3) by (metis length_map)
  moreover have "free_permits permits c r = map cn_max_concurrent (nodes config) ! r" if "r < length (cells c)" for r
    using that unfolding cs(3) [symmetric] by (simp add: free_permits_def)
  ultimately show ?thesis using wf2 c(1) by (simp add: accounts_def)
qed

lemma accounts_advance:
  assumes sem: "semaphore_ok api permits" and acc: "accounts permits c rqs cs"
    and i: "i < length rqs" "rq = rqs ! i"
    and step: "route_step api wire E m now_s ev (rq_route rq, c) = Some (st', c')"
  shows "accounts permits c' (rqs[i := rq\<lparr>rq_route := st'\<rparr>]) cs"
proof -
  have a: "accounts permits c (take i rqs @ rq # drop (Suc i) rqs) cs" using accounts_at [OF acc i(1)] i(2) by simp
  then have "route_wf c (rq_route rq)" "client_wf c" by (simp_all add: accounts_def)
  from route_step_effect [OF sem this(2,1) step] route_step_in_place [OF step] show ?thesis
    using accounts_replace [OF a, where rq' = "rq\<lparr>rq_route := st'\<rparr>"] i(1) by (simp add: upd_conv_take_nth_drop)
qed

lemma accounts_hang_up:
  assumes sem: "semaphore_ok api permits" and acc: "accounts permits c rqs cs"
    and i: "i < length rqs" "rq = rqs ! i" and awaits: "awaits (pc (rq_route rq))"
    and expired: "expire api (rq_route rq) c = (st', c')"
  shows "accounts permits c' (remove_nth i rqs) cs"
proof -
  have a: "accounts permits c (take i rqs @ rq # drop (Suc i) rqs) cs" using accounts_at [OF acc i(1)] i(2) by simp
  then have wf: "route_wf c (rq_route rq)" "client_wf c" by (simp_all add: accounts_def)
  from expire_effect [OF sem wf(2,1) awaits_cases [OF awaits] expired] expire_in_place [OF expired]
  have "accounts permits c' (take i rqs @ (rq\<lparr>rq_route := st'\<rparr>) # drop (Suc i) rqs) cs"
    by (intro accounts_replace [OF a]) simp_all
  moreover have "pc st' = Finished (Inl Timeout)" using expired by (auto simp: expire_def)
  ultimately show ?thesis unfolding remove_nth_def using accounts_drop [where rq = "rq\<lparr>rq_route := st'\<rparr>"] by simp
qed

lemma accounts_answer:
  assumes acc: "accounts permits c rqs cs" and i: "i < length rqs" and over: "pc (rq_route (rqs ! i)) = Finished res"
    and ended: "send_end elapsed res c = (response, c')"
  shows "accounts permits c' (remove_nth i rqs) cs"
proof -
  have "accounts permits c (remove_nth i rqs) cs"
    unfolding remove_nth_def using accounts_drop [OF accounts_at [OF acc i]] over by simp
  moreover have "evolves c c'" "cells c' = cells c" "sleepers c' = sleepers c"
    using acc ended by (auto simp: send_end_def Let_def accounts_def evolves_def sleepers_emit record_request_def
        split: prod.splits)
  ultimately show ?thesis by (rule accounts_background)
qed

lemma sys_step_accounts:
  assumes sem: "semaphore_ok (w_api w) permits" and acc: "accounts permits (client s) (inflight s) (caps s)"
    and step: "sys_step w s s'"
  shows "accounts permits (client s') (inflight s') (caps s')"
  using step
proof cases
  case (arrive started body)
  have "route_wf (client s) (rq_route (send_begin (w_lib w) (w_epoch w) started body (client s)))"
    "holding (pc (rq_route (send_begin (w_lib w) (w_epoch w) started body (client s)))) = None"
    "guarding (pc (rq_route (send_begin (w_lib w) (w_epoch w) started body (client s)))) = 0"
    by (auto simp: send_begin_def dispatch_def route_wf_def route_init_def extract_method_def split: sum.splits option.splits)
  with arrive acc show ?thesis by (auto simp: accounts_def held_def)
next
  case (advance i rq ev st' c')
  then show ?thesis using accounts_advance [OF sem acc] by simp
next
  case (answer i res elapsed response c')
  then show ?thesis using accounts_answer [OF acc] by simp
next
  case (hang_up i rq st' c')
  then show ?thesis using accounts_hang_up [OF sem acc] by simp
next
  case (ranked at n c')
  then show ?thesis
    using accounts_background [OF acc] rerank_evolves [OF _ ranked(2)] rerank_quiet [OF ranked(2)] acc by (simp add: accounts_def)
next
  case (flushed plan now c' states k)
  then show ?thesis
    using accounts_background [OF acc] flusher_tick_quiet [OF _ flushed(2)] acc by (simp add: accounts_def)
next
  case (sighup env rs rp res warned c')
  then show ?thesis using reload_once_accounts [OF sem acc sighup(2)] by simp
qed

interpretation process: invariant_machine "sys_init w" "sys_step w" "sys_inv w permits" for w permits
proof
  fix s :: "('a, 'b, 'c, 'd) system"
  assume "sys_init w s"
  then show "sys_inv w permits s" by (auto simp: sys_init_def sys_inv_def dest: startup_accounts)
next
  fix s t :: "('a, 'b, 'c, 'd) system"
  assume "sys_inv w permits s" "sys_step w s t"
  then show "sys_inv w permits t" unfolding sys_inv_def using sys_step_accounts by blast
qed

lemma reachable_accounts:
  assumes "semaphore_ok (w_api w) permits" and "reachable (sys_init w) (sys_step w) s"
  shows "accounts permits (client s) (inflight s) (caps s)"
  using process.invar_reachable [OF assms(2), of permits] assms(1) by (simp add: sys_inv_def)

lemma attempts_on_count: "attempts_on rqs r = length (filter (\<lambda>rq. holding (pc (rq_route rq)) = Some r) rqs)"
  by (induction rqs) (simp_all add: held_def)

lemma asleep_count: "asleep rqs = int (length (filter (\<lambda>rq. guarding (pc (rq_route rq)) = 1) rqs))"
proof (induction rqs)
  case (Cons rq rqs)
  then show ?case by (cases "pc (rq_route rq)") simp_all
qed simp

text \<open>
  Every step of the process changes the shared state in the way a request relies on between two
  of its own steps, so an execution of one request inside the process is one of \<^const>\<open>exec_step\<close>.
\<close>

lemma sys_step_evolves:
  assumes sem: "semaphore_ok (w_api w) permits" and acc: "accounts permits (client s) (inflight s) (caps s)"
    and step: "sys_step w s s'"
  shows "evolves (client s) (client s')"
proof -
  have rq: "route_wf (client s) (rq_route (inflight s ! i))" if "i < length (inflight s)" for i
    using acc that by (auto simp: accounts_def)
  have c: "client_wf (client s)" using acc by (simp add: accounts_def)
  from step show ?thesis
  proof cases
    case (advance i rq ev st' c')
    with route_step_effect [OF sem c rq [OF advance(2)]] show ?thesis by (auto simp: step_effect_def)
  next
    case (hang_up i rq st' c')
    with expire_effect [OF sem c rq [OF hang_up(2)] awaits_cases] show ?thesis by (auto simp: step_effect_def)
  next
    case (answer i res elapsed response c')
    with c show ?thesis by (auto simp: send_end_def Let_def evolves_def)
  next
    case (flushed plan now c' states k)
    with flusher_tick_quiet [OF c flushed(2)] show ?thesis by simp
  qed (use c rerank_evolves reload_once_evolves in \<open>auto simp: evolves_refl\<close>)
qed

section \<open>A concrete process\<close>

definition demo_world :: "(nat, nat, string, gdate, gmonth) world" where
  "demo_world = \<lparr>w_api = demo_api, w_wire = demo_wire, w_lib = demo_lib, w_epoch = 0, w_cal = demo_cal,
     w_to_vec = (\<lambda>_. None), w_from_str = (\<lambda>_. None), w_pid = 1\<rparr>"

lemma demo_process:
  "\<exists>s. reachable (sys_init demo_world) (sys_step demo_world) s \<and> length (inflight s) = 1 \<and> caps s = [2]"
proof -
  obtain srv c where st: "startup demo_api demo_cal (\<lambda>_. None) [''CONFIG_PATH'' \<mapsto> ''c''] (\<lambda>_. Some demo_raw)
     (\<lambda>_. Some demo_provider) True True True (\<lambda>_. None) 0 = Inr (srv, c)" using demo_startup by blast
  define s where "s = \<lparr>client = c, inflight = [], disk = (\<lambda>_. None), write_counter = 0, startup_server = srv, caps = [2]\<rparr>"
  have "\<exists>config. Settings_load [''CONFIG_PATH'' \<mapsto> ''c''] (\<lambda>_. Some demo_raw) = Inr config \<and> [2] = map cn_max_concurrent (nodes config)"
    by (simp add: demo_settings_load)
  with st have "sys_init demo_world s" unfolding sys_init_def s_def demo_world_def by fastforce
  then have "reachable (sys_init demo_world) (sys_step demo_world) s" by (rule reachable_init)
  from reachable_step [OF this arrive [of demo_world s 0 "[]"]] show ?thesis
    by (intro exI conjI, assumption) (simp_all add: s_def)
qed

section \<open>Properties\<close>

text \<open>
  C1. The concurrency cap of every node is respected in every interleaving: at any moment, for every
  node that was ever configured, the requests that are inside an attempt on it and the permits it has
  left add up to the \<open>max_concurrent\<close> of its config entry. Timeouts, dropped connections, reloads
  and ranking rounds neither leak a permit nor invent one.
\<close>

theorem concurrency_cap_respected:
  assumes "semaphore_ok (w_api w) permits" and "reachable (sys_init w) (sys_step w) s"
    and "r < length (cells (client s))"
  shows "length (filter (\<lambda>rq. holding (pc (rq_route rq)) = Some r) (inflight s)) + free_permits permits (client s) r
    = caps s ! r"
  using reachable_accounts [OF assms(1,2)] assms(3)
  by (simp add: accounts_def attempts_on_count [symmetric] add.commute)

theorem concurrency_cap_respected_witness:
  "\<exists>s :: (nat, nat, string, gdate) system. length (inflight s) = 1 \<and>
     length (filter (\<lambda>rq. holding (pc (rq_route rq)) = Some 0) (inflight s)) + free_permits id (client s) 0 = (2 :: nat)"
proof -
  obtain s where s: "reachable (sys_init demo_world) (sys_step demo_world) s" "length (inflight s) = 1" "caps s = [2]"
    using demo_process by blast
  have sem: "semaphore_ok (w_api demo_world) id" by (simp add: demo_world_def)
  have "length (cells (client s)) = 1" using reachable_accounts [OF sem s(1)] s(3) by (simp add: accounts_def)
  with concurrency_cap_respected [OF sem s(1), of 0] s show ?thesis by auto
qed

text \<open>
  C16. Every interleaving of requests, ranking rounds, flusher ticks and reloads is safe: no request
  ever panics on an index or a shift, the shared state keeps its invariant, and the sleep gauge shows
  exactly the number of requests that sleep on a rate limit or are parked on a busy node.
\<close>

theorem interleavings_are_safe:
  assumes "semaphore_ok (w_api w) permits" and "reachable (sys_init w) (sys_step w) s"
  shows "client_wf (client s) \<and> list_all (\<lambda>rq. pc (rq_route rq) \<noteq> Panicked) (inflight s)
    \<and> sleepers (client s) = int (length (filter (\<lambda>rq. guarding (pc (rq_route rq)) = 1) (inflight s)))"
  using reachable_accounts [OF assms]
  by (auto simp: accounts_def asleep_count list_all_iff route_wf_def)

theorem interleavings_are_safe_witness:
  "\<exists>s :: (nat, nat, string, gdate) system. length (inflight s) = 1 \<and> client_wf (client s) \<and>
     list_all (\<lambda>rq. pc (rq_route rq) \<noteq> Panicked) (inflight s)"
proof -
  have "semaphore_ok (w_api demo_world) id" by (simp add: demo_world_def)
  with interleavings_are_safe demo_process show ?thesis by blast
qed

end
