(* ===== verification/Ledger.thy ===== *)
theory Ledger
  imports System
begin

text \<open>
  What the process promises about money, stated without requests, permits, locks or files: an account
  book that holds, per quota slot, what has been spent on it in the running billing period, and which
  node name owns which slot. Four kinds of entries change it. The process of \<open>System\<close> refines the
  book: every step of every task is one entry, and an entry charges a slot exactly when a request
  starts an attempt on a node of that slot, with the price of its method there.
\<close>

section \<open>The account book\<close>

record account_book =
  open_at :: "string \<rightharpoonup> nat"
  balance :: "nat \<Rightarrow> u64"

text \<open>
  A charge of a price; the reset of some slots, whose billing period has turned; the publication of a new
  node set, which hands some slots to new names; nothing.
\<close>

datatype account_event =
    Charged nat u32
  | Turned "nat set"
  | Reopened "string \<rightharpoonup> nat" "nat set"
  | Quiet

fun enter :: "account_event \<Rightarrow> account_book \<Rightarrow> account_book" where
  "enter (Charged i price) b = b\<lparr>balance := (balance b)(i := balance b i + ucast price)\<rparr>"
| "enter (Turned S) b = b\<lparr>balance := (\<lambda>i. if i \<in> S then 0 else balance b i)\<rparr>"
| "enter (Reopened opened fresh) b = \<lparr>open_at = opened, balance = (\<lambda>i. if i \<in> fresh then 0 else balance b i)\<rparr>"
| "enter Quiet b = b"

text \<open>
  Only slots that are open can turn. A new node set owns its slots one to one, leaves a name that it keeps
  on its slot, and clears exactly the slots of the names that are new.
\<close>

fun permitted :: "account_book \<Rightarrow> account_event \<Rightarrow> bool" where
  "permitted b (Charged i price) \<longleftrightarrow> i < MAX_NODES \<and> price \<noteq> u32_MAX"
| "permitted b (Turned S) \<longleftrightarrow> S \<subseteq> ran (open_at b)"
| "permitted b (Reopened opened fresh) \<longleftrightarrow>
     inj_on opened (dom opened) \<and> ran opened \<subseteq> {..<MAX_NODES} \<and>
     (\<forall>x \<in> dom opened \<inter> dom (open_at b). opened x = open_at b x) \<and>
     fresh = {i. \<exists>x. opened x = Some i \<and> open_at b x = None}"
| "permitted b Quiet \<longleftrightarrow> True"

definition book_ok :: "account_book \<Rightarrow> bool" where
  "book_ok b \<longleftrightarrow> inj_on (open_at b) (dom (open_at b)) \<and> ran (open_at b) \<subseteq> {..<MAX_NODES}"

lemma enter_ok: "book_ok b \<Longrightarrow> permitted b ev \<Longrightarrow> book_ok (enter ev b)"
  by (cases ev) (auto simp: book_ok_def)

text \<open>An entry that sets slot \<open>i\<close> back to zero, and what a list of entries charges it.\<close>

fun wipes :: "nat \<Rightarrow> account_event \<Rightarrow> bool" where
  "wipes i (Turned S) = (i \<in> S)"
| "wipes i (Reopened opened fresh) = (i \<in> fresh)"
| "wipes i _ = False"

fun charge :: "nat \<Rightarrow> account_event \<Rightarrow> u64" where
  "charge i (Charged j price) = (if j = i then ucast price else 0)"
| "charge i _ = 0"

definition charged_since_wipe :: "nat \<Rightarrow> account_event list \<Rightarrow> u64" where
  "charged_since_wipe i evs = sum_list (map (charge i) (takeWhile (\<lambda>ev. \<not> wipes i ev) (rev evs)))"

lemma balance_enter: "balance (enter ev b) i = (if wipes i ev then 0 else balance b i + charge i ev)"
  by (cases ev) auto

text \<open>A balance is what was charged since the slot was last set to zero.\<close>

lemma balance_fold:
  "balance (fold enter evs b) i =
     (if list_ex (wipes i) evs then 0 else balance b i) + charged_since_wipe i evs"
  by (induction evs rule: rev_induct) (auto simp: balance_enter charged_since_wipe_def list_ex_iff)

section \<open>The book of a client\<close>

definition book_of :: "('l, 's, 'u, 'd) rpc_client \<Rightarrow> account_book" where
  "book_of c = \<lparr>open_at = map_of (map (\<lambda>n. (node_name n, node_id n)) (all_nodes c)),
     balance = (\<lambda>i. if i < MAX_NODES then nodes_usage c ! i else 0)\<rparr>"

lemma open_at_iff:
  assumes "slots_ok (all_nodes c)"
  shows "open_at (book_of c) x = Some i \<longleftrightarrow> (\<exists>n \<in> set (all_nodes c). node_name n = x \<and> node_id n = i)"
  using assms by (force simp: book_of_def slots_ok_def map_of_eq_Some_iff comp_def)

lemma open_at_None: "open_at (book_of c) x = None \<longleftrightarrow> x \<notin> node_name ` set (all_nodes c)"
  by (auto simp: book_of_def map_of_eq_None_iff image_image)

lemma book_of_ok: "client_wf c \<Longrightarrow> book_ok (book_of c)"
proof -
  assume wf: "client_wf c"
  note slots = client_wf_slots [OF wf] and at = open_at_iff [OF client_wf_slots [OF wf]]
  have "x = y" if "open_at (book_of c) x = Some i" "open_at (book_of c) y = Some i" for x y i
    using that slots_ok_inj [OF slots] unfolding at by metis
  moreover have "i < MAX_NODES" if "open_at (book_of c) x = Some i" for x i
    using that slots unfolding at slots_ok_def by blast
  ultimately show ?thesis unfolding book_ok_def inj_on_def ran_def dom_def by auto
qed

text \<open>The spend of a name is the balance of its slot.\<close>

lemma spend_is_balance:
  assumes "client_wf c"
  shows "spend (all_nodes c) (nodes_usage c) x = map_option (balance (book_of c)) (open_at (book_of c) x)"
proof (cases "open_at (book_of c) x")
  case None
  then have "spend (all_nodes c) (nodes_usage c) x = None" unfolding open_at_None spend_None_iff .
  with None show ?thesis by simp
next
  case (Some i)
  with open_at_iff [OF client_wf_slots [OF assms]] obtain n where
    "n \<in> set (all_nodes c)" "node_name n = x" "node_id n = i" by blast
  with client_wf_slots [OF assms] Some show ?thesis
    by (auto simp: spend_Some_iff slots_ok_def book_of_def)
qed

lemma book_of_cong:
  assumes "map node_name (all_nodes c') = map node_name (all_nodes c)"
    and "map node_id (all_nodes c') = map node_id (all_nodes c)"
  shows "open_at (book_of c') = open_at (book_of c)"
proof -
  have "map (\<lambda>n. (node_name n, node_id n)) (all_nodes c') = map (\<lambda>n. (node_name n, node_id n)) (all_nodes c)"
    using assms by (auto simp: list_eq_iff_nth_eq)
  then show ?thesis by (simp add: book_of_def)
qed

lemma book_of_keeps:
  assumes "client_wf c" and "keeps (cells c) (cells c')" and "t_all (topo c') = t_all (topo c)"
  shows "open_at (book_of c') = open_at (book_of c)"
proof -
  have "same_config (cells c ! r) (cells c' ! r)" if "r \<in> set (t_all (topo c))" for r
    using assms(1,2) that by (simp add: client_wf_def topo_wf_def keeps_def)
  then show ?thesis using assms(3) by (intro book_of_cong) (auto simp: all_nodes_def same_config_def)
qed

lemma book_of_frame [simp]: "book_of (c\<lparr>custom_methods := r\<rparr>) = book_of c" "book_of (emit ops c) = book_of c"
  by (simp_all add: book_of_def all_nodes_def fun_eq_iff)

section \<open>One step is one entry\<close>

text \<open>Request number \<open>k\<close> starts an attempt on cell \<open>r\<close> in this step.\<close>

definition starts :: "('l, 's, 'u, 'd) system \<Rightarrow> ('l, 's, 'u, 'd) system \<Rightarrow> nat \<Rightarrow> nat \<Rightarrow> bool" where
  "starts s s' k r \<longleftrightarrow> length (inflight s') = length (inflight s) \<and> k < length (inflight s) \<and>
     holding (pc (rq_route (inflight s ! k))) = None \<and> holding (pc (rq_route (inflight s' ! k))) = Some r"

text \<open>
  What in the process an entry stands for. A charge is an attempt that starts, and no other entry comes
  with one; slots turn because the billing period of their node has moved on at some clock reading.
\<close>

definition caused ::
  "('l, 's, 'u, 'd, 'm) world \<Rightarrow> ('l, 's, 'u, 'd) system \<Rightarrow> ('l, 's, 'u, 'd) system \<Rightarrow> account_event \<Rightarrow> bool" where
  "caused w s s' ev \<longleftrightarrow>
     (case ev of
        Charged i price \<Rightarrow> \<exists>k r. starts s s' k r \<and> i = node_id (cells (client s) ! r) \<and>
          price = cost (method_costs (cells (client s) ! r)) (rq_method_id (inflight s ! k))
      | Turned S \<Rightarrow> (\<nexists>k r. starts s s' k r) \<and>
          (\<exists>now. S = node_id ` {n \<in> set (all_nodes (client s)).
             resets (w_cal w) (date_of (w_cal w) now) (periods (client s)) n})
      | Reopened opened fresh \<Rightarrow> (\<nexists>k r. starts s s' k r) \<and> opened = open_at (book_of (client s'))
      | Quiet \<Rightarrow> \<nexists>k r. starts s s' k r)"

lemma no_start:
  assumes "inflight s' = inflight s \<or> length (inflight s') \<noteq> length (inflight s)"
  shows "\<not> starts s s' k r"
  using assms by (auto simp: starts_def)

lemma route_step_entered:
  assumes wf: "client_wf c" and eff: "step_effect permits m st c st' c'" and inp: "in_place c c'"
  shows "book_of c' = (case holding (pc st') of None \<Rightarrow> book_of c
    | Some r \<Rightarrow> enter (Charged (node_id (cells c ! r)) (cost (method_costs (cells c ! r)) m)) (book_of c))"
proof -
  have "open_at (book_of c') = open_at (book_of c)"
    using eff inp by (intro book_of_keeps [OF wf]) (auto simp: step_effect_def evolves_def)
  moreover have "booked m st c st' c'" using eff by (simp add: step_effect_def)
  moreover have "length (nodes_usage c) = MAX_NODES" using client_wf_quota [OF wf] by (simp add: quota_ok_def)
  ultimately show ?thesis
    by (auto simp: booked_def Let_def book_of_def fun_eq_iff nth_list_update MAX_NODES_def split: option.splits)
qed

lemma rollover_entered:
  assumes wf: "client_wf c" and tick: "flusher_tick cal to_vec plan pid k now c fs = Some (c', out)"
    and S: "S = node_id ` {n \<in> set (all_nodes c). resets cal (date_of cal now) (periods c) n}"
  shows "permitted (book_of c) (Turned S) \<and> book_of c' = enter (Turned S) (book_of c)"
proof -
  obtain q ps ops where r: "roll_over_periods cal now c = Some (c\<lparr>nodes_usage := q, periods := ps\<rparr>)"
    and c': "c' = emit ops (c\<lparr>nodes_usage := q, periods := ps\<rparr>)"
    and on: "\<forall>n \<in> set (all_nodes c).
      q ! node_id n = (if resets cal (date_of cal now) (periods c) n then 0 else nodes_usage c ! node_id n)"
    and off: "\<forall>i. i \<notin> node_id ` set (all_nodes c) \<longrightarrow> q ! i = nodes_usage c ! i"
    using roll_over_periods_total [OF wf, of cal now] tick
    by (auto simp: flusher_tick_def publish_quota_gauges_def split: bind_splits)
  have "q ! i = (if i \<in> S then 0 else nodes_usage c ! i)" for i
  proof (cases "i \<in> node_id ` set (all_nodes c)")
    case True
    then obtain n where n: "n \<in> set (all_nodes c)" "node_id n = i" by blast
    have "i \<in> S \<longleftrightarrow> resets cal (date_of cal now) (periods c) n"
      using n slots_ok_inj [OF client_wf_slots [OF wf]] by (auto simp: S)
    with on n show ?thesis by auto
  qed (use off S in auto)
  moreover have "S \<subseteq> ran (open_at (book_of c))"
    using open_at_iff [OF client_wf_slots [OF wf]] by (fastforce simp: S ran_def)
  ultimately show ?thesis by (simp add: c' book_of_def fun_eq_iff all_nodes_def)
qed

lemma reload_entered:
  assumes wf: "client_wf c" and rl: "reload c new = (Inr (), c')" and wf': "client_wf c'"
    and opened: "opened = open_at (book_of c')"
    and fresh_iff: "fresh = {i. \<exists>x. opened x = Some i \<and> open_at (book_of c) x = None}"
  shows "permitted (book_of c) (Reopened opened fresh) \<and> book_of c' = enter (Reopened opened fresh) (book_of c)"
  using wf rl
proof (cases rule: reload_cases)
  case (published new' q')
  have all: "all_nodes c' = new'" and q': "nodes_usage c' = q'"
    using published(6) by (simp_all add: all_nodes_def Topology_new_def map_nth_append_new del: length_append)
  have at: "opened x = Some i \<longleftrightarrow> (\<exists>n \<in> set new'. node_name n = x \<and> node_id n = i)" for x i
    unfolding opened using open_at_iff [OF client_wf_slots [OF wf']] all by simp
  have "previous_of (all_nodes c) x = None \<longleftrightarrow> open_at (book_of c) x = None" for x
    unfolding open_at_None by (auto simp: previous_of_def map_of_eq_None_iff image_image)
  then have fresh: "fresh = fresh_slots (all_nodes c) new'"
    unfolding fresh_iff fresh_slots_def at by auto
  have assigned: "\<exists>m. assigned (all_nodes c) (nodes_usage c) q' m n" if "n \<in> set new'" for n
    using published(5) that by (metis in_set_conv_nth list_all2_conv_all_nth)
  have "q' ! i = (if i \<in> fresh then 0 else nodes_usage c ! i)" if "i < MAX_NODES" for i
    using published(7) that assigned
    by (fastforce simp: fresh fresh_slots_def assigned_def split: option.splits)
  moreover have "opened x = open_at (book_of c) x" if kept: "x \<in> dom opened" "x \<in> dom (open_at (book_of c))" for x
  proof -
    obtain n where n: "n \<in> set new'" "node_name n = x" "opened x = Some (node_id n)"
      using kept(1) at by blast
    obtain old where old: "old \<in> set (all_nodes c)" "node_name old = x" "open_at (book_of c) x = Some (node_id old)"
      using kept(2) open_at_iff [OF client_wf_slots [OF wf]] by blast
    then have "previous_of (all_nodes c) x = Some old"
      using client_wf_slots [OF wf] by (simp add: previous_of_iff slots_ok_def)
    with assigned [OF n(1)] n(2) have "node_id n = node_id old"
      by (auto simp: assigned_def split: option.splits)
    with n old show ?thesis by simp
  qed
  moreover have "inj_on opened (dom opened)" "ran opened \<subseteq> {..<MAX_NODES}"
    using book_of_ok [OF wf'] by (simp_all add: book_ok_def opened)
  ultimately show ?thesis
    by (simp add: fresh_iff [symmetric]) (simp add: book_of_def opened q' fun_eq_iff)
qed simp

abbreviation entry_of ::
  "('l, 's, 'u, 'd, 'm) world \<Rightarrow> ('l, 's, 'u, 'd) system \<Rightarrow> ('l, 's, 'u, 'd) system \<Rightarrow> account_event \<Rightarrow> bool" where
  "entry_of w s s' ev \<equiv> caused w s s' ev \<and> permitted (book_of (client s)) ev \<and>
     book_of (client s') = enter ev (book_of (client s))"

lemma quiet_entry:
  assumes "book_of (client s') = book_of (client s)"
    and "inflight s' = inflight s \<or> length (inflight s') \<noteq> length (inflight s)"
  shows "\<exists>ev. entry_of w s s' ev"
  using assms no_start [OF assms(2)] by (intro exI [of _ Quiet]) (simp add: caused_def)

lemma length_remove_nth: "i < length xs \<Longrightarrow> length (remove_nth i xs) \<noteq> length xs"
  by (simp add: remove_nth_def)

lemma advance_entered:
  assumes sem: "semaphore_ok (w_api w) permits" and acc: "accounts permits (client s) (inflight s) (caps s)"
    and i: "i < length (inflight s)" "rq = inflight s ! i"
    and step: "route_step (w_api w) (w_wire w) (w_epoch w) (rq_method_id rq) (rq_now_s rq) ev (rq_route rq, client s) = Some (st', c')"
    and s': "s' = s\<lparr>client := c', inflight := (inflight s)[i := rq\<lparr>rq_route := st'\<rparr>]\<rparr>"
  shows "\<exists>ev. entry_of w s s' ev"
proof -
  have wf: "client_wf (client s)" "route_wf (client s) (rq_route rq)" using acc i by (auto simp: accounts_def)
  note eff = route_step_effect [OF sem wf step]
  note book = route_step_entered [OF wf(1) eff route_step_in_place [OF step]]
  have started: "starts s s' k r \<longleftrightarrow> k = i \<and> holding (pc (rq_route rq)) = None \<and> holding (pc st') = Some r" for k r
    using i s' by (auto simp: starts_def nth_list_update)
  show ?thesis
  proof (cases "holding (pc st')")
    case None
    then show ?thesis using book started s' by (intro exI [of _ Quiet]) (simp add: caused_def)
  next
    case (Some r)
    have "booked (rq_method_id rq) (rq_route rq) (client s) st' c'" using eff by (simp add: step_effect_def)
    with Some have "holding (pc (rq_route rq)) = None" "node_id (cells (client s) ! r) < MAX_NODES"
      "cost (method_costs (cells (client s) ! r)) (rq_method_id rq) \<noteq> u32_MAX"
      by (simp_all add: booked_def Let_def MAX_NODES_def)
    with Some book started s' i(2) show ?thesis
      by (intro exI [of _ "Charged (node_id (cells (client s) ! r)) (cost (method_costs (cells (client s) ! r)) (rq_method_id rq))"])
        (simp add: caused_def)
  qed
qed

lemma reload_once_entered:
  assumes wf: "client_wf (client s)" and quiet: "inflight s' = inflight s" and c': "client s' = c'"
    and rl: "reload_once api env rs rp srv (client s) = (res, warned, c')"
  shows "\<exists>ev. entry_of w s s' ev"
  using wf rl
proof (cases rule: reload_once_cases)
  case (failed e r)
  then show ?thesis using quiet c' by (intro quiet_entry) simp_all
next
  case (published settings new r)
  let ?c = "client s\<lparr>custom_methods := r\<rparr>" and ?opened = "open_at (book_of c')"
  have wf': "client_wf ?c" "client_wf c'"
    using custom_methods_evolves [OF wf published(3)] reload_once_evolves [OF wf rl] by (simp_all add: evolves_def)
  from reload_entered [OF wf'(1) published(5) wf'(2) refl refl] no_start [of s' s] quiet c' show ?thesis
    unfolding book_of_frame by (intro exI) (auto simp: caused_def simp del: permitted.simps enter.simps)
qed

lemma sys_step_entered:
  assumes sem: "semaphore_ok (w_api w) permits" and acc: "accounts permits (client s) (inflight s) (caps s)"
    and step: "sys_step w s s'"
  shows "\<exists>ev. entry_of w s s' ev"
proof -
  have wf: "client_wf (client s)" using acc by (simp add: accounts_def)
  from step show ?thesis
  proof cases
    case (arrive started body)
    then show ?thesis by (intro quiet_entry) simp_all
  next
    case (advance i rq ev st' c')
    with sem acc show ?thesis by (intro advance_entered)
  next
    case (answer i res elapsed response c')
    then have "book_of c' = book_of (client s)" by (auto simp: send_end_def Let_def)
    with answer show ?thesis by (intro quiet_entry) (simp_all add: length_remove_nth)
  next
    case (hang_up i rq st' c')
    have wfr: "route_wf (client s) (rq_route rq)" using acc hang_up(2,3) by (auto simp: accounts_def)
    note eff = expire_effect [OF sem wf wfr awaits_cases [OF hang_up(4)] hang_up(5)]
    have "pc st' = Finished (Inl Timeout)" using hang_up(5) by (auto simp: expire_def)
    with route_step_entered [OF wf eff expire_in_place [OF hang_up(5)]] hang_up(1,2) show ?thesis
      by (intro quiet_entry) (simp_all add: length_remove_nth)
  next
    case (ranked at n c')
    then have "book_of c' = book_of (client s)" by (auto simp: rerank_def Let_def book_of_def all_nodes_def Topology_new_def split: prod.splits)
    with ranked show ?thesis by (intro quiet_entry) simp_all
  next
    case (flushed plan now c' states k)
    define S where "S = node_id ` {n \<in> set (all_nodes (client s)). resets (w_cal w) (date_of (w_cal w) now) (periods (client s)) n}"
    then have "caused w s s' (Turned S)" using flushed(1) no_start [of s' s] by (auto simp: caused_def)
    with rollover_entered [OF wf flushed(2) S_def] flushed(1) show ?thesis
      by (intro exI [of _ "Turned S"]) (simp del: permitted.simps enter.simps)
  next
    case (sighup env rs rp res warned c')
    then show ?thesis by (intro reload_once_entered [OF wf]) simp_all
  qed
qed

lemma startup_book_ok: "sys_init w s \<Longrightarrow> semaphore_ok (w_api w) permits \<Longrightarrow> book_ok (book_of (client s))"
  using reachable_accounts [OF _ reachable_init] by (auto simp: accounts_def intro: book_of_ok)

interpretation accounting: event_refinement "sys_init w" "\<lambda>s t. semaphore_ok (w_api w) permits \<and> sys_step w s t"
  "sys_inv w permits" "\<lambda>s. book_of (client s)" enter permitted "caused w" for w permits
proof
  fix s t :: "('a, 'b, 'c, 'd) system"
  assume "sys_inv w permits s" "semaphore_ok (w_api w) permits \<and> sys_step w s t"
  then show "sys_inv w permits t" using process.invar_step by blast
next
  fix s t :: "('a, 'b, 'c, 'd) system"
  assume "sys_inv w permits s" "semaphore_ok (w_api w) permits \<and> sys_step w s t"
  then show "\<exists>ev. caused w s t ev \<and> permitted (book_of (client s)) ev \<and>
      book_of (client t) = enter ev (book_of (client s))"
    using sys_step_entered by (auto simp: sys_inv_def)
qed (rule process.invar_init)

text \<open>What the book promises of itself holds of the process: no two published names ever share a slot.\<close>

lemma slots_owned_once:
  assumes sem: "semaphore_ok (w_api w) permits" and reach: "reachable (sys_init w) (sys_step w) s"
  shows "book_ok (book_of (client s))"
proof -
  have "(\<lambda>s t. semaphore_ok (w_api w) permits \<and> sys_step w s t) = sys_step w" using sem by (simp add: fun_eq_iff)
  with reach have "reachable (sys_init w) (\<lambda>s t. semaphore_ok (w_api w) permits \<and> sys_step w s t) s" by simp
  then show ?thesis
    by (rule accounting.abstract_invariant [where good = book_ok]) (simp_all add: startup_book_ok [OF _ sem] enter_ok)
qed

section \<open>Properties\<close>

text \<open>
  C3. The process refines the account book. Every step of every task - a request, a dropped connection, a
  ranking round, a flusher tick, a reload, whether it succeeds or fails - is exactly one entry of the
  book, one that the book permits: slots turn only when they belong to a published node whose billing
  period has moved on, a new node set leaves every surviving name on its slot with its balance and clears
  exactly the slots of new names, and a slot is charged exactly when a request starts an attempt, by
  the price of the request's method on the node it was admitted to.
\<close>

theorem process_refines_account_book:
  assumes "semaphore_ok (w_api w) permits" and "reachable (sys_init w) (sys_step w) s" and "sys_step w s s'"
  shows "\<exists>ev. caused w s s' ev \<and> permitted (book_of (client s)) ev \<and>
    book_of (client s') = enter ev (book_of (client s)) \<and>
    (\<forall>x. spend (all_nodes (client s)) (nodes_usage (client s)) x
       = map_option (balance (book_of (client s))) (open_at (book_of (client s)) x))"
  using sys_step_entered [OF assms(1) reachable_accounts [OF assms(1,2)] assms(3)]
    spend_is_balance reachable_accounts [OF assms(1,2)] by (auto simp: accounts_def)

theorem process_refines_account_book_witness:
  "\<exists>s s' ev. length (inflight s) = 1 \<and> sys_step demo_world s s' \<and> caused demo_world s s' ev \<and>
     book_of (client s') = enter ev (book_of (client s))"
proof -
  have sem: "semaphore_ok (w_api demo_world) id" by (simp add: demo_world_def)
  obtain s where s: "reachable (sys_init demo_world) (sys_step demo_world) s" "length (inflight s) = 1"
    using demo_process by blast
  from process_refines_account_book [OF sem s(1) arrive [of demo_world s 0 "[]"]] arrive [of demo_world s 0 "[]"] s(2)
  show ?thesis by blast
qed

text \<open>
  C4. The counter of a slot is the sum of the attempts made on it: over any execution of the process,
  with any number of requests, ticks and reloads in any order, a counter ends at the prices of
  the attempts that started on nodes of its slot since it was last set to zero, on top of what it held
  at the beginning when it was not set to zero in between (modulo 2 to the 64).
\<close>

theorem counter_is_sum_of_attempts:
  assumes "semaphore_ok (w_api w) permits" and "reachable (sys_init w) (sys_step w) s"
    and "(sys_step w)\<^sup>*\<^sup>* s t"
  shows "\<exists>evs. history (sys_step w) (caused w) s evs t \<and>
    list_all (\<lambda>i. nodes_usage (client t) ! i =
      (if list_ex (wipes i) evs then 0 else nodes_usage (client s) ! i) + charged_since_wipe i evs) [0..<MAX_NODES]"
proof -
  have inv: "sys_inv w permits s" using reachable_accounts [OF assms(1,2)] by (simp add: sys_inv_def)
  have step: "(\<lambda>s t. semaphore_ok (w_api w) permits \<and> sys_step w s t) = sys_step w" using assms(1) by (simp add: fun_eq_iff)
  obtain evs where evs: "history (sys_step w) (caused w) s evs t"
    "book_of (client t) = fold enter evs (book_of (client s))"
    using accounting.execution_refined [of w permits s t, unfolded step, OF assms(3) inv] by blast
  have "nodes_usage (client t) ! i =
      (if list_ex (wipes i) evs then 0 else nodes_usage (client s) ! i) + charged_since_wipe i evs" if "i < MAX_NODES" for i
    using that arg_cong [OF evs(2), of "\<lambda>b. balance b i"] unfolding balance_fold by (simp add: book_of_def split: if_splits)
  with evs(1) show ?thesis by (auto simp: list_all_iff)
qed

theorem counter_is_sum_of_attempts_witness:
  "\<exists>s t evs. length (inflight t) = Suc (length (inflight s)) \<and> history (sys_step demo_world) (caused demo_world) s evs t \<and>
     nodes_usage (client t) ! 0 =
       (if list_ex (wipes 0) evs then 0 else nodes_usage (client s) ! 0) + charged_since_wipe 0 evs"
proof -
  have sem: "semaphore_ok (w_api demo_world) id" by (simp add: demo_world_def)
  obtain s where s: "reachable (sys_init demo_world) (sys_step demo_world) s" using demo_process by blast
  obtain t where step: "sys_step demo_world s t" and t: "length (inflight t) = Suc (length (inflight s))"
    using arrive [of demo_world s 0 "[]"] by fastforce
  have "(sys_step demo_world)\<^sup>*\<^sup>* s t" using step by (rule r_into_rtranclp)
  moreover have "0 \<in> set [0..<MAX_NODES]" by (simp add: MAX_NODES_def)
  ultimately show ?thesis using counter_is_sum_of_attempts [OF sem s, of t] t unfolding list_all_iff by blast
qed

end
