(* ===== verification/Flusher_Race.thy ===== *)
theory Flusher_Race
  imports Ledger
begin

text \<open>
  One tick of the flusher (\<open>src/main.rs\<close>) at the granularity at which other threads see it: it loads the
  topology three times, and the rollover, the gauges and the snapshot then handle one node after the
  other while requests are billed and a reload publishes another node set. In \<open>System\<close> all of that is
  one step; alone, the steps below add up to it (\<^verbatim>\<open>tick_alone_is_one_step\<close>).

  Two ghost components say what the promises are about: \<open>kept\<close> is the names that were in every topology
  published since the last load, \<open>seen\<close> what a name had spent, and in which billing period it was,
  at the moment its entry was read.
\<close>

section \<open>The steps of a tick\<close>

text \<open>
  \<open>Rolling\<close> holds the whole node set that was loaded and the cells still to do, with the lock of the
  periods taken, and \<open>Reading\<close> the cells still to do and the entries read so far, also under the lock.
\<close>

datatype 'd flusher =
    Ticked
  | Rolling "nat list" "nat list"
  | Rolled
  | Gauging "nat list"
  | Gauged
  | Reading "nat list" "(string \<times> 'd node_usage) list"
  | Writing "'d usage_map"

record ('l, 's, 'u, 'd) tick =
  flusher :: "'d flusher"
  shared :: "('l, 's, 'u, 'd) rpc_client"
  kept :: "string set"
  seen :: "string \<rightharpoonup> u64 option \<times> 'd option"

definition published :: "('l, 's, 'u, 'd) rpc_client \<Rightarrow> string set" where
  "published c = node_name ` set (all_nodes c)"

text \<open>
  What the other tasks may do meanwhile: anything that keeps the invariant of the shared state, leaves
  the periods alone and a name that stays published on its slot.
\<close>

definition others_do :: "('l, 's, 'u, 'd) rpc_client \<Rightarrow> ('l, 's, 'u, 'd) rpc_client \<Rightarrow> bool" where
  "others_do c c' \<longleftrightarrow> evolves c c' \<and> periods c' = periods c \<and>
     (\<forall>x \<in> published c \<inter> published c'. open_at (book_of c') x = open_at (book_of c) x)"

inductive flusher_step ::
  "('d, 'm) calendar \<Rightarrow> system_time \<Rightarrow> ('l, 's, 'u, 'd) tick \<Rightarrow> ('l, 's, 'u, 'd) tick \<Rightarrow> bool"
  for cal :: "('d, 'm) calendar" and now :: system_time
where
  load_nodes: "flusher t = Ticked \<Longrightarrow> flusher_step cal now t
    (t\<lparr>flusher := Rolling (t_all (topo (shared t))) (t_all (topo (shared t))), kept := published (shared t)\<rparr>)"
| roll: "flusher t = Rolling view (r # rs) \<Longrightarrow>
    rollover_node cal (date_of cal now) (cells (shared t) ! r) (nodes_usage (shared t), periods (shared t)) = Some (q, ps) \<Longrightarrow>
    flusher_step cal now t (t\<lparr>flusher := Rolling view rs, shared := (shared t)\<lparr>nodes_usage := q, periods := ps\<rparr>\<rparr>)"
| retain: "flusher t = Rolling view [] \<Longrightarrow> flusher_step cal now t
    (t\<lparr>flusher := Rolled, shared := (shared t)\<lparr>periods := retain_names (map ((!) (cells (shared t))) view) (periods (shared t))\<rparr>\<rparr>)"
| load_gauges: "flusher t = Rolled \<Longrightarrow>
    flusher_step cal now t (t\<lparr>flusher := Gauging (t_all (topo (shared t))), kept := published (shared t)\<rparr>)"
| gauge: "flusher t = Gauging (r # rs) \<Longrightarrow> counter_get (nodes_usage (shared t)) (node_id (cells (shared t) ! r)) = Some u \<Longrightarrow>
    flusher_step cal now t (t\<lparr>flusher := Gauging rs, shared := emit (set_node_quota (node_name (cells (shared t) ! r)) u
      (spillover_threshold (cells (shared t) ! r))) (shared t)\<rparr>)"
| gauges_done: "flusher t = Gauging [] \<Longrightarrow> flusher_step cal now t (t\<lparr>flusher := Gauged\<rparr>)"
| load_snapshot: "flusher t = Gauged \<Longrightarrow> flusher_step cal now t
    (t\<lparr>flusher := Reading (t_all (topo (shared t))) [], kept := published (shared t), seen := (\<lambda>_. None)\<rparr>)"
| read: "flusher t = Reading (r # rs) es \<Longrightarrow> node = cells (shared t) ! r \<Longrightarrow>
    snapshot_entries [node] (nodes_usage (shared t)) (periods (shared t)) = Some e \<Longrightarrow>
    flusher_step cal now t (t\<lparr>flusher := Reading rs (es @ e),
      seen := (seen t)(node_name node \<mapsto> (spend (all_nodes (shared t)) (nodes_usage (shared t)) (node_name node),
        periods (shared t) (node_name node)))\<rparr>)"
| snapshot_done: "flusher t = Reading [] es \<Longrightarrow> flusher_step cal now t (t\<lparr>flusher := Writing (map_of (rev es))\<rparr>)"

text \<open>A tick among the other tasks.\<close>

inductive tick_step ::
  "('d, 'm) calendar \<Rightarrow> system_time \<Rightarrow> ('l, 's, 'u, 'd) tick \<Rightarrow> ('l, 's, 'u, 'd) tick \<Rightarrow> bool"
  for cal :: "('d, 'm) calendar" and now :: system_time
where
  own: "flusher_step cal now t t' \<Longrightarrow> tick_step cal now t t'"
| others: "others_do (shared t) c' \<Longrightarrow> tick_step cal now t (t\<lparr>shared := c', kept := kept t \<inter> published c'\<rparr>)"

inductive_cases flusher_stepE: "flusher_step cal now t t'"
inductive_cases tick_stepE: "tick_step cal now t t'"

definition tick_init :: "('l, 's, 'u, 'd) tick \<Rightarrow> bool" where
  "tick_init t \<longleftrightarrow> flusher t = Ticked \<and> client_wf (shared t) \<and> kept t = {}"

section \<open>The invariant of a tick\<close>

fun to_do :: "'d flusher \<Rightarrow> nat list" where
  "to_do (Rolling view rs) = rs"
| "to_do (Gauging rs) = rs"
| "to_do (Reading rs es) = rs"
| "to_do _ = []"

text \<open>
  A cell that is still to do exists, and when its name was published all along, the slot in the cell is
  the slot of the name.
\<close>

definition cells_ok :: "('l, 's, 'u, 'd) rpc_client \<Rightarrow> string set \<Rightarrow> nat list \<Rightarrow> bool" where
  "cells_ok c xs rs \<longleftrightarrow>
     (\<forall>r \<in> set rs. r < length (cells c) \<and>
        (node_name (cells c ! r) \<in> xs \<longrightarrow> open_at (book_of c) (node_name (cells c ! r)) = Some (node_id (cells c ! r))))"

definition entry_seen :: "u64 option \<times> 'd option \<Rightarrow> 'd node_usage option" where
  "entry_seen sp = (case sp of (Some v, Some d) \<Rightarrow> Some \<lparr>used = v, usage_period = d\<rparr> | _ \<Rightarrow> None)"

text \<open>A name that stayed published is still to be read, or its entry is what was seen then.\<close>

fun entries_ok :: "('l, 's, 'u, 'd) tick \<Rightarrow> 'd flusher \<Rightarrow> bool" where
  "entries_ok t (Reading rs es) \<longleftrightarrow>
     distinct (map (\<lambda>r. node_name (cells (shared t) ! r)) rs) \<and>
     (\<forall>r \<in> set rs. node_name (cells (shared t) ! r) \<notin> fst ` set es) \<and>
     (\<forall>x \<in> kept t. x \<in> (\<lambda>r. node_name (cells (shared t) ! r)) ` set rs \<or>
        (\<exists>sp. seen t x = Some sp \<and> map_of (rev es) x = entry_seen sp))"
| "entries_ok t (Writing m) \<longleftrightarrow> (\<forall>x \<in> kept t. \<exists>sp. seen t x = Some sp \<and> m x = entry_seen sp)"
| "entries_ok t _ \<longleftrightarrow> True"

definition tick_inv :: "('l, 's, 'u, 'd) tick \<Rightarrow> bool" where
  "tick_inv t \<longleftrightarrow> client_wf (shared t) \<and> kept t \<subseteq> published (shared t) \<and>
     cells_ok (shared t) (kept t) (to_do (flusher t)) \<and> entries_ok t (flusher t)"

lemma published_open: "x \<in> published c \<longleftrightarrow> open_at (book_of c) x \<noteq> None"
  using open_at_None [of c x] by (auto simp: published_def)

lemma cells_ok_all:
  assumes "client_wf c"
  shows "cells_ok c xs (t_all (topo c))"
  using assms open_at_iff [OF client_wf_slots [OF assms]]
  by (force simp: cells_ok_def client_wf_def topo_wf_def all_nodes_def)

lemma cells_ok_others:
  assumes ok: "cells_ok c xs rs" and do: "others_do c c'" and sub: "xs \<subseteq> published c"
  shows "cells_ok c' (xs \<inter> published c') rs"
  using assms
  by (fastforce simp: cells_ok_def others_do_def evolves_def keeps_def same_config_def)

lemma others_names:
  assumes "cells_ok c xs rs" and "others_do c c'" and "r \<in> set rs"
  shows "node_name (cells c' ! r) = node_name (cells c ! r)"
  using assms by (auto simp: cells_ok_def others_do_def evolves_def keeps_def same_config_def)

lemma others_inv:
  assumes inv: "tick_inv t" and do: "others_do (shared t) c'"
  shows "tick_inv (t\<lparr>shared := c', kept := kept t \<inter> published c'\<rparr>)"
proof -
  have c: "cells_ok (shared t) (kept t) (to_do (flusher t))" and sub: "kept t \<subseteq> published (shared t)"
    using inv by (simp_all add: tick_inv_def)
  have "entries_ok (t\<lparr>shared := c', kept := kept t \<inter> published c'\<rparr>) (flusher t)"
  proof (cases "flusher t")
    case (Reading rs es)
    have "\<And>r. r \<in> set rs \<Longrightarrow> node_name (cells c' ! r) = node_name (cells (shared t) ! r)"
      using others_names [OF c do] Reading by simp
    then show ?thesis using inv Reading by (auto simp: tick_inv_def cong: map_cong)
  qed (use inv in \<open>auto simp: tick_inv_def\<close>)
  with cells_ok_others [OF c do sub] do show ?thesis by (simp add: tick_inv_def others_do_def evolves_def)
qed

lemma published_usage [simp]:
  "published (c\<lparr>nodes_usage := q\<rparr>) = published c" "published (c\<lparr>periods := ps\<rparr>) = published c"
  "published (emit ops c) = published c"
  "open_at (book_of (c\<lparr>nodes_usage := q\<rparr>)) = open_at (book_of c)"
  "open_at (book_of (c\<lparr>periods := ps\<rparr>)) = open_at (book_of c)"
  by (simp_all add: published_def book_of_def all_nodes_def)

lemma rollover_node_quota: "rollover_node cal today n (q, ps) = Some (q', ps') \<Longrightarrow> quota_ok q \<Longrightarrow> quota_ok q'"
  by (auto simp: rollover_node_def split: option.splits if_splits dest: quota_ok_set)

lemma spend_of_open:
  assumes "client_wf c" and "open_at (book_of c) x = Some i"
  shows "spend (all_nodes c) (nodes_usage c) x = Some (nodes_usage c ! i)" and "i < MAX_NODES"
proof -
  show "i < MAX_NODES" using assms(2) book_of_ok [OF assms(1)] by (auto simp: book_ok_def ran_def)
  then show "spend (all_nodes c) (nodes_usage c) x = Some (nodes_usage c ! i)"
    using assms(2) spend_is_balance [OF assms(1), of x] by (simp add: book_of_def)
qed

text \<open>What one read adds, for a name that stayed published.\<close>

lemma entry_read:
  assumes wf: "client_wf c" and at: "open_at (book_of c) (node_name n) = Some (node_id n)"
    and e: "snapshot_entries [n] (nodes_usage c) (periods c) = Some e"
  shows "map_of (rev e) (node_name n) = entry_seen (spend (all_nodes c) (nodes_usage c) (node_name n), periods c (node_name n))"
  using e spend_of_open [OF wf at] client_wf_quota [OF wf]
  by (auto simp: entry_seen_def quota_simps quota_ok_def split: option.splits)

lemma entry_names: "snapshot_entries [n] q ps = Some e \<Longrightarrow> fst ` set e \<subseteq> {node_name n}"
  by (auto split: option.splits)

lemma read_inv:
  assumes inv: "tick_inv t" and f: "flusher t = Reading (r # rs) es" and node: "node = cells (shared t) ! r"
    and e: "snapshot_entries [node] (nodes_usage (shared t)) (periods (shared t)) = Some e"
  shows "tick_inv (t\<lparr>flusher := Reading rs (es @ e),
      seen := (seen t)(node_name node \<mapsto> (spend (all_nodes (shared t)) (nodes_usage (shared t)) (node_name node),
        periods (shared t) (node_name node)))\<rparr>)"
proof -
  let ?name = "\<lambda>r. node_name (cells (shared t) ! r)"
  have wf: "client_wf (shared t)" and c: "cells_ok (shared t) (kept t) (r # rs)"
    and d: "distinct (map ?name (r # rs))" and fresh: "\<forall>r \<in> set (r # rs). ?name r \<notin> fst ` set es"
    and handled: "\<And>x. x \<in> kept t \<Longrightarrow> x \<notin> ?name ` set (r # rs) \<Longrightarrow>
      \<exists>sp. seen t x = Some sp \<and> map_of (rev es) x = entry_seen sp"
    using inv f by (auto simp: tick_inv_def)
  have e': "fst ` set e \<subseteq> {node_name node}" by (rule entry_names [OF e])
  have "map_of (rev (es @ e)) x = map_of (rev es) x" if "x \<noteq> node_name node" for x
  proof -
    have "map_of (rev e) x = None" using e' that by (auto simp: map_of_eq_None_iff)
    then show ?thesis by (simp add: map_add_def)
  qed
  moreover have "map_of (rev (es @ e)) (node_name node)
      = entry_seen (spend (all_nodes (shared t)) (nodes_usage (shared t)) (node_name node), periods (shared t) (node_name node))"
    if "node_name node \<in> kept t"
  proof -
    have "open_at (book_of (shared t)) (node_name node) = Some (node_id node)"
      using c that node by (simp add: cells_ok_def)
    note entry = entry_read [OF wf this e]
    have "map_of (rev es) (node_name node) = None" using fresh node by (auto simp: map_of_eq_None_iff)
    then show ?thesis using entry by (simp add: map_add_def split: option.splits)
  qed
  moreover have "?name r' \<notin> fst ` set (es @ e)" if "r' \<in> set rs" for r'
  proof -
    have "?name r' \<noteq> node_name node" using d imageI [OF that, of ?name] node by auto
    with e' fresh that show ?thesis by auto
  qed
  ultimately show ?thesis
    using inv f c d handled node by (fastforce simp: tick_inv_def cells_ok_def)
qed

lemma flusher_inv:
  assumes inv: "tick_inv t" and step: "flusher_step cal now t t'"
  shows "tick_inv t'"
proof -
  have wf: "client_wf (shared t)" using inv by (simp add: tick_inv_def)
  note all = cells_ok_all [OF wf]
  from step show ?thesis
  proof cases
    case (roll view r rs q ps)
    then have "client_wf ((shared t)\<lparr>nodes_usage := q, periods := ps\<rparr>)"
      using rollover_node_quota [OF roll(3) client_wf_quota [OF wf]] wf by (simp add: client_wf_def)
    with inv roll show ?thesis by (simp add: tick_inv_def cells_ok_def)
  next
    case (retain view)
    with inv show ?thesis by (simp add: tick_inv_def client_wf_def cells_ok_def)
  next
    case (gauge r rs u)
    with inv show ?thesis by (simp add: tick_inv_def cells_ok_def)
  next
    case load_snapshot
    have "distinct (map (\<lambda>r. node_name (cells (shared t) ! r)) (t_all (topo (shared t))))"
      using client_wf_slots [OF wf] by (simp add: all_nodes_def slots_ok_def comp_def)
    with all inv load_snapshot show ?thesis by (auto simp: tick_inv_def published_def all_nodes_def)
  next
    case (read r rs es node e)
    with read_inv [OF inv read(2-4)] show ?thesis by simp
  next
    case (snapshot_done es)
    with inv show ?thesis by (simp add: tick_inv_def)
  qed (use all inv in \<open>auto simp: tick_inv_def cells_ok_def\<close>)
qed

interpretation ticking: invariant_machine tick_init "tick_step cal now" tick_inv for cal now
proof
  fix t :: "('a, 'b, 'c, 'd) tick"
  assume "tick_init t"
  then show "tick_inv t" by (simp add: tick_init_def tick_inv_def cells_ok_def)
next
  fix t t' :: "('a, 'b, 'c, 'd) tick"
  assume "tick_inv t" "tick_step cal now t t'"
  then show "tick_inv t'" by (auto elim: tick_stepE dest: flusher_inv others_inv)
qed

text \<open>A tick has a next step until its snapshot is complete: no index of it panics.\<close>

lemma tick_moves:
  assumes inv: "tick_inv t" and unfinished: "\<nexists>m. flusher t = Writing m"
  shows "\<exists>t'. flusher_step cal now t t'"
proof -
  have slot: "node_id (cells (shared t) ! r) < length (nodes_usage (shared t))" if "r \<in> set (to_do (flusher t))" for r
    using inv that by (auto simp: tick_inv_def cells_ok_def client_wf_def node_wf_def quota_ok_def)
  show ?thesis
  proof (cases "flusher t")
    case (Rolling view rs)
    show ?thesis
    proof (cases rs)
      case (Cons r rs')
      with Rolling slot have "node_id (cells (shared t) ! r) < length (nodes_usage (shared t))" by simp
      then have "\<exists>q ps. rollover_node cal (date_of cal now) (cells (shared t) ! r)
          (nodes_usage (shared t), periods (shared t)) = Some (q, ps)"
        by (simp add: rollover_node_eq)
      then obtain q ps where
        "rollover_node cal (date_of cal now) (cells (shared t) ! r) (nodes_usage (shared t), periods (shared t)) = Some (q, ps)"
        by blast
      with Rolling Cons show ?thesis by (blast intro: roll)
    qed (use Rolling in \<open>blast intro: retain\<close>)
  next
    case (Gauging rs)
    then show ?thesis using slot by (cases rs) (fastforce intro: gauge gauges_done simp: quota_simps)+
  next
    case (Reading rs es)
    show ?thesis
    proof (cases rs)
      case (Cons r rs')
      with Reading slot obtain e where
        "snapshot_entries [cells (shared t) ! r] (nodes_usage (shared t)) (periods (shared t)) = Some e"
        using snapshot_entries_eq [of "[cells (shared t) ! r]"] by auto
      with Reading Cons show ?thesis by (blast intro: read)
    qed (use Reading in \<open>blast intro: snapshot_done\<close>)
  qed (use unfinished in \<open>blast intro: load_nodes load_gauges load_snapshot\<close>)+
qed

section \<open>A tick that runs alone\<close>

lemma roll_steps:
  assumes "flusher t = Rolling view rs"
    and "rollover_loop cal (date_of cal now) (map ((!) (cells (shared t))) rs) (nodes_usage (shared t), periods (shared t)) = Some (q, ps)"
  shows "(flusher_step cal now)\<^sup>*\<^sup>* t (t\<lparr>flusher := Rolling view [], shared := (shared t)\<lparr>nodes_usage := q, periods := ps\<rparr>\<rparr>)"
  using assms
proof (induction rs arbitrary: t)
  case Nil
  then have "t\<lparr>flusher := Rolling view [], shared := (shared t)\<lparr>nodes_usage := q, periods := ps\<rparr>\<rparr> = t" by simp
  then show ?case by simp
next
  case (Cons r rs)
  then obtain q1 ps1 where
    n: "rollover_node cal (date_of cal now) (cells (shared t) ! r) (nodes_usage (shared t), periods (shared t)) = Some (q1, ps1)"
    and l: "rollover_loop cal (date_of cal now) (map ((!) (cells (shared t))) rs) (q1, ps1) = Some (q, ps)"
    by (auto split: option.splits)
  from converse_rtranclp_into_rtranclp [OF roll [OF Cons.prems(1) n] Cons.IH] l show ?case by simp
qed

lemma gauge_steps:
  assumes "flusher t = Gauging rs" and "quota_gauges (map ((!) (cells (shared t))) rs) (nodes_usage (shared t)) = Some ops"
  shows "(flusher_step cal now)\<^sup>*\<^sup>* t (t\<lparr>flusher := Gauging [], shared := emit ops (shared t)\<rparr>)"
  using assms
proof (induction rs arbitrary: t ops)
  case Nil
  then have "t\<lparr>flusher := Gauging [], shared := emit ops (shared t)\<rparr> = t" by (simp add: emit_def)
  then show ?case by simp
next
  case (Cons r rs)
  then obtain u ops' where u: "counter_get (nodes_usage (shared t)) (node_id (cells (shared t) ! r)) = Some u"
    and ops: "quota_gauges (map ((!) (cells (shared t))) rs) (nodes_usage (shared t)) = Some ops'"
      "ops = set_node_quota (node_name (cells (shared t) ! r)) u (spillover_threshold (cells (shared t) ! r)) @ ops'"
    by (auto split: option.splits)
  from converse_rtranclp_into_rtranclp [OF gauge [OF Cons.prems(1) u] Cons.IH] ops show ?case by (simp add: emit_def)
qed

lemma read_steps:
  assumes "flusher t = Reading rs es"
    and "snapshot_entries (map ((!) (cells (shared t))) rs) (nodes_usage (shared t)) (periods (shared t)) = Some e"
  shows "\<exists>sn. (flusher_step cal now)\<^sup>*\<^sup>* t (t\<lparr>flusher := Reading [] (es @ e), seen := sn\<rparr>)"
  using assms
proof (induction rs arbitrary: t es e)
  case Nil
  then have "t\<lparr>flusher := Reading [] (es @ e), seen := seen t\<rparr> = t" by simp
  then show ?case by (intro exI [of _ "seen t"]) simp
next
  case (Cons r rs)
  then obtain e1 e2 where e: "snapshot_entries [cells (shared t) ! r] (nodes_usage (shared t)) (periods (shared t)) = Some e1"
    "snapshot_entries (map ((!) (cells (shared t))) rs) (nodes_usage (shared t)) (periods (shared t)) = Some e2" "e = e1 @ e2"
    by (auto split: option.splits)
  obtain sn where step: "flusher_step cal now t (t\<lparr>flusher := Reading rs (es @ e1), seen := sn\<rparr>)"
    using read [OF Cons.prems(1) refl e(1)] by blast
  from Cons.IH [of "t\<lparr>flusher := Reading rs (es @ e1), seen := sn\<rparr>" "es @ e1" e2] e(2,3) obtain sn' where
    "(flusher_step cal now)\<^sup>*\<^sup>* (t\<lparr>flusher := Reading rs (es @ e1), seen := sn\<rparr>) (t\<lparr>flusher := Reading [] (es @ e), seen := sn'\<rparr>)"
    by auto
  with step show ?case by (meson converse_rtranclp_into_rtranclp)
qed

lemma rollover_alone:
  assumes "flusher t = Ticked" and "roll_over_periods cal now (shared t) = Some c'"
  shows "\<exists>t'. (flusher_step cal now)\<^sup>*\<^sup>* t t' \<and> flusher t' = Rolled \<and> shared t' = c'"
proof -
  let ?c = "shared t" and ?all = "t_all (topo (shared t))"
  obtain q ps where l: "rollover_loop cal (date_of cal now) (map ((!) (cells ?c)) ?all) (nodes_usage ?c, periods ?c) = Some (q, ps)"
    and c': "c' = ?c\<lparr>nodes_usage := q, periods := retain_names (map ((!) (cells ?c)) ?all) ps\<rparr>"
    using assms(2) by (auto simp: roll_over_periods_def rollover_if_new_period_def all_nodes_def split: option.splits)
  define t1 where "t1 = t\<lparr>flusher := Rolling ?all ?all, kept := published ?c\<rparr>"
  define t2 where "t2 = t1\<lparr>flusher := Rolling ?all [], shared := ?c\<lparr>nodes_usage := q, periods := ps\<rparr>\<rparr>"
  have "flusher_step cal now t t1" using load_nodes [OF assms(1)] by (simp add: t1_def)
  moreover have "(flusher_step cal now)\<^sup>*\<^sup>* t1 t2" using roll_steps [of t1 ?all ?all cal now q ps] l by (simp add: t1_def t2_def)
  moreover have "flusher_step cal now t2 (t2\<lparr>flusher := Rolled, shared := c'\<rparr>)"
    using retain [of t2 ?all cal now] by (simp add: t2_def t1_def c')
  ultimately have "(flusher_step cal now)\<^sup>*\<^sup>* t (t2\<lparr>flusher := Rolled, shared := c'\<rparr>)"
    by (meson converse_rtranclp_into_rtranclp rtranclp.rtrancl_into_rtrancl)
  then show ?thesis by fastforce
qed

lemma gauges_alone:
  assumes "flusher t = Rolled" and "publish_quota_gauges (shared t) = Some c'"
  shows "\<exists>t'. (flusher_step cal now)\<^sup>*\<^sup>* t t' \<and> flusher t' = Gauged \<and> shared t' = c'"
proof -
  let ?all = "t_all (topo (shared t))"
  obtain ops where ops: "quota_gauges (map ((!) (cells (shared t))) ?all) (nodes_usage (shared t)) = Some ops"
    and c': "c' = emit ops (shared t)"
    using assms(2) by (auto simp: publish_quota_gauges_def all_nodes_def)
  define t1 where "t1 = t\<lparr>flusher := Gauging ?all, kept := published (shared t)\<rparr>"
  define t2 where "t2 = t1\<lparr>flusher := Gauging [], shared := c'\<rparr>"
  have "flusher_step cal now t t1" using load_gauges [OF assms(1)] by (simp add: t1_def)
  moreover have "(flusher_step cal now)\<^sup>*\<^sup>* t1 t2" using gauge_steps [of t1 ?all ops cal now] ops c' by (simp add: t1_def t2_def)
  moreover have "flusher_step cal now t2 (t2\<lparr>flusher := Gauged\<rparr>)" using gauges_done [of t2] by (simp add: t2_def)
  ultimately have "(flusher_step cal now)\<^sup>*\<^sup>* t (t2\<lparr>flusher := Gauged\<rparr>)"
    by (meson converse_rtranclp_into_rtranclp rtranclp.rtrancl_into_rtrancl)
  then show ?thesis by (fastforce simp: t2_def)
qed

lemma snapshot_alone:
  assumes "flusher t = Gauged" and "snapshot (all_nodes (shared t)) (nodes_usage (shared t)) (periods (shared t)) = Some m"
  shows "\<exists>t'. (flusher_step cal now)\<^sup>*\<^sup>* t t' \<and> flusher t' = Writing m \<and> shared t' = shared t \<and>
    kept t' = published (shared t)"
proof -
  let ?all = "t_all (topo (shared t))"
  obtain e where e: "snapshot_entries (map ((!) (cells (shared t))) ?all) (nodes_usage (shared t)) (periods (shared t)) = Some e"
    and m: "m = map_of (rev e)"
    using assms(2) by (auto simp: snapshot_def all_nodes_def)
  define t1 where "t1 = t\<lparr>flusher := Reading ?all [], kept := published (shared t), seen := (\<lambda>_. None)\<rparr>"
  have "flusher_step cal now t t1" using load_snapshot [OF assms(1)] by (simp add: t1_def)
  moreover obtain t2 where "(flusher_step cal now)\<^sup>*\<^sup>* t1 t2" and t2: "flusher t2 = Reading [] e" "shared t2 = shared t"
    "kept t2 = published (shared t)"
    using read_steps [of t1 ?all "[]" e cal now] e by (fastforce simp: t1_def)
  moreover have "flusher_step cal now t2 (t2\<lparr>flusher := Writing m\<rparr>)" using snapshot_done [OF t2(1)] by (simp add: m)
  ultimately have "(flusher_step cal now)\<^sup>*\<^sup>* t (t2\<lparr>flusher := Writing m\<rparr>)"
    by (meson converse_rtranclp_into_rtranclp rtranclp.rtrancl_into_rtrancl)
  with t2(2,3) show ?thesis by fastforce
qed

lemma reachable_own:
  assumes "(flusher_step cal now)\<^sup>*\<^sup>* t t'" and "reachable tick_init (tick_step cal now) t"
  shows "reachable tick_init (tick_step cal now) t'"
  using assms by (induction rule: rtranclp_induct) (auto intro: reachable_step own)

text \<open>
  Why the promise is about names that stay published: a snapshot that was begun on the node set from
  before a reload writes under the name of a departed node what the node that got its slot has spent,
  and nothing under the name of that one.
\<close>

lemma stale_view_reads_heir:
  assumes wf: "client_wf c" and rl: "reload c new = (Inr (), c')" and r: "r \<in> set (t_all (topo c))"
    and heir: "heir \<in> set (all_nodes c')" "node_id heir = node_id (cells c ! r)"
      "node_name heir \<notin> published c"
    and d: "periods c (node_name (cells c ! r)) = Some d"
  shows "\<exists>m. snapshot (map ((!) (cells c')) (t_all (topo c))) (nodes_usage c') (periods c') = Some m \<and>
    m (node_name (cells c ! r)) = Some \<lparr>used = nodes_usage c' ! node_id heir, usage_period = d\<rparr> \<and>
    m (node_name heir) = None"
  using wf rl
proof (cases rule: reload_cases)
  case (published new' q')
  have view: "map ((!) (cells c')) (t_all (topo c)) = all_nodes c"
    using published(6) wf by (auto simp: all_nodes_def client_wf_def topo_wf_def nth_append)
  obtain m where m: "snapshot (all_nodes c) q' (periods c') = Some m"
    "\<forall>n \<in> set (all_nodes c). m (node_name n) =
       map_option (\<lambda>d. \<lparr>used = q' ! node_id n, usage_period = d\<rparr>) (periods c' (node_name n))"
    "\<forall>x. x \<notin> node_name ` set (all_nodes c) \<longrightarrow> m x = None"
    using snapshot_eq [OF client_wf_slots [OF wf] published(2)] by blast
  have "cells c ! r \<in> set (all_nodes c)" using r by (simp add: all_nodes_def)
  with m heir d published(6) show ?thesis unfolding view by (auto simp: published_def)
qed simp

section \<open>What the other tasks do\<close>

text \<open>Every step of the process that is not a tick is one that a tick tolerates.\<close>

lemma sys_step_others:
  assumes sem: "semaphore_ok (w_api w) permits" and acc: "accounts permits (client s) (inflight s) (caps s)"
    and step: "sys_step w s s'"
  obtains (tick) plan now states k where "flusher_tick (w_cal w) (w_to_vec w) plan (w_pid w) (write_counter s) now (client s) (disk s)
      = Some (client s', states, k)"
  | (others) "others_do (client s) (client s')"
proof -
  have ev: "evolves (client s) (client s')" by (rule sys_step_evolves [OF sem acc step])
  obtain e where e: "permitted (book_of (client s)) e" "book_of (client s') = enter e (book_of (client s))"
    using sys_step_entered [OF sem acc step] by blast
  have slots: "\<forall>x \<in> published (client s) \<inter> published (client s'). open_at (book_of (client s')) x = open_at (book_of (client s)) x"
    using e by (cases e) (auto simp: published_open)
  have "(\<exists>plan now states k. flusher_tick (w_cal w) (w_to_vec w) plan (w_pid w) (write_counter s) now (client s) (disk s)
      = Some (client s', states, k)) \<or> periods (client s') = periods (client s)"
    using step
  proof cases
    case (advance i rq ev st' c')
    then show ?thesis using route_step_in_place [OF advance(4)] by simp
  next
    case (hang_up i rq st' c')
    then show ?thesis using expire_in_place [OF hang_up(5)] by simp
  next
    case (sighup env rs rp res warned c')
    have wf: "client_wf (client s)" using acc by (simp add: accounts_def)
    have "periods c' = periods (client s)"
      using sighup(2) by (auto simp: reload_once_def reload_def Let_def split: sum.splits prod.splits)
    with sighup show ?thesis by simp
  qed (auto simp: send_end_def rerank_def Let_def split: prod.splits)
  with ev slots tick others show ?thesis by (auto simp: others_do_def)
qed

section \<open>A concrete tick\<close>

definition fresh_client :: "(nat, nat, string, gdate) rpc_client" where
  "fresh_client = \<lparr>cells = [demo_node], topo = \<lparr>t_all = [0], t_ranked = [0]\<rparr>,
     nodes_usage = GlobalQuotaState_default, periods = (\<lambda>_. None),
     custom_methods = CustomMethods_default, emitted = []\<rparr>"

definition fresh_tick :: "(nat, nat, string, gdate) tick" where
  "fresh_tick = \<lparr>flusher = Ticked, shared = fresh_client, kept = {}, seen = (\<lambda>_. None)\<rparr>"

lemma fresh_client_wf: "client_wf fresh_client"
  by (simp add: fresh_client_def client_wf_def topo_wf_def node_wf_def slots_ok_def demo_node_def
      MAX_NODES_def registry_ok_def CustomMethods_default_def)

lemma fresh_tick_runs:
  "\<exists>t :: (nat, nat, string, gdate) tick. reachable tick_init (tick_step demo_cal 0) t \<and> (\<exists>m. flusher t = Writing m) \<and> kept t = {''a''}"
proof -
  have init: "reachable tick_init (tick_step demo_cal 0) fresh_tick"
    by (intro reachable_init) (simp add: tick_init_def fresh_tick_def fresh_client_wf)
  obtain q ps where r: "roll_over_periods demo_cal 0 fresh_client = Some (fresh_client\<lparr>nodes_usage := q, periods := ps\<rparr>)" "quota_ok q"
    using roll_over_periods_total [OF fresh_client_wf, of demo_cal 0] by blast
  let ?c1 = "fresh_client\<lparr>nodes_usage := q, periods := ps\<rparr>"
  have wf1: "client_wf ?c1" using usage_update_evolves [OF fresh_client_wf r(2)] by (simp add: evolves_def)
  obtain ops where g: "publish_quota_gauges ?c1 = Some (emit ops ?c1)" using publish_quota_gauges_total [OF wf1] by blast
  obtain m where m: "snapshot (all_nodes ?c1) q ps = Some m"
    using snapshot_eq [OF client_wf_slots [OF wf1] r(2)] by blast
  have m': "snapshot (all_nodes (emit ops ?c1)) (nodes_usage (emit ops ?c1)) (periods (emit ops ?c1)) = Some m"
    using m by (simp add: all_nodes_def)
  obtain t1 where t1: "(flusher_step demo_cal 0)\<^sup>*\<^sup>* fresh_tick t1" "flusher t1 = Rolled" "shared t1 = ?c1"
    using rollover_alone [of fresh_tick demo_cal 0] r(1) by (auto simp: fresh_tick_def)
  obtain t2 where t2: "(flusher_step demo_cal 0)\<^sup>*\<^sup>* t1 t2" "flusher t2 = Gauged" "shared t2 = emit ops ?c1"
    using gauges_alone [OF t1(2)] t1(3) g by metis
  obtain t3 where t3: "(flusher_step demo_cal 0)\<^sup>*\<^sup>* t2 t3" "flusher t3 = Writing m" "kept t3 = published (emit ops ?c1)"
    using snapshot_alone [OF t2(2), of m demo_cal 0, unfolded t2(3), OF m'] by blast
  have "published (emit ops ?c1) = {''a''}" by (simp add: published_def fresh_client_def all_nodes_def demo_node_def)
  with t3 reachable_own [OF t3(1) reachable_own [OF t2(1) reachable_own [OF t1(1) init]]] show ?thesis by metis
qed

section \<open>Properties\<close>

text \<open>
  C13. A tick of the flusher is right about every node that stays published, however it is interleaved.
  In every state of it among requests and reloads, the shared state keeps its invariant and the tick
  has a next step until its snapshot is complete; the counter that the rollover is about to zero and the
  one the snapshot is about to read are those of the node they are meant for, when that node was in every
  node set published since the tick last loaded one; and the finished snapshot gives every node that was in
  all the node sets published since the snapshot began exactly what it had spent, and in which period, when
  its entry was read. Nothing of the kind holds for a node that a reload removes meanwhile: its slot may have
  gone to another node, whose counter is then the one that is zeroed or read (\<open>stale_view_reads_heir\<close>).
\<close>

theorem tick_right_for_survivors:
  assumes "reachable tick_init (tick_step cal now) t"
  shows "client_wf (shared t) \<and>
    (case flusher t of
       Writing m \<Rightarrow> \<forall>x. x \<in> kept t \<longrightarrow> (\<exists>sp. seen t x = Some sp \<and> m x = entry_seen sp)
     | _ \<Rightarrow> (\<exists>t'. flusher_step cal now t t') \<and>
         list_all (\<lambda>r. r < length (cells (shared t)) \<and> (node_name (cells (shared t) ! r) \<in> kept t \<longrightarrow>
           spend (all_nodes (shared t)) (nodes_usage (shared t)) (node_name (cells (shared t) ! r))
             = Some (nodes_usage (shared t) ! node_id (cells (shared t) ! r)))) (to_do (flusher t)))"
proof -
  have inv: "tick_inv t" by (rule ticking.invar_reachable [OF assms])
  then have wf: "client_wf (shared t)" by (simp add: tick_inv_def)
  have own: "list_all (\<lambda>r. r < length (cells (shared t)) \<and> (node_name (cells (shared t) ! r) \<in> kept t \<longrightarrow>
      spend (all_nodes (shared t)) (nodes_usage (shared t)) (node_name (cells (shared t) ! r))
        = Some (nodes_usage (shared t) ! node_id (cells (shared t) ! r)))) (to_do (flusher t))"
    using inv spend_of_open [OF wf] by (simp add: tick_inv_def cells_ok_def list_all_iff)
  show ?thesis
  proof (cases "\<exists>m. flusher t = Writing m")
    case True
    with wf inv show ?thesis by (auto simp: tick_inv_def)
  next
    case False
    with wf own tick_moves [OF inv False] show ?thesis by (cases "flusher t") auto
  qed
qed

theorem tick_right_for_survivors_witness:
  "\<exists>(t :: (nat, nat, string, gdate) tick) m sp. reachable tick_init (tick_step demo_cal 0) t \<and> flusher t = Writing m \<and> kept t = {''a''} \<and>
     seen t ''a'' = Some sp \<and> m ''a'' = entry_seen sp"
proof -
  obtain t :: "(nat, nat, string, gdate) tick" and m where t: "reachable tick_init (tick_step demo_cal 0) t" "flusher t = Writing m" "kept t = {''a''}"
    using fresh_tick_runs by blast
  note right = tick_right_for_survivors [OF t(1), unfolded t(2,3) flusher.case]
  then have "''a'' \<in> {''a''} \<longrightarrow> (\<exists>sp. seen t ''a'' = Some sp \<and> m ''a'' = entry_seen sp)" by blast
  then obtain sp where "seen t ''a'' = Some sp" "m ''a'' = entry_seen sp" by blast
  with t show ?thesis by (intro exI conjI)
qed

text \<open>
  Alone, the tick is the step that \<open>System\<close> takes: when no other task comes in between, its steps end
  in exactly the shared state and with exactly the snapshot of \<open>flusher_tick\<close>.
\<close>

lemma tick_alone_is_one_step:
  assumes "flusher_tick cal to_vec plan pid k now (shared t) fs = Some (c', out)" and "flusher t = Ticked"
  shows "\<exists>t' m. (flusher_step cal now)\<^sup>*\<^sup>* t t' \<and> flusher t' = Writing m \<and> shared t' = c' \<and>
    flush to_vec plan pid k m fs = out"
proof -
  obtain c1 m where r: "roll_over_periods cal now (shared t) = Some c1" and g: "publish_quota_gauges c1 = Some c'"
    and m: "snapshot (all_nodes c') (nodes_usage c') (periods c') = Some m" "flush to_vec plan pid k m fs = out"
    using assms(1) by (auto simp: flusher_tick_def flush_usage_def split: bind_splits)
  obtain t1 where t1: "(flusher_step cal now)\<^sup>*\<^sup>* t t1" "flusher t1 = Rolled" "shared t1 = c1"
    using rollover_alone [OF assms(2) r] by blast
  obtain t2 where t2: "(flusher_step cal now)\<^sup>*\<^sup>* t1 t2" "flusher t2 = Gauged" "shared t2 = c'"
    using gauges_alone [of t1] t1 g by blast
  obtain t3 where "(flusher_step cal now)\<^sup>*\<^sup>* t2 t3" "flusher t3 = Writing m" "shared t3 = c'"
    using snapshot_alone [of t2] t2 m by blast
  moreover from this(1) have "(flusher_step cal now)\<^sup>*\<^sup>* t t3" using t1(1) t2(1) by (meson rtranclp_trans)
  ultimately show ?thesis using m(2) by blast
qed

end
