(* ===== verification/Lifecycle.thy ===== *)
theory Lifecycle
  imports Flusher_Race
begin

text \<open>
  The life of the process around the tasks of \<open>System\<close> (\<open>src/server.rs\<close>, the tail of \<open>main\<close> in
  \<open>src/main.rs\<close>): the routes of the HTTP surface, the signals that end it, the drain of the requests in
  flight, and the flush at the very end, as one step; a periodic flush that is half way through its write
  then is the subject of \<open>Shutdown_Race\<close>. The matching of a path and method against a route table is
  the documented behaviour of axum: 404 for a path it does not know, 405 for a known path with another
  method, and a \<open>get\<close> route also answers \<open>HEAD\<close>.
\<close>

section \<open>The HTTP surface\<close>

datatype http_method = GET | HEAD | POST | OtherMethod string

datatype endpoint = HealthEndpoint | SendEndpoint | MetricsEndpoint

definition app_routes :: "bool \<Rightarrow> (string \<times> http_method \<times> endpoint) list" where
  "app_routes metrics_handle =
     [(''/health'', GET, HealthEndpoint), (''/send-request'', POST, SendEndpoint)]
     @ (if metrics_handle then [(''/metrics'', GET, MetricsEndpoint)] else [])"

definition accepts :: "http_method \<Rightarrow> http_method \<Rightarrow> bool" where
  "accepts declared method \<longleftrightarrow> method = declared \<or> declared = GET \<and> method = HEAD"

definition match_route :: "(string \<times> http_method \<times> endpoint) list \<Rightarrow> string \<Rightarrow> http_method \<Rightarrow> u16 + endpoint" where
  "match_route table path method =
     (case filter (\<lambda>(p, _, _). p = path) table of
        [] \<Rightarrow> Inl 404
      | matching \<Rightarrow>
          (case find (\<lambda>(_, declared, _). accepts declared method) matching of
             Some (_, _, e) \<Rightarrow> Inr e
           | None \<Rightarrow> Inl 405))"

section \<open>Signals\<close>

text \<open>A signal handler: whether it could be installed, and when its first signal arrives, if ever.\<close>

record signal_source =
  install_ok :: bool
  arrival :: "instant option"

text \<open>A handler that could not be installed is pending for ever.\<close>

definition handler_done :: "signal_source \<Rightarrow> instant option" where
  "handler_done src = (if install_ok src then arrival src else None)"

text \<open>\<open>select!\<close> over the two handlers: when it completes, if ever.\<close>

definition shutdown_signal :: "signal_source \<Rightarrow> signal_source \<Rightarrow> instant option" where
  "shutdown_signal ctrl_c terminate =
     (case (handler_done ctrl_c, handler_done terminate) of
        (Some a, Some b) \<Rightarrow> Some (min a b)
      | (Some a, None) \<Rightarrow> Some a
      | (None, b) \<Rightarrow> b)"

section \<open>Serving, draining, exiting\<close>

datatype server_error = BindFailed | ServeFailed

datatype phase = Binding | Serving | Draining | Exited "server_error + unit"

text \<open>
  The flush after \<open>init_server\<close> has returned, as one step: what it leaves when no periodic write is
  under way. The flusher is not stopped before it, so one may be; \<open>Shutdown_Race\<close> takes both writes call
  by call.
\<close>

definition final_flush ::
  "('l, 's, 'u, 'd, 'm) world \<Rightarrow> io_plan \<Rightarrow> ('l, 's, 'u, 'd) system \<Rightarrow> ('l, 's, 'u, 'd) system option" where
  "final_flush w plan s =
     map_option (\<lambda>(states, k). s\<lparr>disk := last states, write_counter := k\<rparr>)
       (flush_usage (w_to_vec w) plan (w_pid w) (write_counter s) (client s) (disk s))"

text \<open>
  Before the listener is bound and while the server drains, no request arrives and everything else
  goes on; the graceful shutdown of axum waits for the requests in flight. An error of the listener or of the server leaves \<open>main\<close> before the flush.
\<close>

inductive life_step ::
  "('l, 's, 'u, 'd, 'm) world \<Rightarrow> signal_source \<Rightarrow> signal_source
     \<Rightarrow> ('l, 's, 'u, 'd) system \<times> phase \<Rightarrow> ('l, 's, 'u, 'd) system \<times> phase \<Rightarrow> bool"
  for w :: "('l, 's, 'u, 'd, 'm) world" and ctrl_c :: signal_source and terminate :: signal_source
where
  start_up: "sys_step w s s' \<Longrightarrow> length (inflight s') \<le> length (inflight s) \<Longrightarrow>
    life_step w ctrl_c terminate (s, Binding) (s', Binding)"
| bound: "life_step w ctrl_c terminate (s, Binding) (s, Serving)"
| unbound: "life_step w ctrl_c terminate (s, Binding) (s, Exited (Inl BindFailed))"
| serve: "sys_step w s s' \<Longrightarrow> life_step w ctrl_c terminate (s, Serving) (s', Serving)"
| signalled: "shutdown_signal ctrl_c terminate \<noteq> None \<Longrightarrow> life_step w ctrl_c terminate (s, Serving) (s, Draining)"
| drain: "sys_step w s s' \<Longrightarrow> length (inflight s') \<le> length (inflight s) \<Longrightarrow>
    life_step w ctrl_c terminate (s, Draining) (s', Draining)"
| exit: "inflight s = [] \<Longrightarrow> final_flush w plan s = Some s' \<Longrightarrow>
    life_step w ctrl_c terminate (s, Draining) (s', Exited (Inr ()))"
| broken: "life_step w ctrl_c terminate (s, Serving) (s, Exited (Inl ServeFailed))"

definition life_init :: "('l, 's, 'u, 'd, 'm) world \<Rightarrow> ('l, 's, 'u, 'd) system \<times> phase \<Rightarrow> bool" where
  "life_init w x \<longleftrightarrow> sys_init w (fst x) \<and> snd x = Binding"

inductive_cases life_stepE: "life_step w ctrl_c terminate x y"

text \<open>Until it exits, what the process does is what \<open>System\<close> does.\<close>

lemma life_system:
  assumes "reachable (life_init w) (life_step w ctrl_c terminate) x" and "\<nexists>r. snd x = Exited r"
  shows "reachable (sys_init w) (sys_step w) (fst x)"
  using assms
proof (induction rule: reachable.induct)
  case (reachable_init x)
  then show ?case by (auto simp: life_init_def intro: reachable.reachable_init)
next
  case (reachable_step x y)
  from reachable_step(2,4) reachable_step.IH show ?case
    by (auto elim!: life_stepE intro: reachable.reachable_step)
qed

lemma exited_is_final: "\<not> life_step w ctrl_c terminate (s, Exited r) y"
  by (auto elim: life_stepE)

lemma draining_needs_signal:
  assumes "reachable (life_init w) (life_step w ctrl_c terminate) x" and "snd x = Draining \<or> snd x = Exited (Inr ())"
  shows "shutdown_signal ctrl_c terminate \<noteq> None"
  using assms by (induction rule: reachable.induct) (auto simp: life_init_def elim!: life_stepE)

lemma shutdown_signal_pending:
  "shutdown_signal ctrl_c terminate = None \<longleftrightarrow> handler_done ctrl_c = None \<and> handler_done terminate = None"
  by (auto simp: shutdown_signal_def split: option.splits)

text \<open>What a snapshot holds, name by name.\<close>

lemma snapshot_entries_seen:
  assumes "client_wf c"
  shows "snapshot (all_nodes c) (nodes_usage c) (periods c) =
    Some (\<lambda>x. entry_seen (spend (all_nodes c) (nodes_usage c) x, periods c x))"
proof -
  obtain m where m: "snapshot (all_nodes c) (nodes_usage c) (periods c) = Some m"
    "\<forall>n \<in> set (all_nodes c). m (node_name n) =
       map_option (\<lambda>d. \<lparr>used = nodes_usage c ! node_id n, usage_period = d\<rparr>) (periods c (node_name n))"
    "\<forall>x. x \<notin> node_name ` set (all_nodes c) \<longrightarrow> m x = None"
    using snapshot_eq [OF client_wf_slots [OF assms] client_wf_quota [OF assms], of "periods c"] by blast
  have "m x = entry_seen (spend (all_nodes c) (nodes_usage c) x, periods c x)" for x
  proof (cases "open_at (book_of c) x")
    case None
    then have "x \<notin> node_name ` set (all_nodes c)" using open_at_None [of c x] by blast
    then show ?thesis using m(3) by (simp add: spend_None_iff [THEN iffD2] entry_seen_def)
  next
    case (Some i)
    then obtain n where "n \<in> set (all_nodes c)" "node_name n = x" "node_id n = i"
      using open_at_iff [OF client_wf_slots [OF assms]] by blast
    with m(2) spend_of_open(1) [OF assms Some] show ?thesis by (auto simp: entry_seen_def split: option.splits)
  qed
  with m(1) show ?thesis by (simp add: fun_eq_iff)
qed

lemma final_flush_restored:
  assumes wf: "client_wf (client s)" and flush: "final_flush w plan s = Some s'" and plan: "renames plan"
    and serde: "\<And>m. snapshot (all_nodes (client s)) (nodes_usage (client s)) (periods (client s)) = Some m \<Longrightarrow>
      serde_roundtrip (w_to_vec w) (w_from_str w) m"
  shows "restore (w_from_str w) True (disk s') =
      Inr (\<lambda>x. entry_seen (spend (all_nodes (client s)) (nodes_usage (client s)) x, periods (client s) x))"
    and "client s' = client s" and "caps s' = caps s"
proof -
  note m = snapshot_entries_seen [OF wf]
  from flush m obtain states k where f: "flush (w_to_vec w) plan (w_pid w) (write_counter s)
      (\<lambda>x. entry_seen (spend (all_nodes (client s)) (nodes_usage (client s)) x, periods (client s) x)) (disk s) = (states, k)"
    and s': "s' = s\<lparr>disk := last states, write_counter := k\<rparr>"
    by (auto simp: final_flush_def flush_usage_def split: prod.splits)
  show "client s' = client s" "caps s' = caps s" by (simp_all add: s')
  show "restore (w_from_str w) True (disk s') =
      Inr (\<lambda>x. entry_seen (spend (all_nodes (client s)) (nodes_usage (client s)) x, periods (client s) x))"
    using flush_restore [OF serde [OF m] plan f] by (simp add: s')
qed

section \<open>A concrete shutdown\<close>

definition pressed :: signal_source where
  "pressed = \<lparr>install_ok = True, arrival = Some 5\<rparr>"

definition uninstalled :: signal_source where
  "uninstalled = \<lparr>install_ok = False, arrival = None\<rparr>"

lemma demo_drained:
  "\<exists>(w :: (nat, nat, string, gdate, gmonth) world) s s'. w_api w = demo_api \<and> w_cal w = demo_cal \<and>
     reachable (life_init w) (life_step w pressed uninstalled) (s, Draining) \<and> inflight s = [] \<and>
     final_flush w good_plan s = Some s' \<and> renames good_plan \<and>
     (\<forall>m. snapshot (all_nodes (client s)) (nodes_usage (client s)) (periods (client s)) = Some m \<longrightarrow>
        serde_roundtrip (w_to_vec w) (w_from_str w) m)"
proof -
  let ?env = "[''CONFIG_PATH'' \<mapsto> ''c'']" and ?fs = "\<lambda>_ :: string. None :: bytes option"
  obtain srv c where st: "startup demo_api demo_cal (\<lambda>_. None) ?env (\<lambda>_. Some demo_raw)
     (\<lambda>_. Some demo_provider) True True True ?fs 0 = Inr (srv, c)" using demo_startup by blast
  define from_str where "from_str = (\<lambda>_ :: string. snapshot (all_nodes c) (nodes_usage c) (periods c))"
  define w where "w = demo_world\<lparr>w_to_vec := (\<lambda>_. Some ''{}''), w_from_str := from_str\<rparr>"
  define s where "s = \<lparr>client = c, inflight = [], disk = ?fs, write_counter = 0, startup_server = srv, caps = [2]\<rparr>"
  have "startup demo_api demo_cal from_str ?env (\<lambda>_. Some demo_raw) (\<lambda>_. Some demo_provider) True True True ?fs 0 = Inr (srv, c)"
  proof -
    have "restore from_str True ?fs = restore (\<lambda>_. None) True ?fs" by (simp add: restore_def)
    with st show ?thesis by (simp only: startup_def)
  qed
  moreover have "\<exists>config. Settings_load ?env (\<lambda>_. Some demo_raw) = Inr config \<and> [2] = map cn_max_concurrent (nodes config)"
    by (simp add: demo_settings_load)
  ultimately have "sys_init w s" unfolding sys_init_def s_def w_def demo_world_def by fastforce
  then have "reachable (life_init w) (life_step w pressed uninstalled) (s, Binding)"
    by (intro reachable_init) (simp add: life_init_def)
  from reachable_step [OF reachable_step [OF this bound] signalled]
  have r: "reachable (life_init w) (life_step w pressed uninstalled) (s, Draining)"
    by (simp add: shutdown_signal_def handler_done_def pressed_def uninstalled_def)
  have sem: "semaphore_ok (w_api w) id" by (simp add: w_def demo_world_def)
  have "client_wf c" using reachable_accounts [OF sem, of s] life_system [OF r] by (simp add: s_def accounts_def)
  then obtain s' where f: "final_flush w good_plan s = Some s'"
    using flush_usage_total by (fastforce simp: final_flush_def s_def)
  have "serde_roundtrip (w_to_vec w) (w_from_str w) m"
    if "snapshot (all_nodes (client s)) (nodes_usage (client s)) (periods (client s)) = Some m" for m
    using that by (simp add: w_def s_def from_str_def serde_roundtrip_def)
  moreover have "w_api w = demo_api" "w_cal w = demo_cal" "inflight s = []" "renames good_plan"
    by (simp_all add: w_def demo_world_def s_def renames_def good_plan_def)
  ultimately show ?thesis using r f by blast
qed

section \<open>Properties\<close>

text \<open>
  C17. A graceful shutdown loses no spend: it starts only when an installed handler got its signal, it
  ends only when no request is left in flight, at a state in which every permit of every node is back,
  and the flush that follows writes the counter of every node that has a billing period as it will ever
  be in this process, so that the next start reads exactly that. (A periodic flush that is half way
  through its own write at that moment is the subject of \<open>Shutdown_Race\<close>.)
\<close>

theorem shutdown_persists_spend:
  assumes "semaphore_ok (w_api w) permits"
    and "reachable (life_init w) (life_step w ctrl_c terminate) (s, Draining)"
    and "inflight s = []" and "final_flush w plan s = Some s'" and "renames plan"
    and "\<And>m. snapshot (all_nodes (client s)) (nodes_usage (client s)) (periods (client s)) = Some m \<Longrightarrow>
      serde_roundtrip (w_to_vec w) (w_from_str w) m"
  shows "restore (w_from_str w) True (disk s') =
      Inr (\<lambda>x. entry_seen (spend (all_nodes (client s')) (nodes_usage (client s')) x, periods (client s') x))
    \<and> client s' = client s
    \<and> list_all (\<lambda>r. free_permits permits (client s') r = caps s' ! r) [0..<length (cells (client s'))]
    \<and> (handler_done ctrl_c \<noteq> None \<or> handler_done terminate \<noteq> None)"
proof -
  have acc: "accounts permits (client s) (inflight s) (caps s)"
    using reachable_accounts [OF assms(1)] life_system [OF assms(2)] by simp
  then have wf: "client_wf (client s)" by (simp add: accounts_def)
  note stored = final_flush_restored [OF wf assms(4-6)]
  have "\<forall>r < length (cells (client s)). free_permits permits (client s) r = caps s ! r"
    using acc assms(3) by (simp add: accounts_def)
  moreover have "handler_done ctrl_c \<noteq> None \<or> handler_done terminate \<noteq> None"
    using draining_needs_signal [OF assms(2)] shutdown_signal_pending by auto
  ultimately show ?thesis using stored by (auto simp: list_all_iff)
qed

theorem shutdown_persists_spend_witness:
  "\<exists>(w :: (nat, nat, string, gdate, gmonth) world) s s'. final_flush w good_plan s = Some s' \<and> client s' = client s \<and>
     restore (w_from_str w) True (disk s') =
       Inr (\<lambda>x. entry_seen (spend (all_nodes (client s')) (nodes_usage (client s')) x, periods (client s') x))"
proof -
  obtain w :: "(nat, nat, string, gdate, gmonth) world" and s s' where
    d: "w_api w = demo_api" "reachable (life_init w) (life_step w pressed uninstalled) (s, Draining)"
      "inflight s = []" "final_flush w good_plan s = Some s'" "renames good_plan"
      "\<forall>m. snapshot (all_nodes (client s)) (nodes_usage (client s)) (periods (client s)) = Some m \<longrightarrow>
        serde_roundtrip (w_to_vec w) (w_from_str w) m" using demo_drained by blast
  have sem: "semaphore_ok (w_api w) id" by (simp add: d(1))
  have serde: "serde_roundtrip (w_to_vec w) (w_from_str w) m"
    if "snapshot (all_nodes (client s)) (nodes_usage (client s)) (periods (client s)) = Some m" for m
    using d(6) that by blast
  show ?thesis
    by (intro exI [of _ w] exI [of _ s] exI [of _ s'] conjI d(4)) (use shutdown_persists_spend [OF sem d(2-5) serde] in simp_all)
qed

text \<open>
  C8. What a node has spent carries over to the next process. When a process that was shut down gracefully,
  whose last flush got its rename through while no periodic one was under way, is started again on the file
  it left, with whatever configuration, clock and order of nodes: every node of the new process whose name
  the old one had published with a billing period on record starts from exactly what that name had spent, if
  that period is the one of today (or a later one, under a clock that went back), and from zero in today's
  period otherwise; every other node starts from zero, also one that the old process had published and
  billed but not rolled over yet.
\<close>

theorem spend_carries_to_next_process:
  assumes "semaphore_ok (w_api w) permits"
    and "reachable (life_init w) (life_step w ctrl_c terminate) (s, Draining)"
    and "final_flush w plan s = Some s'" and "renames plan"
    and "\<And>m. snapshot (all_nodes (client s)) (nodes_usage (client s)) (periods (client s)) = Some m \<Longrightarrow>
      serde_roundtrip (w_to_vec w) (w_from_str w) m"
    and "calendar_ok (w_cal w) num years" and "year (w_cal w) (date_of (w_cal w) now) - 1 \<in> years"
    and "startup (w_api w) (w_cal w) (w_from_str w) env rs rp rec_ok True http_ok (disk s') now = Inr (srv, c2)"
  shows "client_wf c2 \<and> (\<forall>n \<in> set (all_nodes c2). \<exists>start.
    period_start (w_cal w) (date_of (w_cal w) now) (reset_day n) = Some start \<and>
    (nodes_usage c2 ! node_id n, periods c2 (node_name n)) =
      (case starts_from (w_cal w) start (entry_seen (spend (all_nodes (client s)) (nodes_usage (client s)) (node_name n),
          periods (client s) (node_name n))) of (u, d) \<Rightarrow> (u, Some d)))"
proof -
  have "accounts permits (client s) (inflight s) (caps s)"
    using reachable_accounts [OF assms(1)] life_system [OF assms(2)] by simp
  then have "client_wf (client s)" by (simp add: accounts_def)
  then have stored: "restore (w_from_str w) True (disk s') =
      Inr (\<lambda>x. entry_seen (spend (all_nodes (client s)) (nodes_usage (client s)) x, periods (client s) x))"
    using assms(3-5) by (rule final_flush_restored(1))
  from startup_ready [OF assms(6-8)] show ?thesis unfolding stored by simp
qed

theorem spend_carries_to_next_process_witness:
  "\<exists>(w :: (nat, nat, string, gdate, gmonth) world) s s' srv c2 start. final_flush w good_plan s = Some s' \<and>
     startup demo_api demo_cal (w_from_str w) [''CONFIG_PATH'' \<mapsto> ''c''] (\<lambda>_. Some demo_raw) (\<lambda>_. Some demo_provider)
       True True True (disk s') 0 = Inr (srv, c2) \<and> length (all_nodes c2) = 1 \<and>
     nodes_usage c2 ! node_id (hd (all_nodes c2)) = fst (starts_from demo_cal start
       (entry_seen (spend (all_nodes (client s)) (nodes_usage (client s)) ''a'', periods (client s) ''a'')))"
proof -
  obtain w :: "(nat, nat, string, gdate, gmonth) world" and s s' where
    d: "w_api w = demo_api" "w_cal w = demo_cal" "reachable (life_init w) (life_step w pressed uninstalled) (s, Draining)"
      "final_flush w good_plan s = Some s'" "renames good_plan"
      "\<forall>m. snapshot (all_nodes (client s)) (nodes_usage (client s)) (periods (client s)) = Some m \<longrightarrow>
        serde_roundtrip (w_to_vec w) (w_from_str w) m" using demo_drained by blast
  have sem: "semaphore_ok (w_api w) id" by (simp add: d(1))
  have wf: "client_wf (client s)"
    using reachable_accounts [OF sem] life_system [OF d(3)] by (simp add: accounts_def)
  have serde: "serde_roundtrip (w_to_vec w) (w_from_str w) m"
    if "snapshot (all_nodes (client s)) (nodes_usage (client s)) (periods (client s)) = Some m" for m
    using d(6) that by blast
  have restored: "restore (w_from_str w) True (disk s') =
      Inr (\<lambda>x. entry_seen (spend (all_nodes (client s)) (nodes_usage (client s)) x, periods (client s) x))"
    by (rule final_flush_restored(1) [OF wf d(4,5) serde])
  obtain srv c2 where st: "startup demo_api demo_cal (w_from_str w) [''CONFIG_PATH'' \<mapsto> ''c''] (\<lambda>_. Some demo_raw)
      (\<lambda>_. Some demo_provider) True True True (disk s') 0 = Inr (srv, c2)" and n: "map node_name (all_nodes c2) = [''a'']"
    using demo_startup_on [OF restored] by (elim exE conjE) (rule that)
  have "calendar_ok (w_cal w) gnum UNIV" unfolding d(2) demo_cal_def by (rule gregorian_ok)
  from spend_carries_to_next_process [OF sem d(3-5) serde this UNIV_I, unfolded d(1,2), OF _ st] n
  have "\<exists>start. nodes_usage c2 ! node_id (hd (all_nodes c2)) = fst (starts_from demo_cal start
       (entry_seen (spend (all_nodes (client s)) (nodes_usage (client s)) ''a'', periods (client s) ''a'')))"
    by (cases "all_nodes c2") (auto dest: arg_cong [where f = fst] simp: case_prod_unfold)
  moreover have "length (all_nodes c2) = 1" using arg_cong [OF n, of length] by simp
  ultimately show ?thesis using st d(4) by blast
qed

end
