(* ===== verification/Mock_Node.thy ===== *)
theory Mock_Node
  imports Lifecycle
begin

text \<open>
  The mock upstreams of the load tests (\<open>src/bin/mock_node.rs\<close>): six servers with one fixed answer each,
  given after a fixed latency. What the balancer makes of them is proved against the model of an attempt
  and of the ranking: every answer is forwarded and measured, and after one answer each the nodes rank in
  the order of the table. That the fixed body parses as an answer without an error is a hypothesis on the
  JSON parser.
\<close>

section \<open>The servers\<close>

definition OK_BODY :: bytes where
  \<open>OK_BODY = ''{"jsonrpc":"2.0","result":"ok","id":1}''\<close>

record node_state =
  latency :: duration

text \<open>The answer and the moment it is sent, counted from the arrival of the request.\<close>

definition handle_rpc :: "node_state \<Rightarrow> duration \<times> response" where
  "handle_rpc state = (latency state, \<lparr>resp_status = 200, resp_retry_after = None, resp_body = Some OK_BODY\<rparr>)"

definition mock_health :: bytes where
  \<open>mock_health = ''{"status":"up"}''\<close>

datatype mock_endpoint = RpcEndpoint | MockHealthEndpoint

definition mock_routes :: "(string \<times> http_method \<times> mock_endpoint) list" where
  "mock_routes = [(''/'', POST, RpcEndpoint), (''/health'', GET, MockHealthEndpoint)]"

text \<open>A listener that cannot be bound is a panic, the value \<^const>\<open>None\<close>.\<close>

definition run_node :: "(u16 \<Rightarrow> bool) \<Rightarrow> string \<times> u16 \<times> nat \<Rightarrow> (string \<times> u16 \<times> node_state) option" where
  "run_node bind_ok entry = (case entry of (name, p, latency_ms) \<Rightarrow>
     if bind_ok p then Some (name, p, \<lparr>latency = latency_ms * 10 ^ 6\<rparr>) else None)"

definition mock_nodes :: "(string \<times> u16 \<times> nat) list" where
  "mock_nodes =
     [(''Helius-1'', 8891, 3), (''Helius-2'', 8892, 5), (''Alchemy-1'', 8893, 7),
      (''Alchemy-2'', 8894, 9), (''Triton-1'', 8895, 12), (''public-mirror'', 8896, 20)]"

text \<open>\<open>main\<close> awaits every server and panics with the first one that did.\<close>

definition mock_main :: "(u16 \<Rightarrow> bool) \<Rightarrow> (string \<times> u16 \<times> node_state) list option" where
  "mock_main bind_ok = those (map (run_node bind_ok) mock_nodes)"

text \<open>\<open>wait_for_signal\<close> unwraps: a handler that cannot be installed panics, here \<^const>\<open>None\<close>.\<close>

definition wait_for_signal :: "signal_source \<Rightarrow> signal_source \<Rightarrow> instant option option" where
  "wait_for_signal ctrl_c terminate =
     (if install_ok ctrl_c \<and> install_ok terminate then Some (shutdown_signal ctrl_c terminate) else None)"

section \<open>What the balancer makes of them\<close>

definition parses_ok :: "wire_api \<Rightarrow> bool" where
  "parses_ok wire \<longleftrightarrow> is_success wire 200 \<and> from_slice_error wire OK_BODY = Some \<lparr>error_field = None\<rparr>"

lemma mock_answer_served:
  assumes "parses_ok wire" and "handle_rpc state = (elapsed, resp)"
  shows "attempt wire EPOCH at elapsed node (Some resp) =
    (Done 200 OK_BODY, record_attempt (metrics node) Success elapsed, observe_answer elapsed node)"
proof -
  have "length OK_BODY \<le> VALIDATE_BELOW" by (simp add: OK_BODY_def VALIDATE_BELOW_def)
  with assms show ?thesis
    by (auto simp: handle_rpc_def parses_ok_def attempt_def classify_response_def Let_def is_final_status_def
        TOO_MANY_REQUESTS_def)
qed

lemma mock_latency_measured:
  assumes "ema_us node = UNMEASURED" and "(name, p, ms) \<in> set mock_nodes"
  shows "ema_us (observe_answer (ms * 10 ^ 6) node) = of_nat (ms * 1000)"
proof -
  have "ms \<le> 20" using assms(2) by (auto simp: mock_nodes_def)
  then have "ms * 10 ^ 6 div 1000 = ms * 1000" "ms * 1000 < 2 ^ 32" by simp_all
  with assms(1) show ?thesis by (simp add: next_ema_def sample_us_def u32_try_from_def)
qed

text \<open>One answer each, on nodes that were not measured before.\<close>

definition warmed_up :: "('l, 's, 'u) rpc_node list \<Rightarrow> ('l, 's, 'u) rpc_node list" where
  "warmed_up ns = map2 (\<lambda>n (_, _, ms). observe_answer (ms * 10 ^ 6) n) ns mock_nodes"

lemma mock_nodes_rank_in_table_order:
  assumes "length ns = 6" and "list_all (\<lambda>n. ema_us n = UNMEASURED \<and> tier n = t) ns"
  shows "rank (warmed_up ns) [0..<6] = [0..<6]"
proof -
  obtain a b c d e f where ns: "ns = [a, b, c, d, e, f]"
    using assms(1) by (auto simp: numeral_eq_Suc length_Suc_conv)
  have o: "rank_key h r = (t, of_nat (ms * 1000))"
    if "h ! r = observe_answer (ms * 10 ^ 6) n" "n \<in> set ns" "(name, p, ms) \<in> set mock_nodes" for h r n name p ms
  proof -
    have "ema_us n = UNMEASURED" "tier n = t" using assms(2) that(2) by (simp_all add: list_all_iff)
    with mock_latency_measured [OF _ that(3), of n] that(1) show ?thesis
      by (simp add: rank_key_def observe_answer_def Let_def)
  qed
  have "[0..<6] = [0, 1, 2, 3, 4, 5 :: nat]" by code_simp
  moreover have "map (rank_key (warmed_up ns)) [0, 1, 2, 3, 4, 5] = [(t, 3000), (t, 5000), (t, 7000), (t, 9000), (t, 12000), (t, 20000)]"
    using o [of "warmed_up ns" 0 3 a "''Helius-1''" 8891] o [of "warmed_up ns" 1 5 b "''Helius-2''" 8892]
      o [of "warmed_up ns" 2 7 c "''Alchemy-1''" 8893] o [of "warmed_up ns" 3 9 d "''Alchemy-2''" 8894]
      o [of "warmed_up ns" 4 12 e "''Triton-1''" 8895] o [of "warmed_up ns" 5 20 f "''public-mirror''" 8896]
    by (simp add: ns warmed_up_def mock_nodes_def)
  ultimately have "sorted (map (rank_key (warmed_up ns)) [0..<6])" by (simp add: less_eq_prod_def)
  then show ?thesis unfolding rank_def by (rule sort_key_id_if_sorted)
qed

end
