(* ===== verification/File_System.thy ===== *)
theory File_System
  imports Persistence
begin

text \<open>
  The file system under the usage file, for what \<open>src/quotas/persistence.rs\<close> asks of it when several
  writers meet or the machine stops. It has inodes, so that a file handle goes on writing to its file
  whatever happens to the name, and it may crash: a content survives once it has been synced, and the
  directory comes back as it was at some moment since it was last synced.
\<close>

section \<open>A file system that can crash\<close>

type_synonym directory = "string \<Rightarrow> nat option"

record fsys =
  dir :: directory
  older :: "directory list"
  contents :: "nat \<Rightarrow> bytes"
  durable :: "nat \<Rightarrow> bool"
  next_inode :: nat

definition relink :: "directory \<Rightarrow> fsys \<Rightarrow> fsys" where
  "relink d fs = fs\<lparr>dir := d, older := dir fs # older fs\<rparr>"

definition set_contents :: "nat \<Rightarrow> bytes \<Rightarrow> fsys \<Rightarrow> fsys" where
  "set_contents i bs fs = fs\<lparr>contents := (contents fs)(i := bs), durable := (durable fs)(i := False)\<rparr>"

text \<open>\<open>File::create\<close> truncates a file that exists.\<close>

definition create_file :: "string \<Rightarrow> fsys \<Rightarrow> nat \<times> fsys" where
  "create_file name fs =
     (case dir fs name of
        Some i \<Rightarrow> (i, set_contents i [] fs)
      | None \<Rightarrow>
          let i = next_inode fs
          in (i, relink ((dir fs)(name \<mapsto> i)) (set_contents i [] fs\<lparr>next_inode := Suc i\<rparr>)))"

text \<open>A write at the offset of the handle; a gap is filled with zeros.\<close>

definition pwrite :: "nat \<Rightarrow> bytes \<Rightarrow> bytes \<Rightarrow> bytes" where
  "pwrite n chunk bs = take n bs @ replicate (n - length bs) (CHR 0x00) @ chunk @ drop (n + length chunk) bs"

definition live :: "fsys \<Rightarrow> files" where
  "live fs = (\<lambda>name. map_option (contents fs) (dir fs name))"

text \<open>
  What is found after a crash, given the directory that came back and what the blocks of the files
  that were never synced happen to hold.
\<close>

definition crash_dirs :: "fsys \<Rightarrow> directory list" where
  "crash_dirs fs = dir fs # older fs"

definition crash_view :: "fsys \<Rightarrow> directory \<Rightarrow> (nat \<Rightarrow> bytes) \<Rightarrow> files" where
  "crash_view fs d junk = (\<lambda>name. map_option (\<lambda>i. if durable fs i then contents fs i else junk i) (d name))"

text \<open>A view is what a reader finds now, or what is found after a crash now.\<close>

definition is_view :: "fsys \<Rightarrow> files \<Rightarrow> bool" where
  "is_view fs view \<longleftrightarrow> view = live fs \<or> (\<exists>d junk. d \<in> set (crash_dirs fs) \<and> view = crash_view fs d junk)"

section \<open>Sound directories\<close>

text \<open>
  The directory is sound: no two names share an inode, and the usage file, when there is one, is on
  the disk.
\<close>

definition linked_once :: "fsys \<Rightarrow> bool" where
  "linked_once fs \<longleftrightarrow>
     (\<forall>n m i. dir fs n = Some i \<and> dir fs m = Some i \<longrightarrow> n = m) \<and> (\<forall>n i. dir fs n = Some i \<longrightarrow> i < next_inode fs)"

definition settled :: "fsys \<Rightarrow> bool" where
  "settled fs \<longleftrightarrow> linked_once fs \<and> older fs = [] \<and> (\<forall>i. dir fs FINAL_PATH = Some i \<longrightarrow> durable fs i)"

definition empty_fs :: fsys where
  "empty_fs = \<lparr>dir = (\<lambda>_. None), older = [], contents = (\<lambda>_. []), durable = (\<lambda>_. False), next_inode = 0\<rparr>"

lemma settled_empty: "settled empty_fs"
  by (simp add: settled_def linked_once_def empty_fs_def)

lemma live_upd:
  assumes "linked_once fs" and "dir fs name = Some i"
  shows "live (set_contents i bs fs) = (live fs)(name \<mapsto> bs)"
proof
  fix n
  show "live (set_contents i bs fs) n = ((live fs)(name \<mapsto> bs)) n"
    using assms by (cases "dir fs n") (auto simp: live_def set_contents_def linked_once_def)
qed

lemma live_simps [simp]:
  "live (fs\<lparr>durable := x\<rparr>) = live fs" "live (fs\<lparr>older := y\<rparr>) = live fs" "live (fs\<lparr>next_inode := z\<rparr>) = live fs"
  "live (relink ((dir fs)(name := None)) fs) = (live fs)(name := None)"
  by (auto simp: live_def relink_def)

lemma live_move:
  "dir fs name = Some i \<Longrightarrow>
     live (relink ((dir fs)(name := None, FINAL_PATH \<mapsto> i)) fs) = (live fs)(name := None, FINAL_PATH \<mapsto> contents fs i)"
  by (auto simp: live_def relink_def fun_eq_iff)

lemma create_file_live:
  assumes "linked_once fs" and "create_file name fs = (i, fs')"
  shows "linked_once fs' \<and> dir fs' name = Some i \<and> contents fs' i = [] \<and> live fs' = (live fs)(name \<mapsto> [])"
proof (cases "dir fs name")
  case None
  have fs': "i = next_inode fs" "fs' = relink ((dir fs)(name \<mapsto> i)) (set_contents i [] fs\<lparr>next_inode := Suc i\<rparr>)"
    using None assms(2) by (auto simp: create_file_def Let_def)
  have "live fs' n = ((live fs)(name \<mapsto> [])) n" for n
    using assms(1) by (cases "dir fs n") (auto simp: fs' relink_def set_contents_def live_def linked_once_def)
  moreover have "linked_once fs'"
    using assms(1) None by (auto simp: fs' relink_def set_contents_def linked_once_def intro: less_SucI)
  ultimately show ?thesis by (auto simp: fs' relink_def set_contents_def)
next
  case (Some j)
  with assms live_upd [OF assms(1) Some, of "[]"] show ?thesis
    by (auto simp: create_file_def set_contents_def linked_once_def)
qed

lemma pwrite_take:
  "n \<le> length data \<Longrightarrow> pwrite n (take k (drop n data)) (take n data) = take (n + length (take k (drop n data))) data"
  by (simp add: pwrite_def min_def take_add [symmetric])

end
