(* ===== verification/Writer.thy ===== *)
theory Writer
  imports File_System
begin

text \<open>
  One writer of the usage file (\<open>write_atomic_async\<close> and \<open>write_then_rename\<close> in
  \<open>src/quotas/persistence.rs\<close>) as a machine that makes one system call at a time. Whatever the calls
  answer it returns, and alone in its directory it goes through exactly the states that \<open>Persistence\<close>
  lists for a write. The file of tokio hands bytes on in the background; they are in the file when
  \<open>sync_all\<close> returns, which is all the rest depends on, so a write takes effect here when it is called.
\<close>

section \<open>One writer\<close>

datatype stage = Create | Write nat nat | Rename nat | SyncDir | Clean | Returned bool

record writer =
  temp :: string
  payload :: bytes
  stage :: stage

text \<open>The answer to a system call: a failure, or success with the number of bytes written.\<close>

datatype answer = Failed | Done nat

definition start :: "nat \<times> u64 \<times> bytes \<Rightarrow> writer" where
  "start job = (case job of (pid, counter, data) \<Rightarrow>
     \<lparr>temp = temp_name pid (unat counter), payload = data, stage = Create\<rparr>)"

definition writer_step :: "answer \<Rightarrow> writer \<Rightarrow> fsys \<Rightarrow> (writer \<times> fsys) option" where
  "writer_step a w fs =
     (case stage w of
        Create \<Rightarrow>
          Some (case a of
            Failed \<Rightarrow> (w\<lparr>stage := Clean\<rparr>, fs)
          | Done _ \<Rightarrow> (case create_file (temp w) fs of (i, fs') \<Rightarrow> (w\<lparr>stage := Write i 0\<rparr>, fs')))
      | Write i n \<Rightarrow>
          Some (case a of
            Failed \<Rightarrow> (w\<lparr>stage := Clean\<rparr>, fs)
          | Done k \<Rightarrow>
              if n < length (payload w) then
                (if k = 0 then (w\<lparr>stage := Clean\<rparr>, fs)
                 else let chunk = take k (drop n (payload w))
                      in (w\<lparr>stage := Write i (n + length chunk)\<rparr>,
                          set_contents i (pwrite n chunk (contents fs i)) fs))
              else (w\<lparr>stage := Rename i\<rparr>, fs\<lparr>durable := (durable fs)(i := True)\<rparr>))
      | Rename i \<Rightarrow>
          Some (case (a, dir fs (temp w)) of
            (Done _, Some j) \<Rightarrow>
              (w\<lparr>stage := SyncDir\<rparr>, relink ((dir fs)(temp w := None, FINAL_PATH \<mapsto> j)) fs)
          | _ \<Rightarrow> (w\<lparr>stage := Clean\<rparr>, fs))
      | SyncDir \<Rightarrow>
          Some (case a of
            Failed \<Rightarrow> (w\<lparr>stage := Clean\<rparr>, fs)
          | Done _ \<Rightarrow> (w\<lparr>stage := Returned True\<rparr>, fs\<lparr>older := []\<rparr>))
      | Clean \<Rightarrow>
          Some (w\<lparr>stage := Returned False\<rparr>,
            if a \<noteq> Failed \<and> dir fs (temp w) \<noteq> None then relink ((dir fs)(temp w := None)) fs else fs)
      | Returned _ \<Rightarrow> None)"

lemma start_temp [simp]: "temp (start (p, c, d)) = temp_name p (unat c)" "payload (start (p, c, d)) = d"
  "stage (start (p, c, d)) = Create"
  by (simp_all add: start_def)

lemma writer_step_cases [consumes 1, case_names quiet reused fresh wrote synced moved dir_synced removed]:
  assumes "writer_step a w fs = Some (w', fs')"
  obtains st where "fs' = fs" "w' = w\<lparr>stage := st\<rparr>" "st = Clean \<or> st = Returned False"
  | i where "stage w = Create" "dir fs (temp w) = Some i" "fs' = set_contents i [] fs" "w' = w\<lparr>stage := Write i 0\<rparr>"
  | i where "stage w = Create" "dir fs (temp w) = None" "i = next_inode fs" "w' = w\<lparr>stage := Write i 0\<rparr>"
      "fs' = relink ((dir fs)(temp w \<mapsto> i)) (set_contents i [] fs\<lparr>next_inode := Suc i\<rparr>)"
  | i n k chunk where "stage w = Write i n" "n < length (payload w)" "chunk = take k (drop n (payload w))"
      "fs' = set_contents i (pwrite n chunk (contents fs i)) fs" "w' = w\<lparr>stage := Write i (n + length chunk)\<rparr>"
  | i n where "stage w = Write i n" "\<not> n < length (payload w)" "w' = w\<lparr>stage := Rename i\<rparr>"
      "fs' = fs\<lparr>durable := (durable fs)(i := True)\<rparr>"
  | i j where "stage w = Rename i" "dir fs (temp w) = Some j" "w' = w\<lparr>stage := SyncDir\<rparr>"
      "fs' = relink ((dir fs)(temp w := None, FINAL_PATH \<mapsto> j)) fs"
  | "stage w = SyncDir" "w' = w\<lparr>stage := Returned True\<rparr>" "fs' = fs\<lparr>older := []\<rparr>"
  | "stage w = Clean" "w' = w\<lparr>stage := Returned False\<rparr>" "fs' = relink ((dir fs)(temp w := None)) fs"
proof (cases "stage w")
  case Create
  show ?thesis
  proof (cases a)
    case Failed
    with Create assms show ?thesis by (intro that(1) [of Clean]) (simp_all add: writer_step_def)
  next
    case (Done k)
    with Create assms show ?thesis
      by (cases "dir fs (temp w)")
        (simp_all add: writer_step_def create_file_def Let_def that(2,3) eq_commute [of _ fs'] eq_commute [of _ w'])
  qed
next
  case (Write i n)
  show ?thesis
  proof (cases a)
    case Failed
    with Write assms show ?thesis by (intro that(1) [of Clean]) (simp_all add: writer_step_def)
  next
    case (Done k)
    with Write assms that(1) [of Clean] that(4) [of i n _ k] that(5) [of i n] show ?thesis
      by (simp add: writer_step_def Let_def split: if_splits)
  qed
next
  case (Rename i)
  show ?thesis
  proof (cases "a = Failed \<or> dir fs (temp w) = None")
    case True
    with Rename assms show ?thesis
      by (intro that(1) [of Clean]) (auto simp: writer_step_def split: answer.splits option.splits)
  next
    case False
    then obtain k j where "a = Done k" "dir fs (temp w) = Some j" by (cases a) auto
    with Rename assms show ?thesis by (intro that(6) [of i j]) (simp_all add: writer_step_def)
  qed
next
  case SyncDir
  with assms that(1) [of Clean] that(7) show ?thesis by (cases a) (simp_all add: writer_step_def)
next
  case Clean
  with assms that(1) [of "Returned False"] that(8) show ?thesis by (simp add: writer_step_def split: if_splits)
next
  case (Returned r)
  with assms show ?thesis by (simp add: writer_step_def)
qed

section \<open>A writer ends\<close>

text \<open>Every call brings a writer closer to its end, whatever the answer: it makes at most as many calls as the
  snapshot has bytes, and five.\<close>

fun calls_left :: "nat \<Rightarrow> stage \<Rightarrow> nat" where
  "calls_left len Create = len + 5"
| "calls_left len (Write _ n) = (len - n) + 4"
| "calls_left len (Rename _) = 3"
| "calls_left len SyncDir = 2"
| "calls_left len Clean = 1"
| "calls_left len (Returned _) = 0"

lemma writer_step_decreases:
  assumes "writer_step a w fs = Some (w', fs')"
  shows "calls_left (length (payload w')) (stage w') < calls_left (length (payload w)) (stage w)"
proof (cases "stage w")
  case (Write i n)
  with assms show ?thesis
    by (auto simp: writer_step_def Let_def split: answer.splits if_splits)
next
  case Create
  with assms show ?thesis by (auto simp: writer_step_def split: answer.splits prod.splits)
next
  case (Rename i)
  with assms show ?thesis by (auto simp: writer_step_def split: answer.splits option.splits)
qed (use assms in \<open>auto simp: writer_step_def split: answer.splits\<close>)

lemma writer_step_enabled: "writer_step a w fs = None \<longleftrightarrow> (\<exists>r. stage w = Returned r)"
  by (cases "stage w") (auto simp: writer_step_def)

section \<open>A writer alone\<close>

text \<open>The answers that \<^verbatim>\<open>io_plan\<close> stands for, call by call, and the views a schedule passes through.\<close>

definition plan_answers :: "io_plan \<Rightarrow> bytes \<Rightarrow> answer list" where
  "plan_answers plan data =
     (let clean = [if remove_ok plan then Done 0 else Failed]
      in if \<not> create_ok plan then Failed # clean
         else Done 0 #
           (case write_stops plan of
              Some k \<Rightarrow> replicate (min k (length data)) (Done 1) @ Failed # clean
            | None \<Rightarrow> replicate (length data) (Done 1) @
                (if \<not> sync_ok plan then Failed # clean
                 else Done 0 #
                   (if \<not> rename_ok plan then Failed # clean
                    else Done 0 # (if dir_sync_ok plan then [Done 0] else Failed # clean)))))"

fun views :: "answer list \<Rightarrow> writer \<Rightarrow> fsys \<Rightarrow> files list \<times> writer" where
  "views [] w fs = ([live fs], w)"
| "views (a # as) w fs =
     (case writer_step a w fs of
        None \<Rightarrow> ([live fs], w)
      | Some (w', fs') \<Rightarrow> (case views as w' fs' of (vs, v) \<Rightarrow> (live fs # vs, v)))"

lemma writing_alone:
  assumes "linked_once fs" and "dir fs (temp w) = Some i" and "contents fs i = take n (payload w)"
    and "stage w = Write i n" and "n + k \<le> length (payload w)"
  shows "\<exists>fs'. linked_once fs' \<and> dir fs' (temp w) = Some i \<and> contents fs' i = take (n + k) (payload w)
    \<and> live fs' = (live fs)(temp w \<mapsto> take (n + k) (payload w))
    \<and> (\<forall>as. views (replicate k (Done 1) @ as) w fs =
        (map (\<lambda>m. (live fs)(temp w \<mapsto> take m (payload w))) [n..<n + k] @ fst (views as (w\<lparr>stage := Write i (n + k)\<rparr>) fs'),
         snd (views as (w\<lparr>stage := Write i (n + k)\<rparr>) fs')))"
  using assms
proof (induction k arbitrary: n w fs)
  case 0
  have "live fs = (live fs)(temp w \<mapsto> take n (payload w))" using 0 by (auto simp: live_def)
  moreover have w: "w\<lparr>stage := Write i (n + 0)\<rparr> = w" using 0 by simp
  ultimately show ?case unfolding w using 0 by (intro exI [of _ fs]) simp
next
  case (Suc k)
  let ?w = "w\<lparr>stage := Write i (Suc n)\<rparr>"
  let ?fs = "set_contents i (take (Suc n) (payload w)) fs"
  have n: "n < length (payload w)" using Suc.prems by simp
  have chunk: "take 1 (drop n (payload w)) = [payload w ! n]"
    using n by (simp add: Cons_nth_drop_Suc [symmetric])
  have step: "writer_step (Done 1) w fs = Some (?w, ?fs)"
    using Suc.prems n pwrite_take [of n "payload w" 1] chunk by (simp add: writer_step_def Let_def)
  have once: "linked_once ?fs" using Suc.prems(1) by (simp add: linked_once_def set_contents_def)
  have now: "live fs = (live fs)(temp w \<mapsto> take n (payload w))" using Suc.prems by (auto simp: live_def)
  have live': "(live ?fs)(temp w \<mapsto> bs) = (live fs)(temp w \<mapsto> bs)" for bs
    by (simp add: live_upd [OF Suc.prems(1,2)])
  have side: "dir ?fs (temp w) = Some i" "contents ?fs i = take (Suc n) (payload w)"
    using Suc.prems by (simp_all add: set_contents_def)
  from Suc.IH [of ?fs ?w "Suc n"] Suc.prems(5) once side obtain fs' where
    fs': "linked_once fs'" "dir fs' (temp w) = Some i" "contents fs' i = take (n + Suc k) (payload w)"
      "live fs' = (live fs)(temp w \<mapsto> take (n + Suc k) (payload w))"
    and v: "\<And>as. views (replicate k (Done 1) @ as) ?w ?fs =
      (map (\<lambda>m. (live fs)(temp w \<mapsto> take m (payload w))) [Suc n..<n + Suc k] @ fst (views as (w\<lparr>stage := Write i (n + Suc k)\<rparr>) fs'),
       snd (views as (w\<lparr>stage := Write i (n + Suc k)\<rparr>) fs'))"
    by (auto simp: live' simp del: fun_upd_apply upt_Suc)
  show ?case
  proof (intro exI [of _ fs'] conjI allI)
    fix as
    show "views (replicate (Suc k) (Done 1) @ as) w fs =
      (map (\<lambda>m. (live fs)(temp w \<mapsto> take m (payload w))) [n..<n + Suc k] @ fst (views as (w\<lparr>stage := Write i (n + Suc k)\<rparr>) fs'),
       snd (views as (w\<lparr>stage := Write i (n + Suc k)\<rparr>) fs'))"
      using step v [of as] now by (simp add: upt_conv_Cons del: upt_Suc)
  qed (use fs' in simp_all)
qed

lemma writing_alone_sync:
  assumes "linked_once fs" and "dir fs (temp w) = Some i" and "contents fs i = []" and "stage w = Write i 0"
  shows "\<exists>fs'. views (replicate (length (payload w)) (Done 1) @ Done 0 # as) w fs =
      (written (live fs) (temp w) (payload w) (length (payload w)) @ fst (views as (w\<lparr>stage := Rename i\<rparr>) fs'),
       snd (views as (w\<lparr>stage := Rename i\<rparr>) fs'))
    \<and> dir fs' (temp w) = Some i \<and> contents fs' i = payload w \<and> live fs' = (live fs)(temp w \<mapsto> payload w)"
proof -
  from writing_alone [of fs w i 0 "length (payload w)"] assms obtain fs' where
    fs': "linked_once fs'" "dir fs' (temp w) = Some i" "contents fs' i = payload w" "live fs' = (live fs)(temp w \<mapsto> payload w)"
    and v: "\<And>as. views (replicate (length (payload w)) (Done 1) @ as) w fs =
      (map (\<lambda>m. (live fs)(temp w \<mapsto> take m (payload w))) [0..<length (payload w)] @
         fst (views as (w\<lparr>stage := Write i (length (payload w))\<rparr>) fs'),
       snd (views as (w\<lparr>stage := Write i (length (payload w))\<rparr>) fs'))"
    by (auto simp del: fun_upd_apply)
  have "writer_step (Done 0) (w\<lparr>stage := Write i (length (payload w))\<rparr>) fs' =
      Some (w\<lparr>stage := Rename i\<rparr>, fs'\<lparr>durable := (durable fs')(i := True)\<rparr>)"
    by (simp add: writer_step_def)
  with fs' v [of "Done 0 # as"] show ?thesis
    by (intro exI [of _ "fs'\<lparr>durable := (durable fs')(i := True)\<rparr>"]) (simp add: written_def split: prod.splits)
qed

lemma written_last: "written fs t data n = map (\<lambda>m. fs(t \<mapsto> take m data)) [0..<n] @ [fs(t \<mapsto> take n data)]"
  by (simp add: written_def)

text \<open>The clean-up after a failure, as the last calls of a writer.\<close>

lemma failed_alone:
  assumes "stage w \<noteq> Clean" and "\<nexists>r. stage w = Returned r"
  shows "views [Failed, if b then Done 0 else Failed] w fs =
    ([live fs, live fs, if b then (live fs)(temp w := None) else live fs], w\<lparr>stage := Returned False\<rparr>)"
proof -
  have "writer_step Failed w fs = Some (w\<lparr>stage := Clean\<rparr>, fs)"
    using assms by (cases "stage w") (auto simp: writer_step_def)
  moreover have "(live fs)(temp w := None) = live fs" if "dir fs (temp w) = None"
    using that by (auto simp: live_def)
  ultimately show ?thesis by (auto simp: writer_step_def)
qed

lemma create_alone:
  assumes "linked_once fs"
  shows "\<exists>i fs1. writer_step (Done 0) (start (pid, c, data)) fs = Some (start (pid, c, data)\<lparr>stage := Write i 0\<rparr>, fs1)
    \<and> linked_once fs1 \<and> dir fs1 (temp_name pid (unat c)) = Some i \<and> contents fs1 i = []
    \<and> live fs1 = (live fs)(temp_name pid (unat c) \<mapsto> [])"
proof -
  obtain i fs1 where cr: "create_file (temp_name pid (unat c)) fs = (i, fs1)" by (metis surj_pair)
  with create_file_live [OF assms cr] show ?thesis by (auto simp: writer_step_def)
qed

text \<open>The file is created, some of the bytes are written, and a call fails.\<close>

lemma stopped_alone:
  fixes fs :: fsys
  defines "t \<equiv> \<lambda>pid c. temp_name pid (unat (c :: u64))"
  assumes "linked_once fs" and "k \<le> length data"
  shows "\<exists>v. views (Done 0 # replicate k (Done 1) @ [Failed, if b then Done 0 else Failed]) (start (pid, c, data)) fs =
      (live fs # map (\<lambda>m. (live fs)(t pid c \<mapsto> take m data)) [0..<k] @
        [(live fs)(t pid c \<mapsto> take k data), (live fs)(t pid c \<mapsto> take k data),
         if b then (live fs)(t pid c := None) else (live fs)(t pid c \<mapsto> take k data)], v)
    \<and> stage v = Returned False"
proof -
  let ?w = "start (pid, c, data)" and ?t = "temp_name pid (unat c)" and ?clean = "[Failed, if b then Done 0 else Failed]"
  from create_alone [OF assms(2)] obtain i fs1 where create: "writer_step (Done 0) ?w fs = Some (?w\<lparr>stage := Write i 0\<rparr>, fs1)"
    and one: "linked_once fs1" "dir fs1 ?t = Some i" "contents fs1 i = []" "live fs1 = (live fs)(?t \<mapsto> [])" by blast
  let ?w1 = "?w\<lparr>stage := Write i 0\<rparr>"
  have live1: "(live fs1)(?t \<mapsto> bs) = (live fs)(?t \<mapsto> bs)" for bs using one by simp
  from writing_alone [of fs1 ?w1 i 0 k] one assms(3) obtain fs2 where
    "live fs2 = (live fs)(?t \<mapsto> take k data)"
    "views (replicate k (Done 1) @ ?clean) ?w1 fs1 =
      (map (\<lambda>m. (live fs)(?t \<mapsto> take m data)) [0..<k] @ fst (views ?clean (?w1\<lparr>stage := Write i k\<rparr>) fs2),
       snd (views ?clean (?w1\<lparr>stage := Write i k\<rparr>) fs2))"
    by (auto simp: live1 simp del: fun_upd_apply)
  with create failed_alone [of "?w1\<lparr>stage := Write i k\<rparr>" b fs2] show ?thesis by (simp add: t_def)
qed

text \<open>The file is created, written and synced.\<close>

lemma synced_alone:
  assumes "linked_once fs"
  shows "\<exists>i fs2. views (Done 0 # replicate (length data) (Done 1) @ Done 0 # rest) (start (pid, c, data)) fs =
      (live fs # written (live fs) (temp_name pid (unat c)) data (length data)
         @ fst (views rest (start (pid, c, data)\<lparr>stage := Rename i\<rparr>) fs2),
       snd (views rest (start (pid, c, data)\<lparr>stage := Rename i\<rparr>) fs2))
    \<and> dir fs2 (temp_name pid (unat c)) = Some i \<and> contents fs2 i = data
    \<and> live fs2 = (live fs)(temp_name pid (unat c) \<mapsto> data)"
proof -
  let ?w = "start (pid, c, data)" and ?t = "temp_name pid (unat c)"
  from create_alone [OF assms] obtain i fs1 where create: "writer_step (Done 0) ?w fs = Some (?w\<lparr>stage := Write i 0\<rparr>, fs1)"
    and one: "linked_once fs1" "dir fs1 ?t = Some i" "contents fs1 i = []" "live fs1 = (live fs)(?t \<mapsto> [])" by blast
  let ?w1 = "?w\<lparr>stage := Write i 0\<rparr>"
  have live1: "(live fs1)(?t \<mapsto> bs) = (live fs)(?t \<mapsto> bs)" for bs using one by simp
  from writing_alone_sync [of fs1 ?w1 i rest] one obtain fs2 where
    fs2: "dir fs2 ?t = Some i" "contents fs2 i = data" "live fs2 = (live fs)(?t \<mapsto> data)"
    and v: "views (replicate (length data) (Done 1) @ Done 0 # rest) ?w1 fs1 =
      (written (live fs1) ?t data (length data) @ fst (views rest (?w1\<lparr>stage := Rename i\<rparr>) fs2),
       snd (views rest (?w1\<lparr>stage := Rename i\<rparr>) fs2))"
    by (auto simp: live1 simp del: fun_upd_apply)
  have "written (live fs1) ?t data (length data) = written (live fs) ?t data (length data)"
    by (simp add: written_def live1 del: upt_Suc)
  with create v fs2 show ?thesis by (intro exI [of _ i] exI [of _ fs2]) simp
qed

text \<open>The synced file is renamed and the directory synced, or one of the two fails.\<close>

lemma rename_alone:
  fixes plan :: io_plan
  defines "clean \<equiv> [Failed, if remove_ok plan then Done 0 else Failed]"
  assumes "dir fs2 (temp w) = Some i" and "contents fs2 i = payload w" and "live fs2 = base(temp w \<mapsto> payload w)"
    and "stage w = Rename i" and "temp w \<noteq> FINAL_PATH"
    and "rest = (if \<not> rename_ok plan then clean else Done 0 # (if dir_sync_ok plan then [Done 0] else clean))"
  shows "views rest w fs2 =
    (if \<not> rename_ok plan then
       [live fs2, live fs2, if remove_ok plan then base(temp w := None) else live fs2]
     else let new = base(temp w := None, FINAL_PATH \<mapsto> payload w)
          in [live fs2, new, new] @ (if dir_sync_ok plan then [] else [new]),
     w\<lparr>stage := Returned (rename_ok plan \<and> dir_sync_ok plan)\<rparr>)"
proof -
  let ?d = "(dir fs2)(temp w := None, FINAL_PATH \<mapsto> i)"
  have move: "writer_step (Done 0) w fs2 = Some (w\<lparr>stage := SyncDir\<rparr>, relink ?d fs2)"
    using assms by (simp add: writer_step_def)
  have live3: "live (relink ?d fs2) = base(temp w := None, FINAL_PATH \<mapsto> payload w)"
    using live_move [OF assms(2)] assms(3,4) by simp
  have sd: "writer_step (Done 0) (w\<lparr>stage := SyncDir\<rparr>) fs = Some (w\<lparr>stage := Returned True\<rparr>, fs\<lparr>older := []\<rparr>)" for fs
    by (simp add: writer_step_def)
  have clean: "views clean w fs2 = ([live fs2, live fs2, if remove_ok plan then base(temp w := None) else live fs2], w\<lparr>stage := Returned False\<rparr>)"
    using failed_alone [of w "remove_ok plan" fs2] assms(4,5) by (simp add: clean_def)
  have clean3: "views clean (w\<lparr>stage := SyncDir\<rparr>) (relink ?d fs2) =
      ([live (relink ?d fs2), live (relink ?d fs2), live (relink ?d fs2)], w\<lparr>stage := Returned False\<rparr>)"
  proof -
    have "(live (relink ?d fs2))(temp w := None) = live (relink ?d fs2)" using assms(6) by (auto simp: live3)
    with failed_alone [of "w\<lparr>stage := SyncDir\<rparr>" "remove_ok plan" "relink ?d fs2"] show ?thesis
      unfolding clean_def by simp
  qed
  show ?thesis using assms(7) move sd clean clean3 live3 by (auto simp: Let_def)
qed

lemma views_plan:
  assumes once: "linked_once fs" and w: "write_atomic_async plan pid c data (live fs) = (states, ok, c')"
  shows "\<exists>vs v. views (plan_answers plan data) (start (pid, c, data)) fs = (vs, v)
    \<and> set vs = set states \<and> last vs = last states \<and> stage v = Returned ok"
proof (cases "create_ok plan")
  case False
  then show ?thesis
    using w failed_alone [of "start (pid, c, data)" "remove_ok plan" fs]
    by (auto simp: plan_answers_def write_atomic_async_def write_then_rename_def Let_def split: if_splits)
next
  case True
  let ?w = "start (pid, c, data)" and ?t = "temp_name pid (unat c)"
  let ?clean = "[Failed, if remove_ok plan then Done 0 else Failed]"
  show ?thesis
  proof (cases "write_stops plan = None \<and> sync_ok plan")
    case False
    define k where "k = (case write_stops plan of None \<Rightarrow> length data | Some k \<Rightarrow> min k (length data))"
    have pa: "plan_answers plan data = Done 0 # replicate k (Done 1) @ ?clean"
      using False True by (auto simp: plan_answers_def k_def Let_def split: option.splits)
    have st: "states = live fs # written (live fs) ?t data k @ (if remove_ok plan then [(live fs)(?t := None)] else [])"
      "ok = False"
      using False True w by (auto simp: write_atomic_async_def write_then_rename_def Let_def k_def written_last split: option.splits if_splits)
    have k: "k \<le> length data" by (simp add: k_def split: option.splits)
    from stopped_alone [OF once k, of "remove_ok plan" pid c] show ?thesis
      unfolding pa by (elim exE conjE, simp only:) (auto simp: st written_last)
  next
    case sync: True
    define rest where "rest = (if \<not> rename_ok plan then ?clean else Done 0 # (if dir_sync_ok plan then [Done 0] else ?clean))"
    have pa: "plan_answers plan data = Done 0 # replicate (length data) (Done 1) @ Done 0 # rest"
      using sync True by (simp add: plan_answers_def rest_def Let_def)
    from synced_alone [OF once, of data rest pid c] obtain i fs2 where
      v: "views (plan_answers plan data) ?w fs = (live fs # written (live fs) ?t data (length data)
         @ fst (views rest (?w\<lparr>stage := Rename i\<rparr>) fs2), snd (views rest (?w\<lparr>stage := Rename i\<rparr>) fs2))"
      and fs2: "dir fs2 ?t = Some i" "contents fs2 i = data" "live fs2 = (live fs)(?t \<mapsto> data)"
      unfolding pa by blast
    have t: "?t \<noteq> FINAL_PATH" by (rule temp_name_not_final)
    have r: "views rest (?w\<lparr>stage := Rename i\<rparr>) fs2 =
      (if \<not> rename_ok plan then [live fs2, live fs2, if remove_ok plan then (live fs)(?t := None) else live fs2]
       else let new = (live fs)(?t := None, FINAL_PATH \<mapsto> data)
            in [live fs2, new, new] @ (if dir_sync_ok plan then [] else [new]),
       ?w\<lparr>stage := Returned (rename_ok plan \<and> dir_sync_ok plan)\<rparr>)"
      using rename_alone [of fs2 "?w\<lparr>stage := Rename i\<rparr>" i "live fs" rest plan] fs2 t by (simp add: rest_def)
    show ?thesis unfolding v r using w sync True t fs2(3)
      by (auto simp: write_atomic_async_def write_then_rename_def Let_def written_last fun_upd_twist split: if_splits)
  qed
qed

section \<open>Properties\<close>

definition demo_plan :: io_plan where
  "demo_plan = \<lparr>create_ok = True, write_stops = None, sync_ok = True, rename_ok = False,
     dir_sync_ok = True, remove_ok = True\<rparr>"

text \<open>
  C25. A writer that has the directory to itself goes, call by call, through exactly the states that
  \<^const>\<open>write_atomic_async\<close> lists, and returns its result: the model of the usage file that the flusher,
  the shutdown and the restart are proved against is implemented by the file system with inodes.
\<close>

theorem writer_alone_refines:
  assumes "linked_once fs" and "write_atomic_async plan pid c data (live fs) = (states, ok, c')"
    and "views (plan_answers plan data) (start (pid, c, data)) fs = (vs, v)"
  shows "set vs = set states \<and> last vs = last states \<and> stage v = Returned ok"
  using views_plan [OF assms(1,2)] assms(3) by auto

theorem writer_alone_refines_witness:
  "stage (snd (views (plan_answers demo_plan ''{}'') (start (7, 0, ''{}'')) empty_fs))
     = Returned (fst (snd (write_atomic_async demo_plan 7 0 ''{}'' (live empty_fs))))"
proof -
  have "linked_once empty_fs" using settled_empty by (simp add: settled_def)
  then show ?thesis
    using writer_alone_refines [of empty_fs demo_plan 7 0 "''{}''"] by (metis prod.collapse)
qed

end
