(* ===== verification/Write_Race.thy ===== *)
theory Write_Race
  imports Writer
begin

text \<open>
  Several writers of the usage file at once (\<open>src/quotas/persistence.rs\<close>): the periodic flush, the
  flush at shutdown, a second balancer in the same directory. Each advances by one system call at a time,
  in any order with the others. The invariant \<^verbatim>\<open>race_inv\<close> is an instance of \<open>invariant_machine\<close>; it gives
  that the usage file is never torn, live or after a crash, as long as the writers have different
  temporary names. One theorem shows what equal process ids do; the order in which the two flushes of
  a shutdown take effect is the subject of \<open>Shutdown_Race\<close>.
\<close>

section \<open>Any number of writers\<close>

type_synonym race = "fsys \<times> writer list"

inductive race_step :: "race \<Rightarrow> race \<Rightarrow> bool" where
  race_move: "i < length ws \<Longrightarrow> writer_step a (ws ! i) fs = Some (w', fs') \<Longrightarrow>
    race_step (fs, ws) (fs', ws[i := w'])"

definition race_init :: "fsys \<Rightarrow> (nat \<times> u64 \<times> bytes) list \<Rightarrow> race \<Rightarrow> bool" where
  "race_init fs jobs s \<longleftrightarrow> s = (fs, map start jobs)"

text \<open>A schedule names the writer that moves and the answer it gets.\<close>

fun run :: "(nat \<times> answer) list \<Rightarrow> race \<Rightarrow> race option" where
  "run [] s = Some s"
| "run ((i, a) # sched) (fs, ws) =
     (if i < length ws then
        (case writer_step a (ws ! i) fs of
           Some (w', fs') \<Rightarrow> run sched (fs', ws[i := w'])
         | None \<Rightarrow> None)
      else None)"

lemma run_reachable: "run sched s = Some t \<Longrightarrow> reachable I race_step s \<Longrightarrow> reachable I race_step t"
proof (induction sched s rule: run.induct)
  case (2 i a sched fs ws)
  from 2(2) obtain w' fs' where m: "i < length ws" "writer_step a (ws ! i) fs = Some (w', fs')"
      "run sched (fs', ws[i := w']) = Some t"
    by (auto split: if_splits option.splits)
  show ?case by (rule "2.IH" [OF m(1,2) refl m(3) reachable_step [OF "2.prems"(2) race_move [OF m(1,2)]]])
qed simp

definition distinct_jobs :: "(nat \<times> u64 \<times> bytes) list \<Rightarrow> bool" where
  "distinct_jobs jobs \<longleftrightarrow> distinct (map (\<lambda>(pid, counter, _). (pid, counter)) jobs)"

text \<open>The counter of one process gives different names to as many writes as it has values.\<close>

lemma one_process_jobs_distinct:
  assumes "n \<le> 2 ^ 64"
  shows "distinct_jobs (map (\<lambda>i. (pid, WRITE_COUNTER + of_nat i, snapshots i)) [0..<n])"
proof -
  have "i = j" if "i < n" "j < n" "WRITE_COUNTER + of_nat i = (WRITE_COUNTER + of_nat j :: u64)" for i j
  proof -
    have "take_bit 64 i = take_bit 64 j" using that(3) by (simp add: word_of_nat_eq_iff)
    moreover have "i < 2 ^ 64" "j < 2 ^ 64" using that(1,2) assms by linarith+
    ultimately show ?thesis by (metis take_bit_nat_eq_self)
  qed
  then show ?thesis by (auto simp: distinct_jobs_def distinct_map inj_on_def)
qed

section \<open>The invariant\<close>

definition writer_ok :: "fsys \<Rightarrow> writer \<Rightarrow> bool" where
  "writer_ok fs w \<longleftrightarrow> (case stage w of
       Write i n \<Rightarrow> dir fs (temp w) = Some i \<and> n \<le> length (payload w) \<and> contents fs i = take n (payload w)
     | Rename i \<Rightarrow> dir fs (temp w) = Some i \<and> contents fs i = payload w \<and> durable fs i
     | _ \<Rightarrow> True)"

text \<open>A directory shows the usage file of a writer.\<close>

definition shows_new :: "fsys \<Rightarrow> bytes set \<Rightarrow> directory \<Rightarrow> bool" where
  "shows_new fs datas d \<longleftrightarrow> (\<exists>i. d FINAL_PATH = Some i \<and> durable fs i \<and> contents fs i \<in> datas)"

definition shows_old :: "fsys \<Rightarrow> bytes option \<Rightarrow> directory \<Rightarrow> bool" where
  "shows_old fs old d \<longleftrightarrow> (case d FINAL_PATH of None \<Rightarrow> old = None | Some i \<Rightarrow> durable fs i \<and> old = Some (contents fs i))"

text \<open>No other name leads to the usage file of a directory that a crash may bring back.\<close>

definition unaliased :: "fsys \<Rightarrow> directory \<Rightarrow> bool" where
  "unaliased fs d \<longleftrightarrow>
     (\<forall>i. d FINAL_PATH = Some i \<longrightarrow> i < next_inode fs \<and> (\<forall>name. dir fs name = Some i \<longrightarrow> name = FINAL_PATH))"

definition renamed :: "writer \<Rightarrow> bool" where
  "renamed w \<longleftrightarrow> stage w = SyncDir \<or> stage w = Returned True"

definition race_inv :: "bytes option \<Rightarrow> race \<Rightarrow> bool" where
  "race_inv old s = (case s of (fs, ws) \<Rightarrow>
     let datas = payload ` set ws in
       linked_once fs \<and> distinct (map temp ws) \<and> FINAL_PATH \<notin> temp ` set ws \<and>
       (\<forall>w \<in> set ws. writer_ok fs w) \<and>
       (\<forall>d \<in> set (crash_dirs fs). unaliased fs d \<and> (shows_old fs old d \<or> shows_new fs datas d)) \<and>
       (\<forall>w \<in> set ws. renamed w \<longrightarrow> shows_new fs datas (dir fs)) \<and>
       (\<forall>w \<in> set ws. stage w = Returned True \<longrightarrow> (\<forall>d \<in> set (older fs). shows_new fs datas d)))"

text \<open>What one call leaves of the usage file in a directory it does not write.\<close>

definition keeps_final :: "fsys \<Rightarrow> fsys \<Rightarrow> directory \<Rightarrow> bool" where
  "keeps_final fs fs' d \<longleftrightarrow>
     (\<forall>i. d FINAL_PATH = Some i \<longrightarrow> contents fs' i = contents fs i \<and> (durable fs i \<longrightarrow> durable fs' i))"

definition call_effect :: "writer \<Rightarrow> fsys \<Rightarrow> writer \<Rightarrow> fsys \<Rightarrow> bool" where
  "call_effect w fs w' fs' \<longleftrightarrow>
     temp w' = temp w \<and> payload w' = payload w \<and> linked_once fs' \<and> writer_ok fs' w' \<and>
     (\<forall>v. temp v \<noteq> temp w \<and> temp v \<noteq> FINAL_PATH \<and> writer_ok fs v \<longrightarrow> writer_ok fs' v) \<and>
     (\<forall>d \<in> set (crash_dirs fs). keeps_final fs fs' d) \<and> (\<forall>d \<in> set (crash_dirs fs'). unaliased fs' d) \<and>
     (dir fs' FINAL_PATH = dir fs FINAL_PATH \<or> shows_new fs' {payload w} (dir fs')) \<and>
     (renamed w' \<longrightarrow> renamed w \<or> shows_new fs' {payload w} (dir fs')) \<and>
     set (older fs') \<subseteq> set (crash_dirs fs) \<and> (stage w' = Returned True \<longrightarrow> older fs' = [])"

lemmas race_defs = linked_once_def writer_ok_def shows_new_def unaliased_def crash_dirs_def keeps_final_def
  set_contents_def relink_def renamed_def

lemma shows_keeps:
  assumes "keeps_final fs fs' d"
  shows "shows_old fs old d \<Longrightarrow> shows_old fs' old d" "shows_new fs datas d \<Longrightarrow> shows_new fs' datas d"
  using assms by (auto simp: keeps_final_def shows_old_def shows_new_def split: option.splits)

lemma writer_step_effect:
  assumes step: "writer_step a w fs = Some (w', fs')" and once: "linked_once fs" and ok: "writer_ok fs w"
    and temp: "temp w \<noteq> FINAL_PATH" and un: "\<forall>d \<in> set (crash_dirs fs). unaliased fs d"
  shows "call_effect w fs w' fs'"
  using step
proof (cases rule: writer_step_cases)
  case (quiet st)
  with once un show ?thesis by (auto simp: call_effect_def race_defs)
next
  case (reused i)
  then show ?thesis using once ok un temp by (auto simp: call_effect_def race_defs pwrite_take split: stage.splits)
next
  case (fresh i)
  then show ?thesis using once ok un temp by (auto simp: call_effect_def race_defs pwrite_take split: stage.splits intro: less_SucI)
next
  case (wrote i n k chunk)
  then show ?thesis using once ok un temp by (auto simp: call_effect_def race_defs pwrite_take split: stage.splits)
next
  case (synced i n)
  then show ?thesis using once ok un temp by (auto simp: call_effect_def race_defs pwrite_take split: stage.splits)
next
  case (moved i j)
  then show ?thesis using once ok un temp by (auto simp: call_effect_def race_defs pwrite_take split: stage.splits)
next
  case dir_synced
  then show ?thesis using once un by (auto simp: call_effect_def race_defs split: stage.splits)
next
  case removed
  then show ?thesis using once ok un temp by (auto simp: call_effect_def race_defs pwrite_take split: stage.splits)
qed

text \<open>What one call means for every directory that a crash may bring back.\<close>

lemma call_effect_new:
  assumes eff: "call_effect w fs w' fs'" and w: "payload w \<in> datas"
  shows "shows_new fs datas (dir fs) \<or> renamed w' \<and> \<not> renamed w \<Longrightarrow> shows_new fs' datas (dir fs')"
    and "\<forall>d \<in> set (crash_dirs fs). shows_new fs datas d \<Longrightarrow> \<forall>d \<in> set (older fs'). shows_new fs' datas d"
proof -
  have keeps: "\<And>d. d \<in> set (crash_dirs fs) \<Longrightarrow> keeps_final fs fs' d" and older': "set (older fs') \<subseteq> set (crash_dirs fs)"
    and live': "dir fs' FINAL_PATH = dir fs FINAL_PATH \<or> shows_new fs' {payload w} (dir fs')"
    and ren': "renamed w' \<longrightarrow> renamed w \<or> shows_new fs' {payload w} (dir fs')"
    using eff by (auto simp: call_effect_def)
  have live_new: "shows_new fs' datas (dir fs')" if "shows_new fs' {payload w} (dir fs')"
    using that w by (auto simp: shows_new_def)
  show "shows_new fs' datas (dir fs')" if "shows_new fs datas (dir fs) \<or> renamed w' \<and> \<not> renamed w"
    using that shows_keeps(2) [OF keeps, of "dir fs" datas] live' live_new ren'
    by (auto simp: crash_dirs_def shows_new_def)
  show "\<forall>d \<in> set (older fs'). shows_new fs' datas d" if "\<forall>d \<in> set (crash_dirs fs). shows_new fs datas d"
    using that older' shows_keeps(2) [OF keeps] by blast
qed

lemma call_effect_dirs:
  assumes eff: "call_effect w fs w' fs'" and w: "payload w \<in> datas"
    and dirs: "\<forall>d \<in> set (crash_dirs fs). shows_old fs old d \<or> shows_new fs datas d"
  shows "\<forall>d \<in> set (crash_dirs fs'). shows_old fs' old d \<or> shows_new fs' datas d"
proof -
  have keeps: "\<And>d. d \<in> set (crash_dirs fs) \<Longrightarrow> keeps_final fs fs' d" and older': "set (older fs') \<subseteq> set (crash_dirs fs)"
    and live': "dir fs' FINAL_PATH = dir fs FINAL_PATH \<or> shows_new fs' {payload w} (dir fs')"
    using eff by (auto simp: call_effect_def)
  have live_new: "shows_new fs' datas (dir fs')" if "shows_new fs' {payload w} (dir fs')"
    using that w by (auto simp: shows_new_def)
  have good: "shows_old fs' old d \<or> shows_new fs' datas d" if "d \<in> set (crash_dirs fs)" for d
    using dirs that shows_keeps [OF keeps [OF that]] by blast
  moreover have "shows_old fs' old (dir fs') \<or> shows_new fs' datas (dir fs')"
    using live' live_new good [of "dir fs"] by (auto simp: crash_dirs_def shows_old_def shows_new_def)
  ultimately show ?thesis using older' by (auto simp: crash_dirs_def)
qed

lemma call_effect_others:
  assumes eff: "call_effect (ws ! i) fs w' fs'" and i: "i < length ws" and dist: "distinct (map temp ws)"
    and fin: "FINAL_PATH \<notin> temp ` set ws" and oks: "\<forall>w \<in> set ws. writer_ok fs w" and v: "v \<in> set (ws[i := w'])"
  shows "writer_ok fs' v"
proof -
  have others: "\<And>v. temp v \<noteq> temp (ws ! i) \<Longrightarrow> temp v \<noteq> FINAL_PATH \<Longrightarrow> writer_ok fs v \<Longrightarrow> writer_ok fs' v"
    and ok': "writer_ok fs' w'" using eff by (auto simp: call_effect_def)
  from v obtain j where j: "j < length ws" "v = ws[i := w'] ! j" by (auto simp: in_set_conv_nth)
  have "temp (ws ! j) \<noteq> temp (ws ! i)" if "j \<noteq> i" using that dist i j by (simp add: distinct_conv_nth)
  moreover have "temp (ws ! j) \<noteq> FINAL_PATH" using fin nth_mem [OF j(1)] by (auto intro: rev_image_eqI)
  ultimately show ?thesis using j ok' oks others [of "ws ! j"] i by (cases "j = i") auto
qed

lemma race_inv_step:
  assumes inv: "race_inv old (fs, ws)" and i: "i < length ws" and step: "writer_step a (ws ! i) fs = Some (w', fs')"
  shows "race_inv old (fs', ws[i := w'])"
proof -
  let ?w = "ws ! i" and ?ws' = "ws[i := w']" and ?datas = "payload ` set ws"
  have w: "?w \<in> set ws" and sub: "set ?ws' \<subseteq> insert w' (set ws)" using i by (simp_all add: set_update_subset_insert)
  have once: "linked_once fs" and oks: "\<forall>w \<in> set ws. writer_ok fs w" and fin: "FINAL_PATH \<notin> temp ` set ws"
    and dist: "distinct (map temp ws)"
    and dirs: "\<forall>d \<in> set (crash_dirs fs). unaliased fs d \<and> (shows_old fs old d \<or> shows_new fs ?datas d)"
    and new: "\<forall>w \<in> set ws. renamed w \<longrightarrow> shows_new fs ?datas (dir fs)"
    and ret: "\<forall>w \<in> set ws. stage w = Returned True \<longrightarrow> (\<forall>d \<in> set (older fs). shows_new fs ?datas d)"
    using inv by (simp_all add: race_inv_def Let_def)
  have eff: "call_effect ?w fs w' fs'"
    by (rule writer_step_effect [OF step once]) (use oks w fin dirs in \<open>auto intro: rev_image_eqI\<close>)
  then have same: "temp w' = temp ?w" "payload w' = payload ?w" and once': "linked_once fs'"
    and un': "\<forall>d \<in> set (crash_dirs fs'). unaliased fs' d" and ret': "stage w' = Returned True \<longrightarrow> older fs' = []"
    by (auto simp: call_effect_def)
  have temps: "map temp ?ws' = map temp ws" "map payload ?ws' = map payload ws"
    using i same by (simp_all add: map_update list_update_same_conv)
  then have pays: "payload ` set ?ws' = ?datas" and fin': "FINAL_PATH \<notin> temp ` set ?ws'" using fin by (metis list.set_map)+
  note new' = call_effect_new [OF eff imageI [OF w, of payload]]
  have good: "\<forall>d \<in> set (crash_dirs fs). shows_old fs old d \<or> shows_new fs ?datas d" using dirs by blast
  have "shows_new fs' ?datas (dir fs')" if "v \<in> set ?ws'" "renamed v" for v
    using that sub new w new'(1) by blast
  moreover have "shows_new fs' ?datas d" if "v \<in> set ?ws'" "stage v = Returned True" "d \<in> set (older fs')" for v d
  proof -
    have "v \<in> set ws" using that sub ret' by auto
    with that(2) new ret have "\<forall>d \<in> set (crash_dirs fs). shows_new fs ?datas d" by (auto simp: crash_dirs_def renamed_def)
    with new'(2) that(3) show ?thesis by blast
  qed
  ultimately show ?thesis
    unfolding race_inv_def Let_def pays prod.case temps(1)
    using once' call_effect_others [OF eff i dist fin oks] un' dist fin' call_effect_dirs [OF eff imageI [OF w] good] by blast
qed

lemma distinct_temps: "distinct_jobs jobs \<Longrightarrow> distinct (map temp (map start jobs))"
  by (induction jobs) (force simp: distinct_jobs_def temp_name_inj image_iff unsigned_word_eqI)+

lemma race_inv_init:
  assumes "settled fs" and "distinct_jobs jobs"
  shows "race_inv (live fs FINAL_PATH) (fs, map start jobs)"
proof -
  have "FINAL_PATH \<notin> temp ` set (map start jobs)"
    using temp_name_not_final by (auto simp: start_def split: prod.splits) metis
  with assms distinct_temps [OF assms(2)] show ?thesis
    by (auto simp: race_inv_def settled_def linked_once_def writer_ok_def renamed_def crash_dirs_def
        unaliased_def shows_old_def live_def split: option.splits)
qed

interpretation writers: invariant_machine "race_init fs jobs" race_step
  "\<lambda>s. settled fs \<and> distinct_jobs jobs \<longrightarrow> race_inv (live fs FINAL_PATH) s" for fs jobs
proof
  fix s assume "race_init fs jobs s"
  then show "settled fs \<and> distinct_jobs jobs \<longrightarrow> race_inv (live fs FINAL_PATH) s"
    by (auto simp: race_init_def race_inv_init)
next
  fix s t assume "settled fs \<and> distinct_jobs jobs \<longrightarrow> race_inv (live fs FINAL_PATH) s" "race_step s t"
  then show "settled fs \<and> distinct_jobs jobs \<longrightarrow> race_inv (live fs FINAL_PATH) t"
    by (auto elim!: race_step.cases intro: race_inv_step)
qed

lemma race_inv_reachable:
  assumes "settled fs0" and "distinct_jobs jobs" and "reachable (race_init fs0 jobs) race_step s"
  shows "race_inv (live fs0 FINAL_PATH) s"
  using writers.invar_reachable [OF assms(3)] assms(1,2) by simp

section \<open>What a reader and a crash can see\<close>

lemma shows_crash_view:
  "shows_old fs old d \<Longrightarrow> crash_view fs d junk FINAL_PATH = old"
  "shows_new fs datas d \<Longrightarrow> crash_view fs d junk FINAL_PATH \<in> Some ` datas"
  by (auto simp: shows_old_def shows_new_def crash_view_def split: option.splits)

lemma shows_live:
  "shows_old fs old (dir fs) \<Longrightarrow> live fs FINAL_PATH = old"
  "shows_new fs datas (dir fs) \<Longrightarrow> live fs FINAL_PATH \<in> Some ` datas"
  by (auto simp: shows_old_def shows_new_def live_def split: option.splits)

lemma race_step_payloads:
  "race_step s t \<Longrightarrow> map payload (snd t) = map payload (snd s)"
proof (induction rule: race_step.induct)
  case (race_move i ws a fs w' fs')
  then have "payload w' = payload (ws ! i)" by (cases rule: writer_step_cases [OF race_move(2)]) simp_all
  then show ?case by (simp add: map_update list_update_same_conv race_move(1))
qed

lemma race_payloads:
  "reachable (race_init fs0 jobs) race_step s \<Longrightarrow> map payload (snd s) = map (snd \<circ> snd) jobs"
proof (induction rule: reachable.induct)
  case (reachable_init s)
  then show ?case by (simp add: race_init_def start_def split: prod.splits)
next
  case (reachable_step s t)
  with race_step_payloads show ?case by metis
qed

lemma race_views:
  assumes "settled fs0" and "distinct_jobs jobs" and "reachable (race_init fs0 jobs) race_step (fs, ws)"
    and "is_view fs view"
  shows "(view FINAL_PATH = live fs0 FINAL_PATH \<or> view FINAL_PATH \<in> (Some \<circ> snd \<circ> snd) ` set jobs)
    \<and> (Returned True \<in> stage ` set ws \<longrightarrow> view FINAL_PATH \<in> (Some \<circ> snd \<circ> snd) ` set jobs)"
proof -
  have "payload ` set ws = (snd \<circ> snd) ` set jobs"
    using race_payloads [OF assms(3)] by (metis list.set_map snd_conv)
  then have datas: "(Some \<circ> snd \<circ> snd) ` set jobs = Some ` payload ` set ws"
    by (simp add: image_comp comp_assoc)
  have inv: "race_inv (live fs0 FINAL_PATH) (fs, ws)" by (rule race_inv_reachable [OF assms(1-3)])
  obtain d where d: "d \<in> set (crash_dirs fs)"
    and v: "\<And>datas. shows_new fs datas d \<Longrightarrow> view FINAL_PATH \<in> Some ` datas"
      "\<And>old. shows_old fs old d \<Longrightarrow> view FINAL_PATH = old"
    using assms(4) unfolding is_view_def
  proof (elim disjE exE conjE)
    assume "view = live fs"
    then show ?thesis by (intro that [of "dir fs"]) (simp_all add: crash_dirs_def shows_live)
  next
    fix d junk assume "d \<in> set (crash_dirs fs)" "view = crash_view fs d junk"
    then show ?thesis by (intro that [of d]) (simp_all add: shows_crash_view)
  qed
  have "shows_old fs (live fs0 FINAL_PATH) d \<or> shows_new fs (payload ` set ws) d"
    using inv d by (simp add: race_inv_def Let_def)
  moreover have "shows_new fs (payload ` set ws) d" if "Returned True \<in> stage ` set ws"
    using that inv d by (auto simp: race_inv_def Let_def crash_dirs_def renamed_def)
  ultimately show ?thesis unfolding datas using v by blast
qed

text \<open>One writer from its first call to its last, without a failure.\<close>

definition whole_write :: "nat \<Rightarrow> nat \<Rightarrow> (nat \<times> answer) list" where
  "whole_write i len = [(i, Done 0), (i, Done len), (i, Done 0), (i, Done 0), (i, Done 0)]"

lemmas run_simps = whole_write_def writer_step_def create_file_def set_contents_def relink_def start_def
  empty_fs_def pwrite_def temp_name_inj temp_name_not_final temp_name_not_final [symmetric] live_def

lemma run_init: "run sched (fs, map start jobs) = Some t \<Longrightarrow> reachable (race_init fs jobs) race_step t"
  by (erule run_reachable) (simp add: reachable_init race_init_def)

lemma run_exists:
  "\<exists>fs ws. run sched (fs0, map start jobs) = Some (fs, ws) \<and> P fs ws \<Longrightarrow>
     \<exists>fs ws. reachable (race_init fs0 jobs) race_step (fs, ws) \<and> P fs ws"
  using run_init by fast

text \<open>A schedule has no more steps than the writers have calls to make.\<close>

lemma run_length:
  "run sched (fs, ws) = Some (fs', ws') \<Longrightarrow>
     length sched + sum_list (map (\<lambda>w. calls_left (length (payload w)) (stage w)) ws') \<le>
       sum_list (map (\<lambda>w. calls_left (length (payload w)) (stage w)) ws)"
proof (induction sched arbitrary: fs ws)
  case (Cons ia sched)
  let ?left = "\<lambda>w. calls_left (length (payload w)) (stage w)"
  obtain i a where ia: "ia = (i, a)" by (cases ia)
  from Cons.prems obtain w1 fs1 where m: "i < length ws" "writer_step a (ws ! i) fs = Some (w1, fs1)"
      "run sched (fs1, ws[i := w1]) = Some (fs', ws')"
    by (auto simp: ia split: if_splits option.splits)
  have "sum_list (map ?left (ws[i := w1])) < sum_list (map ?left ws)"
  proof -
    have ws: "ws = take i ws @ ws ! i # drop (Suc i) ws" using m(1) by (rule id_take_nth_drop)
    have "sum_list (map ?left ws) = sum_list (map ?left (take i ws)) + ?left (ws ! i) + sum_list (map ?left (drop (Suc i) ws))"
      by (subst ws) (simp del: take_map drop_map)
    moreover have "sum_list (map ?left (ws[i := w1])) =
        sum_list (map ?left (take i ws)) + ?left w1 + sum_list (map ?left (drop (Suc i) ws))"
      using m(1) by (simp add: upd_conv_take_nth_drop)
    ultimately show ?thesis using writer_step_decreases [OF m(2)] by simp
  qed
  with Cons.IH [OF m(3)] show ?case by simp
qed simp

text \<open>
  Racing writers finish: whatever the calls answer and in whatever order they are served, all of
  them together make at most as many calls as their snapshots have bytes, and five each, and the only
  state from which no writer can go on is one where all of them have returned.
\<close>

lemma racing_writers_return:
  assumes "run sched (fs, map start jobs) = Some (fs', ws')"
  shows "length sched \<le> sum_list (map (\<lambda>(_, _, data). length data + 5) jobs)
    \<and> ((\<exists>s. race_step (fs', ws') s) \<or> list_all (\<lambda>w. \<exists>r. stage w = Returned r) ws')"
proof -
  have "(\<lambda>w. calls_left (length (payload w)) (stage w)) \<circ> start = (\<lambda>(_, _, data). length data + 5)"
    by (auto simp: fun_eq_iff)
  with run_length [OF assms] have "length sched \<le> sum_list (map (\<lambda>(_, _, data). length data + 5) jobs)"
    by simp
  moreover have "\<exists>s. race_step (fs', ws') s" if w: "w \<in> set ws'" "\<nexists>r. stage w = Returned r" for w
  proof -
    from w(1) obtain i where "i < length ws'" "ws' ! i = w" by (auto simp: in_set_conv_nth)
    moreover obtain w1 fs1 where "writer_step Failed w fs' = Some (w1, fs1)"
      using writer_step_enabled [of Failed w fs'] w(2) by (cases "writer_step Failed w fs'") auto
    ultimately show ?thesis using race_move by blast
  qed
  ultimately show ?thesis unfolding list_all_iff by blast
qed

section \<open>Properties\<close>

text \<open>
  C11. However many writers race for the usage file, in this process or in another one of the same
  directory, as long as no two of them share a process id and a counter value (those of one process
  never do) and the file there was before, if any, is on the disk, in whatever order their system calls are served and whichever of them fail: the file a
  reader sees, and the file that is found after a crash at any moment, is the old one or the complete
  snapshot of one of the writers.
  Once one of them has returned \<open>Ok\<close>, not even a crash brings the old file back.
\<close>

theorem racing_writes_never_tear:
  assumes "settled fs0" and "distinct_jobs jobs" and "reachable (race_init fs0 jobs) race_step (fs, ws)"
    and "is_view fs view"
  shows "(view FINAL_PATH = live fs0 FINAL_PATH \<or> view FINAL_PATH \<in> (Some \<circ> snd \<circ> snd) ` set jobs)
    \<and> (Returned True \<in> stage ` set ws \<longrightarrow> view FINAL_PATH \<in> (Some \<circ> snd \<circ> snd) ` set jobs)"
  by (rule race_views [OF assms])

theorem racing_writes_never_tear_witness:
  "\<exists>fs ws. run (whole_write 0 2 @ [(1, Done 0)]) (empty_fs, map start [(1, 0, ''{}''), (1, 1, ''[]'')]) = Some (fs, ws)
     \<and> live fs FINAL_PATH \<in> {Some ''{}'', Some ''[]''}"
proof -
  let ?jobs = "[(1, 0, ''{}''), (1, 1, ''[]'')] :: (nat \<times> u64 \<times> bytes) list"
  obtain fs ws where r: "run (whole_write 0 2 @ [(1, Done 0)]) (empty_fs, map start ?jobs) = Some (fs, ws)"
    "stage (hd ws) = Returned True" "ws \<noteq> []"
    by (simp add: run_simps)
  have "Returned True \<in> stage ` set ws" using r(2,3) by (metis imageI list.set_sel(1))
  with racing_writes_never_tear [OF settled_empty _ run_init [OF r(1)], of "live fs"] r(1)
  show ?thesis by (simp add: distinct_jobs_def is_view_def)
qed

text \<open>
  C19. Restarting after a crash: when every flush wrote a usage map that serialises and reads back, no
  two of them share a process id and a counter value (the flushes of one process never do), and the
  usage file was on the disk and readable before, or missing, then whatever the flushes were doing when the machine stopped,
  the next start reads the file without an error and gets the usage map of one of the flushes, or the
  one of before; and it gets one of the flushes' if one of them had returned.
\<close>

theorem restart_after_crash:
  assumes "settled fs0" and "distinct_jobs jobs" and "reachable (race_init fs0 jobs) race_step (fs, ws)"
    and "restore from_str True (live fs0) = Inr m0"
    and "list_all (\<lambda>(_, _, data). \<exists>m. to_vec m = Some data \<and> serde_roundtrip to_vec from_str m) jobs"
    and "is_view fs view"
  shows "\<exists>m. restore from_str True view = Inr m
    \<and> (m = m0 \<and> Returned True \<notin> stage ` set ws \<or> (\<exists>pid c data. (pid, c, data) \<in> set jobs \<and> to_vec m = Some data))"
proof -
  have new: ?thesis if "view FINAL_PATH \<in> (Some \<circ> snd \<circ> snd) ` set jobs"
  proof -
    from that obtain pid c data where job: "(pid, c, data) \<in> set jobs" "view FINAL_PATH = Some data" by auto
    with assms(5) obtain m where "to_vec m = Some data" "utf8_ok data" "from_str data = Some m"
      by (fastforce simp: list_all_iff serde_roundtrip_def)
    with job show ?thesis by (auto simp: restore_def from_utf8_def)
  qed
  note views = race_views [OF assms(1-3,6)]
  show ?thesis
  proof (cases "view FINAL_PATH \<in> (Some \<circ> snd \<circ> snd) ` set jobs")
    case False
    with views have "view FINAL_PATH = live fs0 FINAL_PATH" "Returned True \<notin> stage ` set ws" by auto
    with assms(4) show ?thesis by (intro exI [of _ m0]) (simp add: restore_def)
  qed (rule new)
qed

theorem restart_after_crash_witness:
  "\<exists>fs ws m. run (take 4 (whole_write 0 2)) (empty_fs, map start [(1, 0, ''{}'')]) = Some (fs, ws) \<and>
     restore (\<lambda>_. Some (\<lambda>_. None :: nat node_usage option)) True (crash_view fs (dir fs) (\<lambda>_. ''junk'')) = Inr m"
proof -
  obtain fs ws where r: "run (take 4 (whole_write 0 2)) (empty_fs, map start [(1, 0, ''{}'')]) = Some (fs, ws)"
    by (simp add: run_simps)
  let ?m = "\<lambda>_ :: string. None :: nat node_usage option"
  have "serde_roundtrip (\<lambda>_. Some ''{}'') (\<lambda>_. Some ?m) ?m" by (simp add: serde_roundtrip_def)
  moreover have "restore (\<lambda>_. Some ?m) True (live empty_fs) = Inr ?m" by (simp add: restore_def live_def empty_fs_def)
  moreover have "is_view fs (crash_view fs (dir fs) (\<lambda>_. ''junk''))" by (auto simp: is_view_def crash_dirs_def)
  ultimately show ?thesis
    using restart_after_crash [OF settled_empty _ run_init [OF r], of "\<lambda>_. Some ?m" ?m "\<lambda>_. Some ''{}''"] r
    by (auto simp: distinct_jobs_def)
qed

text \<open>
  C37. The temporary name is only as unique as the process id: two balancers in containers that share
  the directory of the usage file both have the id 1 and count from 0, so they take the same name. One
  of them then renames the file the other has just emptied, and returns \<open>Ok\<close> with an empty usage file
  in place, which is neither snapshot.
\<close>

theorem equal_process_ids_tear_the_file:
  "\<exists>fs ws. reachable (race_init empty_fs [(pid, 0, CHR ''{'' # first), (pid, 0, CHR ''{'' # second)]) race_step (fs, ws)
     \<and> stage (hd ws) = Returned True \<and> live fs FINAL_PATH = Some []"
proof -
  let ?jobs = "[(pid, 0, CHR ''{'' # first), (pid, 0, CHR ''{'' # second)] :: (nat \<times> u64 \<times> bytes) list"
  let ?n = "Suc (length first)"
  let ?sched = "take 3 (whole_write 0 ?n) @ [(1, Done 0)] @ drop 3 (whole_write 0 ?n)"
  have "\<exists>fs ws. run ?sched (empty_fs, map start ?jobs) = Some (fs, ws)
     \<and> stage (hd ws) = Returned True \<and> live fs FINAL_PATH = Some []"
    by (simp add: run_simps)
  then show ?thesis by (rule run_exists)
qed

end
