(* ===== verification/Shutdown_Race.thy ===== *)
theory Shutdown_Race
  imports Lifecycle Write_Race
begin

text \<open>
  The two flushes of a process that ends (the tail of \<open>main\<close> and \<open>start_disk_flusher\<close> in
  \<open>src/main.rs\<close>), each writing the usage file one system call at a time. \<open>Lifecycle\<close> takes the flush
  at the end as one step; here it is what it is: the periodic flusher is not stopped, so a write it has
  begun may be anywhere between its calls when the server has drained, and it may even begin another.
  The flusher is one loop, so at most one of its writes is under way. The requests, the ranking, the
  reloads and the signals are the steps of \<open>Lifecycle\<close>, and what a tick does before its write is one step
  (\<open>Flusher_Race\<close> has it node by node); the coarse file system, the component
  \<^const>\<open>disk\<close>, stays as it is, and the files are those of \<open>File_System\<close>.
\<close>

section \<open>A process that ends\<close>

text \<open>
  Two ghost components: the shared state of which the last flush took its snapshot, and what the periodic
  writes hold that were under way when the last flush began, or began after it.
\<close>

record ('l, 's, 'u, 'd) closing =
  process :: "('l, 's, 'u, 'd) system"
  mode :: phase
  volume :: fsys
  periodic :: "writer option"
  ending :: "writer option"
  at_exit :: "('l, 's, 'u, 'd) rpc_client"
  rivals :: "bytes list"

text \<open>\<open>flush_usage\<close> up to the write: the snapshot, serialised.\<close>

definition snapshot_bytes :: "('l, 's, 'u, 'd, 'm) world \<Rightarrow> ('l, 's, 'u, 'd) rpc_client \<Rightarrow> bytes option" where
  "snapshot_bytes w c = Option.bind (snapshot (all_nodes c) (nodes_usage c) (periods c)) (w_to_vec w)"

text \<open>\<open>write_atomic_async\<close> takes its number from the counter of the process.\<close>

definition begin_write :: "('l, 's, 'u, 'd, 'm) world \<Rightarrow> bytes \<Rightarrow> ('l, 's, 'u, 'd) system \<Rightarrow> writer \<times> ('l, 's, 'u, 'd) system" where
  "begin_write w data s = (start (w_pid w, write_counter s, data), s\<lparr>write_counter := write_counter s + 1\<rparr>)"

definition under_way :: "writer option \<Rightarrow> bytes list" where
  "under_way p = (case p of Some v \<Rightarrow> (if \<exists>r. stage v = Returned r then [] else [payload v]) | None \<Rightarrow> [])"

inductive closing_step ::
  "('l, 's, 'u, 'd, 'm) world \<Rightarrow> signal_source \<Rightarrow> signal_source
     \<Rightarrow> ('l, 's, 'u, 'd) closing \<Rightarrow> ('l, 's, 'u, 'd) closing \<Rightarrow> bool"
  for w :: "('l, 's, 'u, 'd, 'm) world" and ctrl_c :: signal_source and terminate :: signal_source
where
  others: "life_step w ctrl_c terminate (process x, mode x) (s', m') \<Longrightarrow> \<nexists>r. m' = Exited r \<Longrightarrow>
    disk s' = disk (process x) \<Longrightarrow> write_counter s' = write_counter (process x) \<Longrightarrow>
    closing_step w ctrl_c terminate x (x\<lparr>process := s', mode := m'\<rparr>)"
| tick: "periodic x = None \<Longrightarrow>
    Option.bind (roll_over_periods (w_cal w) now (client (process x))) publish_quota_gauges = Some c' \<Longrightarrow>
    snapshot_bytes w c' = Some data \<Longrightarrow> begin_write w data ((process x)\<lparr>client := c'\<rparr>) = (v, s') \<Longrightarrow>
    closing_step w ctrl_c terminate x (x\<lparr>process := s', periodic := Some v,
      rivals := (if ending x = None then rivals x else data # rivals x)\<rparr>)"
| tick_call: "periodic x = Some v \<Longrightarrow> writer_step a v (volume x) = Some (v', fs') \<Longrightarrow>
    closing_step w ctrl_c terminate x (x\<lparr>volume := fs', periodic := Some v'\<rparr>)"
| tick_over: "periodic x = Some v \<Longrightarrow> stage v = Returned r \<Longrightarrow>
    closing_step w ctrl_c terminate x (x\<lparr>periodic := None\<rparr>)"
| last_flush: "mode x = Draining \<Longrightarrow> inflight (process x) = [] \<Longrightarrow> ending x = None \<Longrightarrow>
    snapshot_bytes w (client (process x)) = Some data \<Longrightarrow> begin_write w data (process x) = (v, s') \<Longrightarrow>
    closing_step w ctrl_c terminate x (x\<lparr>process := s', ending := Some v, at_exit := client (process x),
      rivals := under_way (periodic x)\<rparr>)"
| last_call: "ending x = Some v \<Longrightarrow> writer_step a v (volume x) = Some (v', fs') \<Longrightarrow>
    closing_step w ctrl_c terminate x (x\<lparr>volume := fs', ending := Some v'\<rparr>)"

definition closing_init :: "('l, 's, 'u, 'd, 'm) world \<Rightarrow> fsys \<Rightarrow> ('l, 's, 'u, 'd) closing \<Rightarrow> bool" where
  "closing_init w fs x \<longleftrightarrow> sys_init w (process x) \<and> mode x = Binding \<and> volume x = fs \<and> settled fs \<and>
     disk (process x) = live fs \<and> periodic x = None \<and> ending x = None \<and> rivals x = []"

section \<open>The invariant\<close>

text \<open>The usage file of a directory, if there is one, is on the disk.\<close>

definition final_synced :: "fsys \<Rightarrow> directory \<Rightarrow> bool" where
  "final_synced fs d \<longleftrightarrow> (\<forall>i. d FINAL_PATH = Some i \<longrightarrow> durable fs i)"

definition volume_ok :: "fsys \<Rightarrow> bool" where
  "volume_ok fs \<longleftrightarrow> linked_once fs \<and> (\<forall>d \<in> set (crash_dirs fs). unaliased fs d \<and> final_synced fs d)"

text \<open>
  The numbers of the two writes: the periodic one has the last number before the last flush, or one of the
  \<open>n\<close> after it.
\<close>

definition numbered :: "nat \<Rightarrow> ('l, 's, 'u, 'd) closing \<Rightarrow> writer \<Rightarrow> bool" where
  "numbered pid x v \<longleftrightarrow> (\<exists>k n. n \<le> length (rivals x) \<and> temp v = temp_name pid (unat k) \<and>
     write_counter (process x) = k + 1 + of_nat n \<and>
     (\<forall>p. periodic x = Some p \<longrightarrow> (\<exists>j. temp p = temp_name pid (unat (j :: u64)) \<and>
        (j = k - 1 \<or> (\<exists>i. 1 \<le> i \<and> i \<le> n \<and> j = k + of_nat i)))))"

definition lands :: "('l, 's, 'u, 'd) closing \<Rightarrow> writer \<Rightarrow> bool" where
  "lands x v \<longleftrightarrow> (let datas = insert (payload v) (set (rivals x)) in
     (renamed v \<longrightarrow> shows_new (volume x) datas (dir (volume x))) \<and>
     (stage v = Returned True \<longrightarrow> (\<forall>d \<in> set (older (volume x)). shows_new (volume x) datas d)))"

definition closing_inv :: "('l, 's, 'u, 'd, 'm) world \<Rightarrow> ('l, 's, 'u, 'd) closing \<Rightarrow> bool" where
  "closing_inv w x \<longleftrightarrow> volume_ok (volume x) \<and>
     (\<forall>p. periodic x = Some p \<longrightarrow> writer_ok (volume x) p) \<and>
     (case ending x of
        None \<Rightarrow> rivals x = [] \<and>
          (\<forall>p. periodic x = Some p \<longrightarrow> temp p = temp_name (w_pid w) (unat (write_counter (process x) - 1)))
      | Some v \<Rightarrow> mode x = Draining \<and> inflight (process x) = [] \<and> writer_ok (volume x) v \<and>
          snapshot_bytes w (at_exit x) = Some (payload v) \<and> numbered (w_pid w) x v \<and> lands x v \<and>
          set (under_way (periodic x)) \<subseteq> set (rivals x))"

lemma numbered_apart:
  assumes "numbered pid x v" and "periodic x = Some p" and "length (rivals x) < 2 ^ 64"
  shows "temp p \<noteq> temp v \<and> temp p \<noteq> FINAL_PATH \<and> temp v \<noteq> FINAL_PATH"
proof -
  obtain k n j where t: "temp v = temp_name pid (unat k)" "temp p = temp_name pid (unat (j :: u64))" "n < 2 ^ 64"
    "j = k - 1 \<or> (\<exists>i. 1 \<le> i \<and> i \<le> n \<and> j = k + of_nat i)"
    using assms by (fastforce simp: numbered_def)
  have "j \<noteq> k"
  proof
    assume "j = k"
    with t(4) obtain i where "1 \<le> i" "i \<le> n" "(of_nat i :: u64) = 0" by auto
    with t(3) show False by (auto simp: of_nat_eq_0_iff word_of_nat_eq_0_iff dest: dvd_imp_le)
  qed
  then show ?thesis by (simp add: t temp_name_inj temp_name_not_final word_unat_eq_iff)
qed

lemma volume_ok_call:
  assumes vol: "volume_ok fs" and eff: "call_effect w fs w' fs'"
  shows "volume_ok fs'"
proof -
  have "final_synced fs' d" if "d \<in> set (crash_dirs fs)" for d
    using that vol eff by (auto simp: volume_ok_def call_effect_def keeps_final_def final_synced_def)
  moreover have "final_synced fs' (dir fs')"
    using calculation [of "dir fs"] eff
    by (auto simp: call_effect_def shows_new_def final_synced_def crash_dirs_def)
  ultimately have "\<forall>d \<in> set (crash_dirs fs'). final_synced fs' d"
    using eff by (auto simp: call_effect_def crash_dirs_def)
  with eff show ?thesis by (auto simp: volume_ok_def call_effect_def)
qed

lemma closing_call_effect:
  assumes "volume_ok fs" and "writer_ok fs v" and "temp v \<noteq> FINAL_PATH" and "writer_step a v fs = Some (v', fs')"
  shows "call_effect v fs v' fs'"
  using assms by (intro writer_step_effect) (auto simp: volume_ok_def)

text \<open>A call of either writer keeps what the last flush has achieved.\<close>

lemma lands_call:
  assumes lands: "lands x v" and eff: "call_effect u (volume x) u' fs'"
    and u: "payload u \<in> insert (payload v) (set (rivals x))"
    and v': "v' = v \<or> v' = u' \<and> u = v" and y: "volume y = fs'" "rivals y = rivals x"
  shows "lands y v'"
proof -
  let ?datas = "insert (payload v) (set (rivals x))"
  note new = call_effect_new [OF eff u]
  have pay: "payload v' = payload v" "stage u' = Returned True \<longrightarrow> older fs' = []"
    using v' eff by (auto simp: call_effect_def)
  have "shows_new fs' ?datas (dir fs')" if "renamed v'"
    using that v' lands new(1) by (auto simp: lands_def Let_def)
  moreover have "\<forall>d \<in> set (older fs'). shows_new fs' ?datas d" if "stage v' = Returned True"
  proof (cases "v' = v")
    case True
    with that lands have "\<forall>d \<in> set (crash_dirs (volume x)). shows_new (volume x) ?datas d"
      by (auto simp: lands_def crash_dirs_def renamed_def Let_def)
    then show ?thesis by (rule new(2))
  next
    case False
    with v' that pay(2) show ?thesis by auto
  qed
  ultimately show ?thesis using pay(1) y by (simp add: lands_def Let_def)
qed

lemma payload_call: "writer_step a v fs = Some (v', fs') \<Longrightarrow> payload v' = payload v \<and> temp v' = temp v \<and> (\<nexists>r. stage v = Returned r)"
  by (cases rule: writer_step_cases) (auto simp: writer_step_def split: stage.splits)

text \<open>Each kind of step keeps the invariant.\<close>

lemma periodic_not_final:
  assumes "closing_inv w x" and "periodic x = Some p"
  shows "temp p \<noteq> FINAL_PATH"
proof (cases "ending x")
  case None
  with assms temp_name_not_final show ?thesis by (simp add: closing_inv_def)
next
  case (Some v)
  with assms obtain j where "temp p = temp_name (w_pid w) (unat (j :: u64))"
    by (auto simp: closing_inv_def numbered_def)
  then show ?thesis by (simp add: temp_name_not_final)
qed

lemma closing_inv_others:
  assumes inv: "closing_inv w x" and life: "life_step w ctrl_c terminate (process x, mode x) (s', m')" "\<nexists>r. m' = Exited r"
    and same: "write_counter s' = write_counter (process x)"
  shows "closing_inv w (x\<lparr>process := s', mode := m'\<rparr>)"
proof (cases "ending x")
  case None
  with inv same show ?thesis by (simp add: closing_inv_def)
next
  case (Some v)
  with inv have "mode x = Draining" "inflight (process x) = []" by (simp_all add: closing_inv_def)
  with life have "m' = Draining" "inflight s' = []" by (auto elim!: life_stepE)
  with inv Some same show ?thesis by (simp add: closing_inv_def numbered_def lands_def)
qed

lemma closing_inv_tick:
  assumes inv: "closing_inv w x" and "periodic x = None" and v: "begin_write w data ((process x)\<lparr>client := c'\<rparr>) = (v, s')"
  shows "closing_inv w (x\<lparr>process := s', periodic := Some v,
    rivals := (if ending x = None then rivals x else data # rivals x)\<rparr>)"
proof -
  have s': "write_counter s' = write_counter (process x) + 1" "inflight s' = inflight (process x)"
    and v: "temp v = temp_name (w_pid w) (unat (write_counter (process x)))" "payload v = data" "stage v = Create"
    using v by (auto simp: begin_write_def)
  have vol: "volume_ok (volume x)" "writer_ok (volume x) v" using inv v(3) by (simp_all add: closing_inv_def writer_ok_def)
  show ?thesis
  proof (cases "ending x")
    case None
    with inv s' v vol show ?thesis by (simp add: closing_inv_def)
  next
    case (Some l)
    then obtain k n where n: "n \<le> length (rivals x)" "temp l = temp_name (w_pid w) (unat k)"
      "write_counter (process x) = k + 1 + of_nat n"
      using inv by (auto simp: closing_inv_def numbered_def)
    have "numbered (w_pid w) (x\<lparr>process := s', periodic := Some v, rivals := data # rivals x\<rparr>) l"
      unfolding numbered_def
      by (intro exI [of _ k] exI [of _ "Suc n"]) (use n s' v in \<open>auto intro!: exI [of _ "Suc n"]\<close>)
    moreover have "lands (x\<lparr>process := s', periodic := Some v, rivals := data # rivals x\<rparr>) l"
      using inv Some by (auto simp: closing_inv_def lands_def shows_new_def Let_def)
    ultimately show ?thesis using inv Some s' v vol by (auto simp: closing_inv_def under_way_def)
  qed
qed

lemma closing_inv_last_flush:
  assumes inv: "closing_inv w x" and "mode x = Draining" "inflight (process x) = []" "ending x = None"
    and "snapshot_bytes w (client (process x)) = Some data" and v: "begin_write w data (process x) = (v, s')"
  shows "closing_inv w (x\<lparr>process := s', ending := Some v, at_exit := client (process x),
    rivals := under_way (periodic x)\<rparr>)"
proof -
  let ?x = "x\<lparr>process := s', ending := Some v, at_exit := client (process x), rivals := under_way (periodic x)\<rparr>"
  have s': "write_counter s' = write_counter (process x) + 1" "inflight s' = inflight (process x)"
    and v: "temp v = temp_name (w_pid w) (unat (write_counter (process x)))" "payload v = data" "stage v = Create"
    using v by (auto simp: begin_write_def)
  have "numbered (w_pid w) ?x v"
    unfolding numbered_def
    by (intro exI [of _ "write_counter (process x)"] exI [of _ 0]) (use inv assms(4) s' v in \<open>auto simp: closing_inv_def\<close>)
  moreover have "lands ?x v" "writer_ok (volume x) v" using v(3) by (simp_all add: lands_def renamed_def writer_ok_def)
  ultimately show ?thesis using inv assms(2-5) s' v by (simp add: closing_inv_def)
qed

lemma closing_inv_tick_call:
  assumes inv: "closing_inv w x" and p: "periodic x = Some v" and step: "writer_step a v (volume x) = Some (v', fs')"
    and few: "length (rivals x) < 2 ^ 64"
  shows "closing_inv w (x\<lparr>volume := fs', periodic := Some v'\<rparr>)"
proof -
  let ?x = "x\<lparr>volume := fs', periodic := Some v'\<rparr>"
  have vol: "volume_ok (volume x)" "writer_ok (volume x) v" using inv p by (simp_all add: closing_inv_def)
  have eff: "call_effect v (volume x) v' fs'"
    by (rule closing_call_effect [OF vol periodic_not_final [OF inv p] step])
  have vol': "volume_ok fs'" "writer_ok fs' v'" using volume_ok_call [OF vol(1) eff] eff by (simp_all add: call_effect_def)
  note same = payload_call [OF step]
  show ?thesis
  proof (cases "ending x")
    case None
    with inv p vol' same show ?thesis by (simp add: closing_inv_def)
  next
    case (Some l)
    with inv p have l: "numbered (w_pid w) x l" "lands x l" "writer_ok (volume x) l" "payload v \<in> set (rivals x)"
      using same by (auto simp: closing_inv_def under_way_def)
    have "writer_ok fs' l" using eff l(3) numbered_apart [OF l(1) p few] by (auto simp: call_effect_def)
    moreover have "lands ?x l"
      using l(4) by (intro lands_call [OF l(2) eff, of l]) simp_all
    moreover have "numbered (w_pid w) ?x l" using l(1) p same by (simp add: numbered_def)
    ultimately show ?thesis using inv Some vol' same l(4) by (auto simp: closing_inv_def under_way_def)
  qed
qed

lemma closing_inv_last_call:
  assumes inv: "closing_inv w x" and e: "ending x = Some v" and step: "writer_step a v (volume x) = Some (v', fs')"
    and few: "length (rivals x) < 2 ^ 64"
  shows "closing_inv w (x\<lparr>volume := fs', ending := Some v'\<rparr>)"
proof -
  let ?x = "x\<lparr>volume := fs', ending := Some v'\<rparr>"
  have vol: "volume_ok (volume x)" "writer_ok (volume x) v" and v: "numbered (w_pid w) x v" "lands x v"
    using inv e by (simp_all add: closing_inv_def)
  have "temp v \<noteq> FINAL_PATH" using v(1) temp_name_not_final by (metis numbered_def)
  with vol step have eff: "call_effect v (volume x) v' fs'" by (intro closing_call_effect)
  have vol': "volume_ok fs'" "writer_ok fs' v'" using volume_ok_call [OF vol(1) eff] eff by (simp_all add: call_effect_def)
  note same = payload_call [OF step]
  have "writer_ok fs' p" if "periodic x = Some p" for p
    using that inv eff numbered_apart [OF v(1) that few] by (auto simp: closing_inv_def call_effect_def)
  moreover have "lands ?x v'"
    by (intro lands_call [OF v(2) eff, of v']) simp_all
  moreover have "numbered (w_pid w) ?x v'" using v(1) same by (simp add: numbered_def)
  ultimately show ?thesis using inv e vol' same by (simp add: closing_inv_def)
qed

lemma closing_inv_step:
  assumes inv: "closing_inv w x" and step: "closing_step w ctrl_c terminate x x'" and few: "length (rivals x) < 2 ^ 64"
  shows "closing_inv w x'"
  using step
proof cases
  case (others s' m')
  with closing_inv_others [OF inv] show ?thesis by simp
next
  case (tick now c' data v s')
  with closing_inv_tick [OF inv] show ?thesis by simp
next
  case (tick_call v a v' fs')
  with closing_inv_tick_call [OF inv _ _ few] show ?thesis by simp
next
  case (tick_over v r)
  with inv show ?thesis by (auto simp: closing_inv_def under_way_def numbered_def lands_def split: option.splits)
next
  case (last_flush data v s')
  with closing_inv_last_flush [OF inv] show ?thesis by simp
next
  case (last_call v a v' fs')
  with closing_inv_last_call [OF inv _ _ few] show ?thesis by simp
qed

lemma closing_inv_init: "closing_init w fs x \<Longrightarrow> closing_inv w x"
  by (auto simp: closing_init_def closing_inv_def volume_ok_def settled_def crash_dirs_def unaliased_def
      linked_once_def final_synced_def)

text \<open>The bound on the rivals only keeps the 64-bit numbers of the writes apart.\<close>

definition few_rivals :: "('l, 's, 'u, 'd) closing \<Rightarrow> bool" where
  "few_rivals x \<longleftrightarrow> length (rivals x) < 2 ^ 64"

definition rivals_later :: "('l, 's, 'u, 'd) closing \<Rightarrow> bool" where
  "rivals_later x \<longleftrightarrow> (ending x = None \<longrightarrow> rivals x = [])"

lemma closing_rivals:
  assumes "closing_step w ctrl_c terminate x x'" and "rivals_later x"
  shows "rivals_later x' \<and> (few_rivals x' \<longrightarrow> few_rivals x)"
  using assms by cases (auto simp: rivals_later_def few_rivals_def)

interpretation shutdown: invariant_machine "closing_init w fs" "closing_step w ctrl_c terminate"
  "\<lambda>x. rivals_later x \<and> (few_rivals x \<longrightarrow> closing_inv w x)" for w fs ctrl_c terminate
proof
  fix x :: "('a, 'b, 'c, 'd) closing" assume "closing_init w fs x"
  then show "rivals_later x \<and> (few_rivals x \<longrightarrow> closing_inv w x)"
    using closing_inv_init by (auto simp: rivals_later_def closing_init_def)
next
  fix x x' :: "('a, 'b, 'c, 'd) closing"
  assume "rivals_later x \<and> (few_rivals x \<longrightarrow> closing_inv w x)" and step: "closing_step w ctrl_c terminate x x'"
  with closing_rivals [OF step] closing_inv_step [OF _ step] show "rivals_later x' \<and> (few_rivals x' \<longrightarrow> closing_inv w x')"
    by (auto simp: few_rivals_def)
qed

section \<open>What the process leaves behind\<close>

lemma is_view_dir:
  assumes "is_view fs view"
  obtains d where "d \<in> set (crash_dirs fs)" "\<And>datas. shows_new fs datas d \<Longrightarrow> view FINAL_PATH \<in> Some ` datas"
  using assms unfolding is_view_def
proof (elim disjE exE conjE)
  assume "view = live fs"
  then show ?thesis by (intro that [of "dir fs"]) (simp_all add: crash_dirs_def shows_live)
next
  fix d junk assume "d \<in> set (crash_dirs fs)" "view = crash_view fs d junk"
  then show ?thesis by (intro that [of d]) (simp_all add: shows_crash_view)
qed

lemma last_flush_view:
  assumes "closing_inv w x" and "ending x = Some v" and "stage v = Returned True" and "is_view (volume x) view"
  shows "view FINAL_PATH = Some (payload v) \<or> view FINAL_PATH \<in> Some ` set (rivals x)"
proof -
  obtain d where d: "d \<in> set (crash_dirs (volume x))"
    and v: "\<And>datas. shows_new (volume x) datas d \<Longrightarrow> view FINAL_PATH \<in> Some ` datas"
    using assms(4) by (rule is_view_dir) (rule that)
  have "shows_new (volume x) (insert (payload v) (set (rivals x))) d"
    using assms(1-3) d by (auto simp: closing_inv_def lands_def renamed_def crash_dirs_def Let_def)
  from v [OF this] show ?thesis by auto
qed

lemma closing_reachable_inv:
  assumes "reachable (closing_init w fs) (closing_step w ctrl_c terminate) x" and "length (rivals x) < 2 ^ 64"
  shows "closing_inv w x"
  using shutdown.invar_reachable [OF assms(1)] assms(2) by (simp add: few_rivals_def)

text \<open>A call of the last write, and the last write up to its rename, every call a success.\<close>

lemma last_call_reachable:
  assumes "reachable I (closing_step w ctrl_c terminate) (x\<lparr>volume := fs, ending := Some v\<rparr>)"
    and "writer_step a v fs = Some (v', fs')"
  shows "reachable I (closing_step w ctrl_c terminate) (x\<lparr>volume := fs', ending := Some v'\<rparr>)"
  using reachable_step [OF assms(1) last_call [of _ v a v' fs']] assms(2) by simp

lemma tick_call_reachable:
  assumes "reachable I (closing_step w ctrl_c terminate) (x\<lparr>volume := fs, periodic := Some v, ending := e\<rparr>)"
    and "writer_step a v fs = Some (v', fs')"
  shows "reachable I (closing_step w ctrl_c terminate) (x\<lparr>volume := fs', periodic := Some v', ending := e\<rparr>)"
proof -
  have "x\<lparr>ending := e, volume := fs', periodic := Some v'\<rparr> = x\<lparr>volume := fs', periodic := Some v', ending := e\<rparr>"
    by (cases x) simp
  with reachable_step [OF assms(1) tick_call [of _ v a v' fs']] assms(2) show ?thesis by simp
qed

definition calls :: "writer \<times> fsys \<Rightarrow> writer \<times> fsys \<Rightarrow> bool" where
  "calls x y \<longleftrightarrow> (\<exists>a. writer_step a (fst x) (snd x) = Some y)"

lemma last_calls_reachable:
  assumes "calls\<^sup>*\<^sup>* (v, fs) (v', fs')"
    and "reachable I (closing_step w ctrl_c terminate) (x\<lparr>volume := fs, ending := Some v\<rparr>)"
  shows "reachable I (closing_step w ctrl_c terminate) (x\<lparr>volume := fs', ending := Some v'\<rparr>)"
  using assms by (induction rule: rtranclp_induct2) (auto simp: calls_def intro: last_call_reachable)

lemma tick_calls_reachable:
  assumes "calls\<^sup>*\<^sup>* (v, fs) (v', fs')"
    and "reachable I (closing_step w ctrl_c terminate) (x\<lparr>volume := fs, periodic := Some v, ending := e\<rparr>)"
  shows "reachable I (closing_step w ctrl_c terminate) (x\<lparr>volume := fs', periodic := Some v', ending := e\<rparr>)"
  using assms by (induction rule: rtranclp_induct2) (auto simp: calls_def intro: tick_call_reachable)

lemma calls_to_rename:
  assumes v: "stage v = Create"
  shows "\<exists>fs' i. calls\<^sup>*\<^sup>* (v, fs) (v\<lparr>stage := Rename i\<rparr>, fs')"
proof -
  let ?n = "length (payload v)"
  obtain i fs1 where "create_file (temp v) fs = (i, fs1)" by (metis surj_pair)
  then have "writer_step (Done 0) v fs = Some (v\<lparr>stage := Write i 0\<rparr>, fs1)" using v by (simp add: writer_step_def)
  then have "calls (v, fs) (v\<lparr>stage := Write i 0\<rparr>, fs1)" by (auto simp: calls_def)
  then have one: "calls\<^sup>*\<^sup>* (v, fs) (v\<lparr>stage := Write i 0\<rparr>, fs1)" by (rule r_into_rtranclp)
  have "\<exists>fs2. calls\<^sup>*\<^sup>* (v, fs) (v\<lparr>stage := Write i ?n\<rparr>, fs2)"
  proof (cases "payload v = []")
    case True
    with one show ?thesis by auto
  next
    case False
    then have "writer_step (Done ?n) (v\<lparr>stage := Write i 0\<rparr>) fs1 =
        Some (v\<lparr>stage := Write i ?n\<rparr>, set_contents i (pwrite 0 (payload v) (contents fs1 i)) fs1)"
      by (simp add: writer_step_def Let_def)
    then have "calls (v\<lparr>stage := Write i 0\<rparr>, fs1)
        (v\<lparr>stage := Write i ?n\<rparr>, set_contents i (pwrite 0 (payload v) (contents fs1 i)) fs1)" by (auto simp: calls_def)
    with one show ?thesis by (blast intro: rtranclp.rtrancl_into_rtrancl)
  qed
  then obtain fs2 where two: "calls\<^sup>*\<^sup>* (v, fs) (v\<lparr>stage := Write i ?n\<rparr>, fs2)" by blast
  have "writer_step (Done 0) (v\<lparr>stage := Write i ?n\<rparr>) fs2 =
      Some (v\<lparr>stage := Rename i\<rparr>, fs2\<lparr>durable := (durable fs2)(i := True)\<rparr>)"
    by (simp add: writer_step_def)
  then have "calls (v\<lparr>stage := Write i ?n\<rparr>, fs2) (v\<lparr>stage := Rename i\<rparr>, fs2\<lparr>durable := (durable fs2)(i := True)\<rparr>)"
    by (auto simp: calls_def)
  with two show ?thesis by (blast intro: rtranclp.rtrancl_into_rtrancl)
qed

text \<open>The calls at the end of a write, when the file is where it was left.\<close>

lemma rename_call:
  "stage v = Rename i \<Longrightarrow> writer_ok fs v \<Longrightarrow>
     writer_step (Done 0) v fs = Some (v\<lparr>stage := SyncDir\<rparr>, relink ((dir fs)(temp v := None, FINAL_PATH \<mapsto> i)) fs)
     \<and> live (relink ((dir fs)(temp v := None, FINAL_PATH \<mapsto> i)) fs) FINAL_PATH = Some (payload v)"
  by (auto simp: writer_step_def writer_ok_def live_def relink_def)

lemma sync_call: "writer_step (Done 0) (v\<lparr>stage := SyncDir\<rparr>) fs = Some (v\<lparr>stage := Returned True\<rparr>, fs\<lparr>older := []\<rparr>)"
  by (simp add: writer_step_def)

section \<open>A concrete shutdown\<close>

text \<open>One node, every method of which costs 7, and a serialisation that tells a spent node from one that is not.\<close>

definition flat_provider :: raw_provider where
  "flat_provider = \<lparr>raw_routing = [], raw_custom = None,
     raw_limits_table = Some \<lparr>raw_spillover_percent = None, raw_unknown_method_cost = Some 7\<rparr>\<rparr>"

definition two_marks :: "gdate usage_map \<Rightarrow> bytes option" where
  "two_marks m = Some (case m ''a'' of Some e \<Rightarrow> if used e = 0 then ''0'' else ''7'' | None \<Rightarrow> ''0'')"

definition racing_world :: "(string \<Rightarrow> gdate usage_map option) \<Rightarrow> (nat, nat, string, gdate, gmonth) world" where
  "racing_world from_str = demo_world\<lparr>w_to_vec := two_marks, w_from_str := from_str\<rparr>"

definition shows_spend :: "u64 \<Rightarrow> (nat, nat, string, gdate) rpc_client \<Rightarrow> bool" where
  "shows_spend u c \<longleftrightarrow> t_all (topo c) = [0] \<and> periods c ''a'' \<noteq> None \<and>
     (\<exists>n. cells c = [n] \<and> node_name n = ''a'' \<and> nodes_usage c ! node_id n = u)"

definition flat_client :: "(nat, nat, string, gdate) rpc_client \<Rightarrow> bool" where
  "flat_client c \<longleftrightarrow> client_wf c \<and> shows_spend 0 c \<and> t_ranked (topo c) = [0] \<and> custom_methods c = CustomMethods_default \<and>
     until_s (cells c ! 0) = 0 \<and> costs (method_costs (cells c ! 0)) = replicate Count 7 \<and>
     limits (cells c ! 0) = \<lparr>rate_limiting = 5, concurrency = 2\<rparr>"

lemma flat_build:
  "\<exists>node. build_nodes demo_api (\<lambda>_. Some flat_provider)
     [\<lparr>cn_name = ''a'', cn_url = ''http://a'', cn_tier = 1, cn_rps_limit = 5, cn_max_concurrent = 2,
       cn_monthly_limit = u64_MAX, cn_provider_pricing_path = ''p.toml'', cn_reset_day = 1\<rparr>]
     CustomMethods_default = (Inr [node], CustomMethods_default) \<and> node_name node = ''a'' \<and> until_s node = 0 \<and>
     costs (method_costs node) = replicate Count 7 \<and> limits node = \<lparr>rate_limiting = 5, concurrency = 2\<rparr>"
  by (simp add: build_node_def load_from_path_def parse_file_def deserialize_provider_def deserialize_limits_def
      flat_provider_def default_spillover_percent_def DEFAULT_SPILLOVER_PERCENT_def RpcNode_new_def demo_api_def
      ProviderCostTable_new_def register_def table_size_def CustomMethods_default_def Let_def)

lemma flat_startup:
  "\<exists>srv c. flat_client c \<and> (\<forall>from_str. startup demo_api demo_cal from_str [''CONFIG_PATH'' \<mapsto> ''c''] (\<lambda>_. Some demo_raw)
     (\<lambda>_. Some flat_provider) True True True (\<lambda>_. None) 0 = Inr (srv, c))"
proof -
  let ?from_str = "\<lambda>_ :: string. None :: gdate usage_map option"
  obtain node where b: "build_nodes demo_api (\<lambda>_. Some flat_provider)
     [\<lparr>cn_name = ''a'', cn_url = ''http://a'', cn_tier = 1, cn_rps_limit = 5, cn_max_concurrent = 2,
       cn_monthly_limit = u64_MAX, cn_provider_pricing_path = ''p.toml'', cn_reset_day = 1\<rparr>]
     CustomMethods_default = (Inr [node], CustomMethods_default)"
    and n: "node_name node = ''a''" "until_s node = 0" "costs (method_costs node) = replicate Count 7"
      "limits node = \<lparr>rate_limiting = 5, concurrency = 2\<rparr>" using flat_build by blast
  have "restore ?from_str True (\<lambda>_. None) = Inr (\<lambda>_. None)" by (simp add: restore_def)
  from startup_single [OF demo_settings_load _ _ this, of demo_api "\<lambda>_. Some flat_provider" node CustomMethods_default demo_cal 0] b
  obtain srv c i where st: "startup demo_api demo_cal ?from_str [''CONFIG_PATH'' \<mapsto> ''c''] (\<lambda>_. Some demo_raw)
       (\<lambda>_. Some flat_provider) True True True (\<lambda>_. None) 0 = Inr (srv, c)"
    and c: "cells c = [node\<lparr>node_id := i\<rparr>]" "topo c = Topology_new [node\<lparr>node_id := i\<rparr>] [0]"
      "custom_methods c = CustomMethods_default" by auto
  have all: "all_nodes c = [node\<lparr>node_id := i\<rparr>]" by (simp add: all_nodes_def c Topology_new_def)
  have "calendar_ok demo_cal gnum UNIV" unfolding demo_cal_def by (rule gregorian_ok)
  from startup_ready [OF this UNIV_I st] all have "client_wf c" "nodes_usage c ! i = 0" "periods c ''a'' \<noteq> None"
    using n(1) by (auto simp: restore_def starts_from_def)
  then have "flat_client c" using c n by (simp add: flat_client_def shows_spend_def Topology_new_def rank_def)
  moreover have "startup demo_api demo_cal from_str [''CONFIG_PATH'' \<mapsto> ''c''] (\<lambda>_. Some demo_raw)
       (\<lambda>_. Some flat_provider) True True True (\<lambda>_. None) 0 = Inr (srv, c)" for from_str
  proof -
    have "restore from_str True (\<lambda>_. None) = restore ?from_str True (\<lambda>_. None)" by (simp add: restore_def)
    with st show ?thesis by (simp only: startup_def)
  qed
  ultimately show ?thesis by blast
qed

lemma flat_snapshot:
  assumes "client_wf c" and "shows_spend u c"
  shows "snapshot_bytes (racing_world from_str) c = Some (if u = 0 then ''0'' else ''7'')"
proof -
  from assms obtain n where n: "cells c = [n]" "node_name n = ''a''" "nodes_usage c ! node_id n = u"
    and c: "client_wf c" "t_all (topo c) = [0]" "periods c ''a'' \<noteq> None" by (auto simp: shows_spend_def)
  have "spend (all_nodes c) (nodes_usage c) ''a'' = Some u"
    using n c(2) by (simp add: spend_Some_iff all_nodes_def)
  with c(3) show ?thesis
    by (auto simp: snapshot_bytes_def snapshot_entries_seen [OF c(1)] racing_world_def two_marks_def entry_seen_def)
qed

lemma flat_tick:
  assumes "flat_client c"
  shows "\<exists>c'. Option.bind (roll_over_periods demo_cal 0 c) publish_quota_gauges = Some c' \<and> flat_client c'"
proof -
  from assms obtain n where n: "cells c = [n]" "node_name n = ''a''" "nodes_usage c ! node_id n = 0"
    and c: "client_wf c" "t_all (topo c) = [0]" "periods c ''a'' \<noteq> None"
    by (auto simp: flat_client_def shows_spend_def)
  have all: "all_nodes c = [n]" using n c(2) by (simp add: all_nodes_def)
  from roll_over_periods_total [OF c(1), of demo_cal 0] all obtain q ps where
    r: "roll_over_periods demo_cal 0 c = Some (c\<lparr>nodes_usage := q, periods := ps\<rparr>)" "quota_ok q"
      "ps ''a'' = period_after demo_cal (date_of demo_cal 0) (periods c) n" "q ! node_id n = 0"
    using n by (auto split: if_splits)
  have ps: "ps ''a'' \<noteq> None" using r(3) c(3) n(2) by (auto simp: period_after_def split: option.splits)
  have wf: "client_wf (c\<lparr>nodes_usage := q, periods := ps\<rparr>)"
    using usage_update_evolves [OF c(1) r(2)] by (simp add: evolves_def)
  then obtain c' where p: "publish_quota_gauges (c\<lparr>nodes_usage := q, periods := ps\<rparr>) = Some c'"
    using publish_quota_gauges_total by blast
  then obtain ops where "c' = emit ops (c\<lparr>nodes_usage := q, periods := ps\<rparr>)" by (auto simp: publish_quota_gauges_def)
  with assms wf r(4) ps n have "flat_client c'" by (simp add: flat_client_def shows_spend_def)
  with r(1) p show ?thesis by auto
qed

text \<open>A request is sent to the node and given up: it is billed, and the permit goes back.\<close>

lemma flat_visit:
  assumes "flat_client c" and mid: "mid < Count" and st: "tried st = 0"
  shows "\<exists>c1. visit demo_api 0 0 mid now_s 0 st c = Some (st\<lparr>tried := 2 ^ node_id (cells c ! 0), pc := Attempting 0\<rparr>, c1) \<and> shows_spend 7 c1"
proof -
  from assms obtain n where n: "cells c = [n]" "node_name n = ''a''" "until_s n = 0" "costs (method_costs n) = replicate Count 7"
      "limits n = \<lparr>rate_limiting = 5, concurrency = 2\<rparr>" "nodes_usage c ! node_id n = 0"
    and c: "client_wf c" "t_all (topo c) = [0]" "periods c ''a'' \<noteq> None" by (auto simp: flat_client_def shows_spend_def)
  have i: "node_id n < 64" "node_id n < length (nodes_usage c)" using client_wf_slot [OF c(1), of 0] n(1) by simp_all
  have "cost (method_costs n) mid = 7" using mid n(4) by (simp add: cost_def)
  then show ?thesis
    using n i st c
    by (simp add: visit_def slot_bit_def admit_def try_admit_def check_rate_def book_def demo_api_def is_penalized_def
        set_semaphore_def set_limiter_def set_cell_def quota_simps shows_spend_def Let_def)
qed

lemma flat_request:
  assumes flat: "flat_client c" and mid: "mid < Count"
  shows "\<exists>st1 c1 st2 c2. route_step demo_api wire E mid now_s (Go 0 0) (begin_round (topo c) route_init, c) = Some (st1, c1)
    \<and> pc st1 = Attempting 0 \<and> expire demo_api st1 c1 = (st2, c2) \<and> client_wf c2 \<and> shows_spend 7 c2"
proof -
  let ?st = "begin_round (topo c) route_init"
  have wf: "client_wf c" and rem: "remaining ?st = [0]" "pc ?st = Walking" "tried (?st\<lparr>remaining := []\<rparr>) = 0"
    using flat by (simp_all add: flat_client_def begin_round_def route_init_def)
  define bt :: u64 where "bt = 2 ^ node_id (cells c ! 0)"
  obtain c1 where v: "visit demo_api 0 0 mid now_s 0 (?st\<lparr>remaining := []\<rparr>) c =
      Some (?st\<lparr>remaining := [], tried := bt, pc := Attempting 0\<rparr>, c1)" and c1: "shows_spend 7 c1"
    using flat_visit [OF flat mid rem(3)] unfolding bt_def by blast
  define st1 where "st1 = ?st\<lparr>remaining := [], tried := bt, pc := Attempting 0\<rparr>"
  have step: "route_step demo_api wire E mid now_s (Go 0 0) (?st, c) = Some (st1, c1)"
    using v rem by (simp add: route_step_pc or_panic_def st1_def)
  obtain st2 c2 where e: "expire demo_api st1 c1 = (st2, c2)" by (metis surj_pair)
  then have gone: "route_step demo_api wire E mid now_s Expire (st1, c1) = Some (st2, c2)"
    by (simp add: route_step_pc st1_def)
  have "step_effect id mid ?st c st1 c1"
    by (rule route_step_effect [OF demo_semaphore_ok wf begin_round_wf [OF wf] step])
  then have "client_wf c1" "route_wf c1 st1" by (simp_all add: step_effect_def evolves_def)
  from route_step_effect [OF demo_semaphore_ok this gone] have "client_wf c2" by (simp add: step_effect_def evolves_def)
  moreover have "c2 = release demo_api 0 c1" using e by (auto simp: expire_def st1_def)
  then have "shows_spend 7 c2"
    using c1 by (auto simp: shows_spend_def release_def set_cell_def drop_permit_def set_semaphore_def)
  ultimately show ?thesis using step e by (auto simp: st1_def)
qed

lemma others_reachable:
  assumes "reachable I (closing_step w ctrl_c terminate) x" and "life_step w ctrl_c terminate (process x, mode x) (s', m')"
    and "m' = Serving \<or> m' = Draining" and "disk s' = disk (process x)" and "write_counter s' = write_counter (process x)"
  shows "reachable I (closing_step w ctrl_c terminate) (x\<lparr>process := s', mode := m'\<rparr>)"
  by (rule reachable_step [OF assms(1) others]) (use assms(2-5) in auto)

text \<open>The process serves, with no tick yet.\<close>

lemma racing_serving:
  "\<exists>s. flat_client (client s) \<and> inflight s = [] \<and> (\<forall>from_str.
     reachable (closing_init (racing_world from_str) empty_fs) (closing_step (racing_world from_str) pressed uninstalled)
       \<lparr>process = s, mode = Serving, volume = empty_fs, periodic = None, ending = None, at_exit = client s, rivals = []\<rparr>)"
proof -
  obtain srv c where st: "\<And>from_str. startup demo_api demo_cal from_str [''CONFIG_PATH'' \<mapsto> ''c''] (\<lambda>_. Some demo_raw)
     (\<lambda>_. Some flat_provider) True True True (\<lambda>_. None) 0 = Inr (srv, c)" and flat: "flat_client c"
    using flat_startup by blast
  define s where "s = \<lparr>client = c, inflight = [], disk = (\<lambda>_. None), write_counter = 0, startup_server = srv, caps = [2]\<rparr>"
  have "\<exists>config. Settings_load [''CONFIG_PATH'' \<mapsto> ''c''] (\<lambda>_. Some demo_raw) = Inr config \<and> [2] = map cn_max_concurrent (nodes config)"
    by (simp add: demo_settings_load)
  with st have "sys_init (racing_world from_str) s" for from_str
    unfolding sys_init_def s_def racing_world_def demo_world_def by fastforce
  moreover have "live empty_fs = (\<lambda>_. None)" by (simp add: live_def empty_fs_def)
  ultimately have init: "closing_init (racing_world from_str) empty_fs
      \<lparr>process = s, mode = Binding, volume = empty_fs, periodic = None, ending = None, at_exit = client s, rivals = []\<rparr>" for from_str
    by (simp add: closing_init_def settled_empty s_def)
  have "reachable (closing_init (racing_world from_str) empty_fs) (closing_step (racing_world from_str) pressed uninstalled)
       \<lparr>process = s, mode = Serving, volume = empty_fs, periodic = None, ending = None, at_exit = client s, rivals = []\<rparr>" for from_str
    using others_reachable [OF reachable_init [of "closing_init (racing_world from_str) empty_fs", OF init],
        of "racing_world from_str" pressed uninstalled s Serving] by (simp add: bound)
  with flat show ?thesis by (intro exI [of _ s]) (simp add: s_def)
qed

text \<open>Meanwhile a request is billed, and its client hangs up.\<close>

definition quietly :: "('l, 's, 'u, 'd, 'm) world \<Rightarrow> ('l, 's, 'u, 'd) system \<Rightarrow> ('l, 's, 'u, 'd) system \<Rightarrow> bool" where
  "quietly w s s' \<longleftrightarrow> sys_step w s s' \<and> disk s' = disk s \<and> write_counter s' = write_counter s"

lemma quietly_reachable:
  assumes "(quietly w)\<^sup>*\<^sup>* (process x) s'" and "reachable I (closing_step w ctrl_c terminate) x" and "mode x = Serving"
  shows "reachable I (closing_step w ctrl_c terminate) (x\<lparr>process := s'\<rparr>)"
  using assms(1)
proof (induction rule: rtranclp_induct)
  case base
  with assms(2) show ?case by simp
next
  case (step s s')
  have "x\<lparr>process := s', mode := Serving\<rparr> = x\<lparr>process := s'\<rparr>" using assms(3) by (cases x) simp
  with others_reachable [OF step.IH, of s' Serving] step.hyps(2) assms(3) show ?case
    by (simp add: quietly_def serve)
qed

lemma racing_request:
  assumes flat: "flat_client (client s)" and "inflight s = []"
  shows "\<exists>s'. (quietly (racing_world from_str))\<^sup>*\<^sup>* s s' \<and> inflight s' = [] \<and> client_wf (client s') \<and> shows_spend 7 (client s')"
proof -
  let ?w = "racing_world from_str" and ?c = "client s"
  let ?body = \<open>''{"method":"x"}''\<close>
  define mid where "mid = resolve (custom_methods ?c) ''x''"
  have w: "w_api ?w = demo_api" "w_wire ?w = demo_wire" "w_lib ?w = demo_lib" "w_epoch ?w = 0"
    by (simp_all add: racing_world_def demo_world_def)
  have "extract_method demo_lib ?body = Inr ''x''" by code_simp
  then obtain rq where rq: "send_begin demo_lib 0 0 ?body ?c = rq" "rq_method_id rq = mid" "rq_route rq = route_init"
    by (simp add: send_begin_def dispatch_def mid_def)
  have "lookup CustomMethods_default ''x'' = None" by (simp add: lookup_def CustomMethods_default_def)
  then have "resolve CustomMethods_default ''x'' < Count"
    using Unknown_lt_Count by (cases rule: resolve_cases [OF registry_ok_default, of "''x''"]) simp_all
  then have "mid < Count" using flat by (simp add: mid_def flat_client_def)
  from flat_request [OF flat this, of demo_wire 0 "rq_now_s rq"] obtain st1 c1 st2 c2 where
    r: "route_step demo_api demo_wire 0 mid (rq_now_s rq) (Go 0 0) (begin_round (topo ?c) route_init, ?c) = Some (st1, c1)"
      "pc st1 = Attempting 0" "expire demo_api st1 c1 = (st2, c2)" "client_wf c2" "shows_spend 7 c2" by blast
  let ?s1 = "s\<lparr>inflight := [rq]\<rparr>"
  let ?s2 = "s\<lparr>inflight := [rq\<lparr>rq_route := begin_round (topo ?c) route_init\<rparr>]\<rparr>"
  let ?s3 = "s\<lparr>client := c1, inflight := [rq\<lparr>rq_route := st1\<rparr>]\<rparr>"
  let ?s4 = "s\<lparr>client := c2, inflight := []\<rparr>"
  have "quietly ?w s ?s1"
    using arrive [of ?w s 0 ?body] assms(2) rq(1) by (simp add: quietly_def w)
  moreover have "route_step demo_api demo_wire 0 mid (rq_now_s rq) (Go 0 0) (route_init, ?c) = Some (begin_round (topo ?c) route_init, ?c)"
    by (simp add: route_step_pc route_init_def)
  then have "quietly ?w ?s1 ?s2"
    using advance [of 0 ?s1 rq ?w "Go 0 0"] rq by (simp add: quietly_def w)
  moreover have "quietly ?w ?s2 ?s3"
    using advance [of 0 ?s2 _ ?w "Go 0 0", OF _ refl] rq r(1) by (simp add: quietly_def w)
  moreover have "quietly ?w ?s3 ?s4"
    using hang_up [of 0 ?s3 _ ?w, OF _ refl] r(2,3) by (simp add: quietly_def w remove_nth_def)
  ultimately have "(quietly ?w)\<^sup>*\<^sup>* s ?s4" by (meson converse_rtranclp_into_rtranclp rtranclp.rtrancl_refl)
  with r(4,5) show ?thesis by (intro exI [of _ ?s4]) simp
qed

lemma pressed_signal: "shutdown_signal pressed uninstalled \<noteq> None"
  by (simp add: shutdown_signal_def handler_done_def pressed_def uninstalled_def)

text \<open>The signal comes while a periodic write stands before its rename and a request has been billed since.\<close>

lemma racing_drained:
  "\<exists>x p i. reachable (closing_init (racing_world from_str) empty_fs) (closing_step (racing_world from_str) pressed uninstalled) x
     \<and> mode x = Draining \<and> inflight (process x) = [] \<and> ending x = None \<and> periodic x = Some p \<and> stage p = Rename i
     \<and> payload p = ''0'' \<and> snapshot_bytes (racing_world from_str) (client (process x)) = Some ''7''"
proof -
  let ?w = "racing_world from_str"
  let ?R = "reachable (closing_init ?w empty_fs) (closing_step ?w pressed uninstalled)"
  obtain s where s: "flat_client (client s)" "inflight s = []"
    and r: "?R \<lparr>process = s, mode = Serving, volume = empty_fs, periodic = None, ending = None, at_exit = client s, rivals = []\<rparr>"
    using racing_serving by blast
  obtain c where c: "Option.bind (roll_over_periods (w_cal ?w) 0 (client s)) publish_quota_gauges = Some c" "flat_client c"
    using flat_tick [OF s(1)] by (auto simp: racing_world_def demo_world_def)
  obtain v s1 where b: "begin_write ?w ''0'' (s\<lparr>client := c\<rparr>) = (v, s1)" by (metis surj_pair)
  then have v: "stage v = Create" "payload v = ''0''" "client s1 = c" "inflight s1 = []"
    using s(2) by (auto simp: begin_write_def)
  have "snapshot_bytes ?w c = Some ''0''" using flat_snapshot [of c 0] c(2) by (simp add: flat_client_def)
  then have "closing_step ?w pressed uninstalled
      \<lparr>process = s, mode = Serving, volume = empty_fs, periodic = None, ending = None, at_exit = client s, rivals = []\<rparr>
      \<lparr>process = s1, mode = Serving, volume = empty_fs, periodic = Some v, ending = None, at_exit = client s, rivals = []\<rparr>"
    using tick [where x = "\<lparr>process = s, mode = Serving, volume = empty_fs, periodic = None, ending = None, at_exit = client s, rivals = []\<rparr>"
        and w = ?w and now = 0 and c' = c and data = "''0''" and v = v and s' = s1] c(1) b by simp
  from reachable_step [OF r this]
  have one: "?R \<lparr>process = s1, mode = Serving, volume = empty_fs, periodic = Some v, ending = None, at_exit = client s, rivals = []\<rparr>" .
  obtain fs1 i where "calls\<^sup>*\<^sup>* (v, empty_fs) (v\<lparr>stage := Rename i\<rparr>, fs1)" using calls_to_rename [OF v(1)] by blast
  from tick_calls_reachable [OF this, of "closing_init ?w empty_fs" ?w pressed uninstalled, where e = None
      and x = "\<lparr>process = s1, mode = Serving, volume = empty_fs, periodic = Some v, ending = None, at_exit = client s, rivals = []\<rparr>"] one
  have two: "?R \<lparr>process = s1, mode = Serving, volume = fs1, periodic = Some (v\<lparr>stage := Rename i\<rparr>), ending = None,
      at_exit = client s, rivals = []\<rparr>" by simp
  define x where "x = \<lparr>process = s1, mode = Serving, volume = fs1, periodic = Some (v\<lparr>stage := Rename i\<rparr>), ending = None,
      at_exit = client s, rivals = []\<rparr>"
  with two have "?R x" by simp
  then have "?R (x\<lparr>process := s2\<rparr>)" if "(quietly ?w)\<^sup>*\<^sup>* (process x) s2" for s2
    using quietly_reachable [OF that] by (simp add: x_def)
  moreover obtain s2 where q: "(quietly ?w)\<^sup>*\<^sup>* (process x) s2" "inflight s2 = []" "client_wf (client s2)" "shows_spend 7 (client s2)"
    using racing_request [of s1 from_str] c(2) v by (auto simp: x_def)
  ultimately have "?R (x\<lparr>process := s2\<rparr>)" by blast
  from others_reachable [OF this, of s2 Draining] have "?R (x\<lparr>process := s2, mode := Draining\<rparr>)"
    using pressed_signal by (simp add: signalled x_def)
  moreover have "snapshot_bytes ?w (client s2) = Some ''7''" using flat_snapshot [OF q(3,4)] by simp
  ultimately show ?thesis using q(2) v(2)
    by (intro exI [of _ "x\<lparr>process := s2, mode := Draining\<rparr>"]) (simp add: x_def)
qed

text \<open>The signal comes between two ticks, and the last flush is made.\<close>

lemma quiet_shutdown:
  "\<exists>c. client_wf c \<and> (\<forall>from_str. \<exists>x v. at_exit x = c \<and> rivals x = [] \<and> ending x = Some v \<and> stage v = Returned True \<and>
     reachable (closing_init (racing_world from_str) empty_fs) (closing_step (racing_world from_str) pressed uninstalled) x)"
proof -
  obtain s where s: "flat_client (client s)" "inflight s = []"
    and r: "\<And>f. reachable (closing_init (racing_world f) empty_fs) (closing_step (racing_world f) pressed uninstalled)
      \<lparr>process = s, mode = Serving, volume = empty_fs, periodic = None, ending = None, at_exit = client s, rivals = []\<rparr>"
    using racing_serving by blast
  have "\<exists>x v. at_exit x = client s \<and> rivals x = [] \<and> ending x = Some v \<and> stage v = Returned True \<and>
     reachable (closing_init (racing_world f) empty_fs) (closing_step (racing_world f) pressed uninstalled) x" for f
  proof -
    let ?w = "racing_world f"
    let ?R = "reachable (closing_init ?w empty_fs) (closing_step ?w pressed uninstalled)"
    have one: "?R \<lparr>process = s, mode = Draining, volume = empty_fs, periodic = None, ending = None, at_exit = client s, rivals = []\<rparr>"
      using others_reachable [OF r [of f], of s Draining] pressed_signal by (simp add: signalled)
    have "snapshot_bytes ?w (client s) = Some ''0''" using flat_snapshot [of "client s" 0] s(1) by (simp add: flat_client_def)
    moreover obtain v s1 where b: "begin_write ?w ''0'' s = (v, s1)" by (metis surj_pair)
    ultimately have "?R \<lparr>process = s1, mode = Draining, volume = empty_fs, periodic = None, ending = Some v, at_exit = client s, rivals = []\<rparr>"
      using reachable_step [OF one last_flush [of _ ?w]] s(2) by (simp add: under_way_def)
    then have two: "?R (\<lparr>process = s1, mode = Draining, volume = empty_fs, periodic = None, ending = None, at_exit = client s, rivals = []\<rparr>
        \<lparr>volume := empty_fs, ending := Some v\<rparr>)" (is "?R (?x\<lparr>volume := _, ending := _\<rparr>)") by simp
    have "stage v = Create" using b by (auto simp: begin_write_def)
    then obtain fs1 i where "calls\<^sup>*\<^sup>* (v, empty_fs) (v\<lparr>stage := Rename i\<rparr>, fs1)" using calls_to_rename by blast
    note three = last_calls_reachable [OF this two]
    then have "writer_ok fs1 (v\<lparr>stage := Rename i\<rparr>)" using closing_reachable_inv [OF three] by (simp add: closing_inv_def)
    with rename_call have "\<exists>fs2. writer_step (Done 0) (v\<lparr>stage := Rename i\<rparr>) fs1 = Some (v\<lparr>stage := SyncDir\<rparr>, fs2)"
      by fastforce
    then obtain fs2 where "writer_step (Done 0) (v\<lparr>stage := Rename i\<rparr>) fs1 = Some (v\<lparr>stage := SyncDir\<rparr>, fs2)" by blast
    from last_call_reachable [OF last_call_reachable [OF three this] sync_call] show ?thesis
      by (intro exI [of _ "?x\<lparr>volume := fs2\<lparr>older := []\<rparr>, ending := Some (v\<lparr>stage := Returned True\<rparr>)\<rparr>"]) simp
  qed
  with s(1) show ?thesis by (auto simp: flat_client_def)
qed

section \<open>Properties\<close>

text \<open>
  C18. What a process leaves behind when it ends. Whatever the periodic flusher, the requests, the reloads and
  the file system do: once the flush at the end has returned \<open>Ok\<close>, no request is in flight, and the usage
  file, live or after a crash at any moment from then on, is the complete snapshot that this flush took after the
  last request, or the complete snapshot of a periodic write that was under way when it began or began after
  it (of which there are fewer than 2 to the 64). When there was none, which is the case unless the flush at the end meets the one that is made once a
  minute, the next start reads exactly the last snapshot, if that serialises and reads back.
\<close>

theorem last_flush_lands:
  assumes "reachable (closing_init w fs) (closing_step w ctrl_c terminate) x"
    and "ending x = Some v" and "stage v = Returned True" and "length (rivals x) < 2 ^ 64"
    and "is_view (volume x) view"
    and "\<And>m. snapshot (all_nodes (at_exit x)) (nodes_usage (at_exit x)) (periods (at_exit x)) = Some m \<Longrightarrow>
      serde_roundtrip (w_to_vec w) (w_from_str w) m"
  shows "inflight (process x) = [] \<and>
    (\<exists>m. snapshot (all_nodes (at_exit x)) (nodes_usage (at_exit x)) (periods (at_exit x)) = Some m \<and>
       (view FINAL_PATH = w_to_vec w m \<or> view FINAL_PATH \<in> Some ` set (rivals x)) \<and>
       (rivals x = [] \<longrightarrow> restore (w_from_str w) True view = Inr m))"
proof -
  have inv: "closing_inv w x" by (rule closing_reachable_inv [OF assms(1,4)])
  then obtain m where m: "snapshot (all_nodes (at_exit x)) (nodes_usage (at_exit x)) (periods (at_exit x)) = Some m"
    "w_to_vec w m = Some (payload v)" "inflight (process x) = []"
    using assms(2) by (auto simp: closing_inv_def snapshot_bytes_def bind_eq_Some_conv)
  have view: "view FINAL_PATH = w_to_vec w m \<or> view FINAL_PATH \<in> Some ` set (rivals x)"
    using last_flush_view [OF inv assms(2,3,5)] m(2) by simp
  moreover have "restore (w_from_str w) True view = Inr m" if "rivals x = []"
    using that view m(2) assms(6) [OF m(1)] by (auto simp: serde_roundtrip_def restore_def from_utf8_def)
  ultimately show ?thesis using m by blast
qed

theorem last_flush_lands_witness:
  "\<exists>from_str (x :: (nat, nat, string, gdate) closing) v m. ending x = Some v \<and> stage v = Returned True \<and> inflight (process x) = [] \<and>
     snapshot (all_nodes (at_exit x)) (nodes_usage (at_exit x)) (periods (at_exit x)) = Some (m :: gdate usage_map) \<and>
     restore from_str True (live (volume x)) = Inr m"
proof -
  obtain c where wf: "client_wf c" and run: "\<And>from_str. \<exists>x v. at_exit x = c \<and> rivals x = [] \<and> ending x = Some v \<and>
     stage v = Returned True \<and>
     reachable (closing_init (racing_world from_str) empty_fs) (closing_step (racing_world from_str) pressed uninstalled) x"
    using quiet_shutdown by blast
  define from_str where "from_str = (\<lambda>_ :: string. snapshot (all_nodes c) (nodes_usage c) (periods c))"
  obtain x v where x: "at_exit x = c" "rivals x = []" "ending x = Some v" "stage v = Returned True"
    and r: "reachable (closing_init (racing_world from_str) empty_fs) (closing_step (racing_world from_str) pressed uninstalled) x"
    using run by blast
  have "serde_roundtrip (w_to_vec (racing_world from_str)) (w_from_str (racing_world from_str)) m"
    if "snapshot (all_nodes c) (nodes_usage c) (periods c) = Some m" for m
    using that by (auto simp: serde_roundtrip_def racing_world_def two_marks_def from_str_def split: option.split)
  then obtain m where "inflight (process x) = []" "snapshot (all_nodes c) (nodes_usage c) (periods c) = Some m"
    "restore from_str True (live (volume x)) = Inr m"
    using last_flush_lands [OF r x(3,4), of "live (volume x)"] x(1,2) by (auto simp: is_view_def racing_world_def)
  with x show ?thesis by (intro exI [of _ from_str] exI [of _ x] exI [of _ v] exI [of _ m]) simp
qed

text \<open>
  C36. The order in which the two flushes take effect is not the order in which they took their snapshots.
  Whenever the server has drained while a periodic write stands before its rename, with a snapshot that is
  not the current one, there is a way for the process to end in which both flushes return \<open>Ok\<close>, the last one
  has written the current snapshot, and the usage file holds the other: what was spent in between is lost.
  Nothing but the order of the calls is needed for it: no failure and no crash.
\<close>

theorem stale_flush_overwrites_newer:
  assumes r: "reachable (closing_init w fs) (closing_step w ctrl_c terminate) x"
    and "mode x = Draining" and "inflight (process x) = []" and "ending x = None"
    and p: "periodic x = Some p" "stage p = Rename i"
    and "snapshot_bytes w (client (process x)) = Some data"
  shows "\<exists>y v p'. reachable (closing_init w fs) (closing_step w ctrl_c terminate) y
    \<and> client (process y) = client (process x) \<and> inflight (process y) = []
    \<and> ending y = Some v \<and> stage v = Returned True \<and> payload v = data
    \<and> periodic y = Some p' \<and> stage p' = Returned True \<and> payload p' = payload p
    \<and> live (volume y) FINAL_PATH = Some (payload p)"
proof -
  let ?R = "reachable (closing_init w fs) (closing_step w ctrl_c terminate)"
  obtain v s' where b: "begin_write w data (process x) = (v, s')" by (metis surj_pair)
  then have v: "stage v = Create" "payload v = data" "client s' = client (process x)" "inflight s' = []"
    using assms(3) by (auto simp: begin_write_def)
  define y where "y = x\<lparr>process := s', at_exit := client (process x), rivals := under_way (periodic x)\<rparr>"
  have y: "client (process y) = client (process x)" "inflight (process y) = []" "periodic y = Some p"
    "length (rivals y) < 2 ^ 64" using v p by (simp_all add: y_def under_way_def)
  note ok = closing_reachable_inv [THEN closing_inv_def [THEN iffD1]]
  have "x\<lparr>process := s', ending := Some v, at_exit := client (process x), rivals := under_way (periodic x)\<rparr>
      = y\<lparr>volume := volume x, ending := Some v\<rparr>"
    by (cases x) (simp add: y_def)
  with reachable_step [OF r last_flush [OF assms(2-4,7) b]] have "?R (y\<lparr>volume := volume x, ending := Some v\<rparr>)" by simp
  moreover obtain fs1 j where "calls\<^sup>*\<^sup>* (v, volume x) (v\<lparr>stage := Rename j\<rparr>, fs1)" using calls_to_rename [OF v(1)] by blast
  ultimately have one: "?R (y\<lparr>volume := fs1, ending := Some (v\<lparr>stage := Rename j\<rparr>)\<rparr>)"
    by (rule last_calls_reachable [rotated])
  have "writer_ok fs1 (v\<lparr>stage := Rename j\<rparr>)" using ok [OF one] y(4) by simp
  from last_call_reachable [OF one rename_call [OF _ this, THEN conjunct1]] obtain fs2 where
    "?R (y\<lparr>volume := fs2, ending := Some (v\<lparr>stage := SyncDir\<rparr>)\<rparr>)" by auto
  moreover have "y\<lparr>volume := g, ending := e\<rparr> = y\<lparr>volume := g, periodic := Some p, ending := e\<rparr>" for g e
    using y(3) by (cases y) simp
  ultimately have two: "?R (y\<lparr>volume := fs2, periodic := Some p, ending := Some (v\<lparr>stage := SyncDir\<rparr>)\<rparr>)" by simp
  have "writer_ok fs2 p" using ok [OF two] y(4) by simp
  note rn = rename_call [OF p(2) this]
  let ?fs3 = "relink ((dir fs2)(temp p := None, FINAL_PATH \<mapsto> i)) fs2"
  let ?y = "\<lambda>g p' v'. y\<lparr>volume := g, periodic := Some p', ending := Some v'\<rparr>"
  have swap: "y\<lparr>periodic := q, volume := g, ending := e\<rparr> = y\<lparr>volume := g, periodic := q, ending := e\<rparr>" for q g e
    by (cases y) simp
  have "?R (?y ?fs3 (p\<lparr>stage := SyncDir\<rparr>) (v\<lparr>stage := SyncDir\<rparr>))" by (rule tick_call_reachable [OF two rn [THEN conjunct1]])
  then have "?R (?y (?fs3\<lparr>older := []\<rparr>) (p\<lparr>stage := SyncDir\<rparr>) (v\<lparr>stage := Returned True\<rparr>))"
    using last_call_reachable [OF _ sync_call, where x = "y\<lparr>periodic := Some (p\<lparr>stage := SyncDir\<rparr>)\<rparr>" and fs = ?fs3]
    by (simp add: swap)
  from tick_call_reachable [OF this sync_call]
  have "?R (?y (?fs3\<lparr>older := []\<rparr>) (p\<lparr>stage := Returned True\<rparr>) (v\<lparr>stage := Returned True\<rparr>))" by simp
  with y v rn show ?thesis
    by (intro exI [of _ "?y (?fs3\<lparr>older := []\<rparr>) (p\<lparr>stage := Returned True\<rparr>) (v\<lparr>stage := Returned True\<rparr>)"]) simp
qed

theorem stale_flush_overwrites_newer_witness:
  "\<exists>y v. reachable (closing_init (racing_world (\<lambda>_. None)) empty_fs)
       (closing_step (racing_world (\<lambda>_. None)) pressed uninstalled) y
     \<and> snapshot_bytes (racing_world (\<lambda>_. None)) (client (process y)) = Some ''7''
     \<and> ending y = Some v \<and> stage v = Returned True \<and> payload v = ''7'' \<and> live (volume y) FINAL_PATH = Some ''0''"
proof -
  obtain x p i where x: "reachable (closing_init (racing_world (\<lambda>_. None)) empty_fs)
       (closing_step (racing_world (\<lambda>_. None)) pressed uninstalled) x"
    "mode x = Draining" "inflight (process x) = []" "ending x = None" "periodic x = Some p" "stage p = Rename i"
    "payload p = ''0''" "snapshot_bytes (racing_world (\<lambda>_. None)) (client (process x)) = Some ''7''"
    using racing_drained by blast
  from stale_flush_overwrites_newer [OF x(1-6,8)] x(7,8) show ?thesis by metis
qed

end
