(* ===== verification/Node_Race.thy ===== *)
theory Node_Race
  imports Router
begin

text \<open>
  What several requests do to one node at the granularity of its atomics. \<open>book\<close> of
  \<open>src/core/router.rs\<close> reads the counter and adds the price in two atomic operations, and
  \<open>observe_answer\<close> of \<open>src/core/node.rs\<close> is a load and a store of the latency followed by a load and a
  store of the penalty. Elsewhere in the development each of them is one step; here the requests that
  hold a permit of the node interleave between those operations, and what is proved covers every order.
\<close>

section \<open>Booking in two steps\<close>

definition book_check :: "('l, 's, 'u) rpc_node \<Rightarrow> nat \<Rightarrow> u64 \<Rightarrow> skip_reason + u64" where
  "book_check node method_id used_now =
     (if spillover_threshold node < used_now then Inl SkipQuotaExhausted
      else let method_cost = cost (method_costs node) method_id
           in if method_cost = u32_MAX then Inl SkipMethodUnsupported else Inr (ucast method_cost))"

lemma book_is_check_then_add:
  "book api m r c =
     (case counter_get (nodes_usage c) (node_id (cells c ! r)) of
        None \<Rightarrow> None
      | Some u \<Rightarrow>
          (case book_check (cells c ! r) m u of
             Inl why \<Rightarrow> Some (Skip, release api r (skip_node why r c))
           | Inr v \<Rightarrow>
               map_option (\<lambda>q. (Ready, c\<lparr>nodes_usage := q\<rparr>)) (counter_add (nodes_usage c) (node_id (cells c ! r)) v)))"
  by (simp add: book_def book_check_def Let_def split: option.splits)

text \<open>
  The cells on one quota slot and the requests that hold a permit of one of them, each with its cell and
  its place in \<open>book\<close>. A reload gives the node of the slot a new cell with permits of its own, while
  requests on the topology from before go on with the old cell and bill the same slot. A request that
  the rate limiter turns away gives its permit back before it gets there. A cell that no request can
  reach any more is retired. The ghost components are the largest number of permits there has been
  at one time, the value of the counter when it was last set and the prices added since.
\<close>

datatype booker = Checking nat | Adding u64 | Running

record ('l, 's, 'u) share =
  sh_node :: "('l, 's, 'u) rpc_node"
  sh_cap :: nat
  sh_free :: nat

record ('l, 's, 'u) pool =
  bank :: quota_state
  shares :: "('l, 's, 'u) share list"
  bookers :: "(nat \<times> booker) list"
  peak :: nat
  base :: nat
  billed :: "u64 list"

definition take_out :: "nat \<Rightarrow> ('l, 's, 'u) share list \<Rightarrow> ('l, 's, 'u) share list" where
  "take_out g ss = ss[g := (ss ! g)\<lparr>sh_free := sh_free (ss ! g) - 1\<rparr>]"

definition give_back :: "nat \<Rightarrow> ('l, 's, 'u) share list \<Rightarrow> ('l, 's, 'u) share list" where
  "give_back g ss = ss[g := (ss ! g)\<lparr>sh_free := Suc (sh_free (ss ! g))\<rparr>]"

abbreviation all_permits :: "('l, 's, 'u) share list \<Rightarrow> nat" where
  "all_permits ss \<equiv> sum_list (map sh_cap ss)"

inductive pool_step :: "nat \<Rightarrow> ('l, 's, 'u) pool \<Rightarrow> ('l, 's, 'u) pool \<Rightarrow> bool" for i :: nat where
  acquired: "g < length (shares p) \<Longrightarrow> 0 < sh_free (shares p ! g) \<Longrightarrow>
    pool_step i p (p\<lparr>shares := take_out g (shares p), bookers := bookers p @ [(g, Checking m)]\<rparr>)"
| limited: "bookers p = xs @ (g, Checking m) # ys \<Longrightarrow>
    pool_step i p (p\<lparr>shares := give_back g (shares p), bookers := xs @ ys\<rparr>)"
| refused: "bookers p = xs @ (g, Checking m) # ys \<Longrightarrow> counter_get (bank p) i = Some u \<Longrightarrow>
    book_check (sh_node (shares p ! g)) m u = Inl why \<Longrightarrow>
    pool_step i p (p\<lparr>shares := give_back g (shares p), bookers := xs @ ys\<rparr>)"
| checked: "bookers p = xs @ (g, Checking m) # ys \<Longrightarrow> counter_get (bank p) i = Some u \<Longrightarrow>
    book_check (sh_node (shares p ! g)) m u = Inr v \<Longrightarrow> pool_step i p (p\<lparr>bookers := xs @ (g, Adding v) # ys\<rparr>)"
| added: "bookers p = xs @ (g, Adding v) # ys \<Longrightarrow> counter_add (bank p) i v = Some q \<Longrightarrow>
    pool_step i p (p\<lparr>bank := q, bookers := xs @ (g, Running) # ys, billed := v # billed p\<rparr>)"
| dropped: "bookers p = xs @ (g, Running) # ys \<Longrightarrow>
    pool_step i p (p\<lparr>shares := give_back g (shares p), bookers := xs @ ys\<rparr>)"
| reset: "counter_set (bank p) i 0 = Some q \<Longrightarrow> pool_step i p (p\<lparr>bank := q, base := 0, billed := []\<rparr>)"
| elsewhere: "j \<noteq> i \<Longrightarrow> j < length (bank p) \<Longrightarrow> pool_step i p (p\<lparr>bank := (bank p)[j := x]\<rparr>)"
| reloaded: "node_id node = i \<Longrightarrow>
    pool_step i p (p\<lparr>shares := shares p @ [\<lparr>sh_node = node, sh_cap = cap, sh_free = cap\<rparr>],
      peak := max (peak p) (all_permits (shares p) + cap)\<rparr>)"
| retired: "g < length (shares p) \<Longrightarrow> sh_free (shares p ! g) = sh_cap (shares p ! g) \<Longrightarrow>
    pool_step i p (p\<lparr>shares := (shares p)[g := (shares p ! g)\<lparr>sh_cap := 0, sh_free := 0\<rparr>]\<rparr>)"

definition pool_init :: "nat \<Rightarrow> quota_state \<Rightarrow> ('l, 's, 'u) pool \<Rightarrow> bool" where
  "pool_init i q p \<longleftrightarrow>
     p = \<lparr>bank = q, shares = [], bookers = [], peak = 0, base = unat (q ! i), billed = []\<rparr>"

fun pending :: "booker \<Rightarrow> nat" where
  "pending (Adding v) = unat v"
| "pending _ = 0"

text \<open>No method of the node costs more than \<open>dearest\<close>.\<close>

definition priced_below :: "('l, 's, 'u) rpc_node \<Rightarrow> nat \<Rightarrow> bool" where
  "priced_below node dearest \<longleftrightarrow>
     (\<forall>m. cost (method_costs node) m \<noteq> u32_MAX \<longrightarrow> unat (cost (method_costs node) m) \<le> dearest)"

text \<open>Every cell the slot has had spills over at \<open>limit\<close> at the latest and costs at most \<open>dearest\<close>.\<close>

definition within_limits :: "nat \<Rightarrow> nat \<Rightarrow> ('l, 's, 'u) pool \<Rightarrow> bool" where
  "within_limits limit dearest p \<longleftrightarrow> limit + peak p * dearest < 2 ^ 64 \<and>
     list_all (\<lambda>n. unat (spillover_threshold n) \<le> limit \<and> priced_below n dearest) (map sh_node (shares p))"

section \<open>Permits of several cells\<close>

definition out_on :: "nat \<Rightarrow> (nat \<times> booker) list \<Rightarrow> nat" where
  "out_on g bs = length (filter (\<lambda>(h, _). h = g) bs)"

lemma out_on_simps [simp]:
  "out_on g [] = 0" "out_on g ((h, b) # bs) = (if h = g then Suc (out_on g bs) else out_on g bs)"
  "out_on g (xs @ ys) = out_on g xs + out_on g ys"
  by (simp_all add: out_on_def)

definition permits_ok :: "('l, 's, 'u) pool \<Rightarrow> bool" where
  "permits_ok p \<longleftrightarrow>
     (\<forall>g < length (shares p). sh_free (shares p ! g) + out_on g (bookers p) = sh_cap (shares p ! g)) \<and>
     (\<forall>(g, b) \<in> set (bookers p). g < length (shares p)) \<and>
     sum_list (map sh_free (shares p)) + length (bookers p) = all_permits (shares p) \<and>
     all_permits (shares p) \<le> peak p"

lemma sum_map_update:
  assumes "g < length xs"
  shows "sum_list (map f (xs[g := y])) + f (xs ! g) = sum_list (map f xs) + (f y :: nat)"
proof -
  have "sum_list (map f xs) = sum_list (map f (take g xs)) + f (xs ! g) + sum_list (map f (drop (Suc g) xs))"
    by (subst (1) id_take_nth_drop [OF assms]) (simp del: take_map drop_map)
  then show ?thesis by (simp add: upd_conv_take_nth_drop [OF assms] del: take_map drop_map)
qed

lemma shares_upd:
  "map sh_cap (ss[g := (ss ! g)\<lparr>sh_free := k\<rparr>]) = map sh_cap ss"
  "map sh_node (ss[g := (ss ! g)\<lparr>sh_free := k\<rparr>]) = map sh_node ss"
  "map sh_node (ss[g := (ss ! g)\<lparr>sh_cap := 0, sh_free := 0\<rparr>]) = map sh_node ss"
  by (cases "g < length ss"; simp add: map_update list_update_same_conv list_update_beyond not_less)+

lemma shares_caps:
  "map sh_cap (give_back g ss) = map sh_cap ss" "map sh_cap (take_out g ss) = map sh_cap ss"
  "map sh_node (give_back g ss) = map sh_node ss" "map sh_node (take_out g ss) = map sh_node ss"
  "length (take_out g ss) = length ss" "length (give_back g ss) = length ss"
  by (simp_all add: take_out_def give_back_def shares_upd)

lemma permits_give_back:
  assumes ok: "permits_ok p" and bs: "bookers p = xs @ (g, b) # ys"
  shows "permits_ok (p\<lparr>shares := give_back g (shares p), bookers := xs @ ys\<rparr>)"
proof -
  have g: "g < length (shares p)" using ok bs by (auto simp: permits_ok_def)
  have "sum_list (map sh_free (give_back g (shares p))) = Suc (sum_list (map sh_free (shares p)))"
    using sum_map_update [OF g, of sh_free "(shares p ! g)\<lparr>sh_free := Suc (sh_free (shares p ! g))\<rparr>"]
    by (simp add: give_back_def)
  moreover have "sh_free (give_back g (shares p) ! h) = (if h = g then Suc (sh_free (shares p ! g)) else sh_free (shares p ! h))"
    "sh_cap (give_back g (shares p) ! h) = sh_cap (shares p ! h)" if "h < length (shares p)" for h
    using that g by (auto simp: give_back_def nth_list_update)
  ultimately show ?thesis using ok bs by (fastforce simp: permits_ok_def shares_caps)
qed

lemma permits_take_out:
  assumes ok: "permits_ok p" and g: "g < length (shares p)" "0 < sh_free (shares p ! g)"
  shows "permits_ok (p\<lparr>shares := take_out g (shares p), bookers := bookers p @ [(g, b)]\<rparr>)"
proof -
  have "Suc (sum_list (map sh_free (take_out g (shares p)))) = sum_list (map sh_free (shares p))"
    using sum_map_update [OF g(1), of sh_free "(shares p ! g)\<lparr>sh_free := sh_free (shares p ! g) - 1\<rparr>"] g(2)
    by (simp add: take_out_def)
  moreover have "sh_free (take_out g (shares p) ! h) = (if h = g then sh_free (shares p ! g) - 1 else sh_free (shares p ! h))"
    "sh_cap (take_out g (shares p) ! h) = sh_cap (shares p ! h)" if "h < length (shares p)" for h
    using that g by (auto simp: take_out_def nth_list_update)
  ultimately show ?thesis using ok g by (fastforce simp: permits_ok_def shares_caps)
qed

lemma permits_retire:
  assumes ok: "permits_ok p" and g: "g < length (shares p)" "sh_free (shares p ! g) = sh_cap (shares p ! g)"
  shows "permits_ok (p\<lparr>shares := (shares p)[g := (shares p ! g)\<lparr>sh_cap := 0, sh_free := 0\<rparr>]\<rparr>)"
proof -
  let ?s = "(shares p ! g)\<lparr>sh_cap := 0, sh_free := 0\<rparr>"
  have "out_on g (bookers p) = 0" using ok g by (auto simp: permits_ok_def)
  then show ?thesis
    using ok g(2) sum_map_update [OF g(1), of sh_free ?s] sum_map_update [OF g(1), of sh_cap ?s]
    by (auto simp: permits_ok_def nth_list_update g(1))
qed

lemma permits_ok_step:
  assumes ok: "permits_ok p" and step: "pool_step i p p'"
  shows "permits_ok p'"
  using step
proof cases
  case (acquired g m)
  with permits_take_out [OF ok] show ?thesis by simp
next
  case (limited xs g m ys)
  with permits_give_back [OF ok] show ?thesis by simp
next
  case (refused xs g m ys u why)
  with permits_give_back [OF ok] show ?thesis by simp
next
  case (dropped xs g ys)
  with permits_give_back [OF ok] show ?thesis by simp
next
  case (reloaded node cap)
  have "g < length (shares p)" if "(g, b) \<in> set (bookers p)" for g b using ok that by (auto simp: permits_ok_def)
  then have "out_on (length (shares p)) (bookers p) = 0" by (fastforce simp: out_on_def filter_empty_conv)
  with ok reloaded show ?thesis by (fastforce simp: permits_ok_def nth_append less_Suc_eq)
next
  case (retired g)
  with permits_retire [OF ok] show ?thesis by simp
qed (use ok in \<open>auto simp: permits_ok_def\<close>)

section \<open>The bound on the counter\<close>

definition pool_inv :: "nat \<Rightarrow> quota_state \<Rightarrow> nat \<Rightarrow> nat \<Rightarrow> ('l, 's, 'u) pool \<Rightarrow> bool" where
  "pool_inv i q0 limit dearest p \<longleftrightarrow>
     i < length (bank p) \<and> permits_ok p \<and> (\<forall>(g, b) \<in> set (bookers p). pending b \<le> dearest) \<and>
     unat (bank p ! i) = base p + sum_list (map unat (billed p)) \<and>
     unat (bank p ! i) + sum_list (map (pending \<circ> snd) (bookers p)) \<le> max (unat (q0 ! i)) (limit + peak p * dearest)"

lemma book_check_Inr:
  assumes "priced_below node dearest" and "book_check node m u = Inr v"
  shows "unat u \<le> unat (spillover_threshold node) \<and> unat v \<le> dearest"
proof -
  have "unat (ucast x :: u64) = unat x" for x :: u32
  proof -
    have "unat x < 2 ^ LENGTH(32)" by (rule unsigned_less)
    also have "2 ^ LENGTH(32) \<le> (2 ^ LENGTH(64) :: nat)" by simp
    finally show ?thesis unfolding unsigned_ucast_eq by (rule take_bit_nat_eq_self)
  qed
  with assms show ?thesis
    by (auto simp: book_check_def priced_below_def Let_def not_less word_le_nat_alt split: if_splits)
qed

lemma pending_total:
  "\<forall>(g, b) \<in> set bs. pending b \<le> dearest \<Longrightarrow> sum_list (map (pending \<circ> snd) bs) \<le> length bs * dearest"
  by (induction bs) auto

lemma peak_ceiling: "limit + peak p * dearest \<le> limit + max (peak p) n * (dearest :: nat)"
  by (intro add_left_mono mult_le_mono1) simp

lemma within_limits_back:
  assumes "pool_step i p p'" and lim: "within_limits limit dearest p'"
  shows "within_limits limit dearest p"
  using assms(1)
proof cases
  case (reloaded node cap)
  have "limit + peak p * dearest < 2 ^ 64"
    using le_less_trans [OF peak_ceiling [of limit p dearest "all_permits (shares p) + cap"]] lim reloaded(1)
    by (simp add: within_limits_def)
  with lim reloaded show ?thesis by (simp add: within_limits_def)
next
  case (retired g)
  with lim show ?thesis by (simp add: within_limits_def shares_upd)
qed (use lim in \<open>simp_all add: within_limits_def shares_caps\<close>)

lemma pool_inv_step:
  assumes inv: "pool_inv i q0 limit dearest p" and step: "pool_step i p p'"
    and lim: "within_limits limit dearest p"
  shows "pool_inv i q0 limit dearest p'"
proof -
  have ok: "permits_ok p" and slot: "i < length (bank p)"
    and pend: "\<forall>(g, b) \<in> set (bookers p). pending b \<le> dearest"
    and eq: "unat (bank p ! i) = base p + sum_list (map unat (billed p))"
    and bound: "unat (bank p ! i) + sum_list (map (pending \<circ> snd) (bookers p)) \<le> max (unat (q0 ! i)) (limit + peak p * dearest)"
    using inv by (auto simp: pool_inv_def)
  have ok': "permits_ok p'" by (rule permits_ok_step [OF ok step])
  show ?thesis
    using step
  proof cases
    case (checked xs g m ys u v)
    have u: "u = bank p ! i" using checked(3) by (simp add: quota_simps split: if_splits)
    have "shares p ! g \<in> set (shares p)" using ok checked(2) by (auto simp: permits_ok_def)
    then have le: "unat u \<le> limit" "unat v \<le> dearest"
      using book_check_Inr [OF _ checked(4), of dearest] lim by (force simp: within_limits_def list_all_iff)+
    have "sum_list (map (pending \<circ> snd) (xs @ ys)) \<le> length (xs @ ys) * dearest"
      using pend checked(2) by (intro pending_total) auto
    moreover have "Suc (length (xs @ ys)) \<le> peak p" using ok checked(2) by (auto simp: permits_ok_def)
    then have "Suc (length (xs @ ys)) * dearest \<le> peak p * dearest" by (rule mult_le_mono1)
    ultimately have "unat u + sum_list (map (pending \<circ> snd) (xs @ (g, Adding v) # ys)) \<le> limit + peak p * dearest"
      using le by simp
    with checked u le(2) ok' slot pend eq show ?thesis by (auto simp: pool_inv_def)
  next
    case (added xs g v ys q)
    have q: "q = (bank p)[i := bank p ! i + v]" using added(3) by (auto simp: quota_simps split: if_splits)
    let ?u = "unat (bank p ! i)"
    have b: "?u + (unat v + sum_list (map (pending \<circ> snd) (xs @ ys))) \<le> max (unat (q0 ! i)) (limit + peak p * dearest)"
      using bound added(2) by simp
    moreover have "unat (q0 ! i) < 2 ^ 64" by simp
    ultimately have "?u + unat v < 2 ^ 64" using lim unfolding within_limits_def by linarith
    then have "unat (bank p ! i + v) = ?u + unat v" by (simp add: unat_add_lem [symmetric])
    with added q slot b ok' pend eq show ?thesis by (auto simp: pool_inv_def)
  next
    case (reset q)
    then show ?thesis using ok' slot pend bound by (auto simp: pool_inv_def quota_simps split: if_splits)
  next
    case (reloaded node cap)
    have "max (unat (q0 ! i)) (limit + peak p * dearest) \<le> max (unat (q0 ! i)) (limit + peak p' * dearest)"
      using peak_ceiling [of limit p dearest] reloaded(1) by (intro max.mono) simp_all
    with bound have "unat (bank p ! i) + sum_list (map (pending \<circ> snd) (bookers p))
        \<le> max (unat (q0 ! i)) (limit + peak p' * dearest)" by (rule order_trans)
    with ok' slot pend eq show ?thesis unfolding pool_inv_def reloaded(1) by simp
  qed (use ok' slot pend eq bound in \<open>auto simp: pool_inv_def\<close>)
qed

interpretation bookings: invariant_machine "pool_init i q" "pool_step i"
  "\<lambda>p. i < length q \<and> within_limits limit dearest p \<longrightarrow> pool_inv i q limit dearest p" for i q limit dearest
proof
  fix p :: "('a, 'b, 'c) pool" assume "pool_init i q p"
  then show "i < length q \<and> within_limits limit dearest p \<longrightarrow> pool_inv i q limit dearest p"
    by (simp add: pool_init_def pool_inv_def permits_ok_def)
qed (use pool_inv_step within_limits_back in blast)

section \<open>Averaging in four steps\<close>

datatype observer = LoadLatency | StoreLatency u32 | LoadPenalty | ClearPenalty | Observed

fun observe_step :: "duration \<Rightarrow> observer \<Rightarrow> ('l, 's, 'u) rpc_node \<Rightarrow> observer \<times> ('l, 's, 'u) rpc_node" where
  "observe_step round_trip LoadLatency node = (StoreLatency (next_ema (ema_us node) (sample_us round_trip)), node)"
| "observe_step round_trip (StoreLatency next_us) node = (LoadPenalty, node\<lparr>ema_us := next_us\<rparr>)"
| "observe_step round_trip LoadPenalty node = (if until_s node \<noteq> 0 then ClearPenalty else Observed, node)"
| "observe_step round_trip ClearPenalty node = (Observed, node\<lparr>until_s := 0\<rparr>)"
| "observe_step round_trip Observed node = (Observed, node)"

lemma observe_answer_is_four_steps:
  "((\<lambda>(ob, n). observe_step d ob n) ^^ 4) (LoadLatency, node) = (Observed, observe_answer d node)"
  by (simp add: eval_nat_numeral observe_answer_def Let_def)

text \<open>Answers and failures of one node in any order; a failure is one atomic swap.\<close>

inductive health_step ::
  "('l, 's, 'u) rpc_node \<times> (duration \<times> observer) list \<Rightarrow> ('l, 's, 'u) rpc_node \<times> (duration \<times> observer) list \<Rightarrow> bool"
where
  observing: "i < length obs \<Longrightarrow> obs ! i = (d, ob) \<Longrightarrow> observe_step d ob node = (ob', node') \<Longrightarrow>
    health_step (node, obs) (node', obs[i := (d, ob')])"
| failing: "health_step (node, obs) (penalize now_s retry_after_s node, obs)"

definition health_init ::
  "('l, 's, 'u) rpc_node \<Rightarrow> duration list \<Rightarrow> ('l, 's, 'u) rpc_node \<times> (duration \<times> observer) list \<Rightarrow> bool" where
  "health_init node ds s \<longleftrightarrow> s = (node, map (\<lambda>d. (d, LoadLatency)) ds)"

definition within :: "u32 \<Rightarrow> u32 \<Rightarrow> u32 \<Rightarrow> bool" where
  "within lo hi e \<longleftrightarrow> lo \<le> e \<and> e \<le> hi \<and> e \<noteq> UNMEASURED"

fun past_store :: "observer \<Rightarrow> bool" where
  "past_store LoadLatency = False"
| "past_store (StoreLatency _) = False"
| "past_store _ = True"

definition health_inv ::
  "u32 \<Rightarrow> u32 \<Rightarrow> ('l, 's, 'u) rpc_node \<times> (duration \<times> observer) list \<Rightarrow> bool" where
  "health_inv lo hi s = (case s of (node, obs) \<Rightarrow>
     (ema_us node = UNMEASURED \<or> within lo hi (ema_us node)) \<and>
     (\<forall>(d, ob) \<in> set obs. within lo hi (sample_us d) \<and>
        (case ob of StoreLatency e \<Rightarrow> within lo hi e | _ \<Rightarrow> True) \<and>
        (past_store ob \<longrightarrow> ema_us node \<noteq> UNMEASURED)))"

lemma within_next_ema:
  assumes "ema = UNMEASURED \<or> within lo hi ema" and "within lo hi s"
  shows "within lo hi (next_ema ema s)"
proof (cases "ema = UNMEASURED")
  case True
  with assms show ?thesis by (simp add: next_ema_def)
next
  case False
  with assms next_ema_between [OF False, of s] show ?thesis
    by (auto simp: within_def min_def max_def split: if_splits)
qed

lemma health_inv_step:
  assumes inv: "health_inv lo hi s" and step: "health_step s t"
  shows "health_inv lo hi t"
  using step inv
proof cases
  case (observing i obs d ob node ob' node')
  have mem: "(d, ob) \<in> set obs" using observing(3,4) by (metis nth_mem)
  have sub: "set (obs[i := (d, ob')]) \<subseteq> insert (d, ob') (set obs)" by (rule set_update_subset_insert)
  have ema: "ema_us node = UNMEASURED \<or> within lo hi (ema_us node)" and d: "within lo hi (sample_us d)"
    and others: "\<forall>(d, ob) \<in> set obs. within lo hi (sample_us d) \<and> (case ob of StoreLatency e \<Rightarrow> within lo hi e | _ \<Rightarrow> True) \<and>
        (past_store ob \<longrightarrow> ema_us node \<noteq> UNMEASURED)"
    using inv mem observing(1) by (auto simp: health_inv_def)
  have "(ema_us node' = UNMEASURED \<or> within lo hi (ema_us node')) \<and>
      (case ob' of StoreLatency e \<Rightarrow> within lo hi e | _ \<Rightarrow> True) \<and>
      (past_store ob' \<longrightarrow> ema_us node' \<noteq> UNMEASURED) \<and> (ema_us node \<noteq> UNMEASURED \<longrightarrow> ema_us node' \<noteq> UNMEASURED)"
    using others mem observing(5) within_next_ema [OF ema d] ema
    by (cases ob) (auto simp: within_def split: if_splits)
  with d others sub show ?thesis unfolding observing(2) health_inv_def by fastforce
next
  case (failing node obs now_s retry_after_s)
  with inv show ?thesis by (simp add: health_inv_def)
qed

interpretation averaging: invariant_machine "health_init node ds" health_step
  "\<lambda>s. (ema_us node = UNMEASURED \<or> within lo hi (ema_us node)) \<and> (\<forall>d \<in> set ds. within lo hi (sample_us d))
     \<longrightarrow> health_inv lo hi s" for node ds lo hi
proof
  fix s assume "health_init node ds s"
  then show "(ema_us node = UNMEASURED \<or> within lo hi (ema_us node)) \<and> (\<forall>d \<in> set ds. within lo hi (sample_us d))
      \<longrightarrow> health_inv lo hi s"
    by (auto simp: health_init_def health_inv_def)
qed (use health_inv_step in blast)

section \<open>Properties\<close>

text \<open>
  C14. The check of the quota and the booking are two atomic operations, and any number of requests
  interleave between them, on the node as it is published now and on the cells it had before a reload,
  which bill the same slot under permits of their own. Still the overshoot is bounded by the permits
  that exist at one time: unless it started higher, the counter never exceeds the largest spillover
  threshold the slot has had by more than the largest sum of \<open>max_concurrent\<close> over cells that were in
  use together times the price of the dearest method (without a reload: \<open>max_concurrent\<close> times that
  price). When that ceiling is below 2 to the 64 the counter never wraps, and it holds exactly what it
  was last set to plus the price of every attempt started since. Each cell gives out as many permits as
  it has and no more.
\<close>

theorem quota_overshoot_bounded:
  assumes "i < length q" and "reachable (pool_init i q) (pool_step i) p"
    and "list_all (\<lambda>s. unat (spillover_threshold (sh_node s)) \<le> limit \<and> priced_below (sh_node s) dearest) (shares p)"
    and "limit + peak p * dearest < 2 ^ 64"
  shows "unat (bank p ! i) \<le> max (unat (q ! i)) (limit + peak p * dearest)
    \<and> unat (bank p ! i) = base p + sum_list (map unat (billed p))
    \<and> list_all (\<lambda>g. sh_free (shares p ! g) + out_on g (bookers p) = sh_cap (shares p ! g)) [0..<length (shares p)]"
proof -
  have "within_limits limit dearest p" using assms(3,4) by (simp add: within_limits_def list_all_iff)
  then have "pool_inv i q limit dearest p"
    using bookings.invar_reachable [OF assms(2), of limit dearest] assms(1) by blast
  then show ?thesis by (auto simp: pool_inv_def permits_ok_def list_all_iff)
qed

definition busy_node :: "(nat, nat, string) rpc_node" where
  "busy_node = demo_node\<lparr>spillover_threshold := 10, method_costs := \<lparr>costs = [7]\<rparr>\<rparr>"

text \<open>One request on the cell from before a reload and one on the new cell, both past the check before either adds.\<close>

theorem quota_overshoot_bounded_witness:
  "\<exists>p. reachable (pool_init 0 [10]) (pool_step 0) p \<and> map sh_node (shares p) = [busy_node, busy_node] \<and>
     map sh_cap (shares p) = [1, 1] \<and> bank p = [24] \<and> unat (bank p ! 0) \<le> max 10 (10 + 2 * 7)"
proof -
  let ?s = "\<lambda>f. \<lparr>sh_node = busy_node, sh_cap = 1, sh_free = f\<rparr>"
  let ?p = "\<lambda>b ss xs k l. \<lparr>bank = [b], shares = ss, bookers = xs, peak = k, base = 10, billed = l\<rparr>"
  let ?r = "reachable (pool_init 0 [10]) (pool_step 0)"
  have n: "node_id busy_node = 0" "book_check busy_node 0 10 = Inr 7"
    by (simp_all add: busy_node_def demo_node_def book_check_def cost_def)
  have "?r (?p 10 [] [] 0 [])" by (intro reachable_init) (simp add: pool_init_def)
  from reachable_step [OF this reloaded [OF n(1), of _ 1]] have "?r (?p 10 [?s 1] [] 1 [])" by simp
  from reachable_step [OF this acquired [of 0 _ _ 0]] have "?r (?p 10 [?s 0] [(0, Checking 0)] 1 [])"
    by (simp add: take_out_def)
  from reachable_step [OF this reloaded [OF n(1), of _ 1]] have "?r (?p 10 [?s 0, ?s 1] [(0, Checking 0)] 2 [])"
    by (simp add: numeral_2_eq_2)
  from reachable_step [OF this acquired [of 1 _ _ 0]]
  have "?r (?p 10 [?s 0, ?s 0] [(0, Checking 0), (1, Checking 0)] 2 [])" by (simp add: take_out_def)
  from reachable_step [OF this checked [of _ "[]" 0 0 "[(1, Checking 0)]" _ 10 7]]
  have "?r (?p 10 [?s 0, ?s 0] [(0, Adding 7), (1, Checking 0)] 2 [])" by (simp add: n quota_simps)
  from reachable_step [OF this checked [of _ "[(0, Adding 7)]" 1 0 "[]" _ 10 7]]
  have "?r (?p 10 [?s 0, ?s 0] [(0, Adding 7), (1, Adding 7)] 2 [])" by (simp add: n quota_simps)
  from reachable_step [OF this added [of _ "[]" 0 7 "[(1, Adding 7)]" _ "[17]"]]
  have "?r (?p 17 [?s 0, ?s 0] [(0, Running), (1, Adding 7)] 2 [7])" by (simp add: quota_simps)
  from reachable_step [OF this added [of _ "[(0, Running)]" 1 7 "[]" _ "[24]"]]
  have r: "?r (?p 24 [?s 0, ?s 0] [(0, Running), (1, Running)] 2 [7, 7])" by (simp add: quota_simps)
  have "priced_below busy_node 7" "unat (spillover_threshold busy_node) \<le> 10"
    by (simp_all add: priced_below_def busy_node_def demo_node_def cost_def)
  with quota_overshoot_bounded [OF _ r, of 10 7] r show ?thesis by fastforce
qed

text \<open>
  C32. The latency average survives its races: with any number of answers between the load and the
  store of the average at the same time, and failures in between, the average stays within the range of
  the samples and of the value it had before, it never becomes the sentinel for \<open>not measured\<close>, and a
  node that has answered is measured. A lost update drops a sample and does nothing worse.
\<close>

theorem racing_answers_average_bounded:
  assumes "ema_us node = UNMEASURED \<or> within lo hi (ema_us node)" and "list_all (\<lambda>d. within lo hi (sample_us d)) ds"
    and "reachable (health_init node ds) health_step (node', obs)"
  shows "(ema_us node' = UNMEASURED \<or> within lo hi (ema_us node'))
    \<and> (Observed \<in> snd ` set obs \<longrightarrow> within lo hi (ema_us node'))"
  using averaging.invar_reachable [OF assms(3), of lo hi] assms(1,2)
  by (fastforce simp: health_inv_def list_all_iff)

theorem racing_answers_average_bounded_witness:
  "\<exists>n obs. reachable (health_init demo_node [8000000, 16000000]) health_step (n, obs)
     \<and> (ema_us n = UNMEASURED \<or> within 8000 16000 (ema_us n)) \<and> length obs = 2"
proof -
  let ?s = "(demo_node, map (\<lambda>d. (d, LoadLatency)) [8000000, 16000000])"
  have r: "reachable (health_init demo_node [8000000, 16000000]) health_step ?s"
    by (intro reachable_init) (simp add: health_init_def)
  have "within 8000 16000 (sample_us 8000000)" "within 8000 16000 (sample_us 16000000)" "ema_us demo_node = UNMEASURED"
    by (simp_all add: within_def sample_us_def u32_try_from_def UNMEASURED_def demo_node_def)
  with racing_answers_average_bounded [OF _ _ r, of 8000 16000] r show ?thesis by fastforce
qed

text \<open>
  C35. A request that walks the topology from before a reload bills by slot number: when the slot of a
  departed node has been handed to a new one, the attempt on the departed node is booked on the counter
  of its heir, which starts its life with a spend that is not its own.
\<close>

theorem in_flight_attempt_bills_the_heir:
  assumes "client_wf c" and "reload c new = (Inr (), c')" and "r < length (cells c)"
    and "heir \<in> set (all_nodes c')" and "node_name heir \<notin> node_name ` set (all_nodes c)"
    and "node_id heir = node_id (cells c ! r)" and "book api m r c' = Some (Ready, c'')"
  shows "spend (all_nodes c') (nodes_usage c') (node_name heir) = Some 0
    \<and> spend (all_nodes c'') (nodes_usage c'') (node_name heir) = Some (ucast (cost (method_costs (cells c ! r)) m))"
  using assms(1,2)
proof (cases rule: reload_cases)
  case (published new' q')
  let ?i = "node_id heir" and ?price = "ucast (cost (method_costs (cells c ! r)) m) :: u64"
  have all: "all_nodes c' = new'" and c': "nodes_usage c' = q'" "cells c' ! r = cells c ! r"
    using published(6) assms(3)
    by (simp_all add: all_nodes_def Topology_new_def map_nth_append_new nth_append del: length_append)
  have dist: "distinct (map node_name new')" using published(3) by (simp add: slots_ok_def)
  from assms(4) all published(5) obtain n where n: "assigned (all_nodes c) (nodes_usage c) q' n heir"
    by (metis in_set_conv_nth list_all2_conv_all_nth)
  have "previous_of (all_nodes c) (node_name n) = None"
    using assms(5) assigned_name [OF n] previous_of_SomeD by (metis image_eqI not_None_eq)
  with n have zero: "q' ! ?i = 0" and len: "?i < length q'"
    using published(2) by (auto simp: assigned_def quota_ok_def)
  have c'': "nodes_usage c'' = q'[?i := q' ! ?i + ?price]" "all_nodes c'' = new'"
    using assms(6,7) len all
    by (auto simp: book_is_check_then_add book_check_def c' quota_simps Let_def all_nodes_def
        split: if_splits option.splits)
  have "spend new' q x = Some v" if "node_name heir = x" "q ! ?i = v" for q x v
    using that assms(4) all spend_Some_iff [OF dist] by blast
  with zero len c'' all c'(1) show ?thesis by simp
qed simp

theorem in_flight_attempt_bills_the_heir_witness:
  "\<exists>c' c''. reload (demo_client\<lparr>cells := [busy_node]\<rparr>) [demo_node\<lparr>node_name := ''b'', metrics := NodeMetrics_new ''b''\<rparr>]
       = (Inr (), c')
     \<and> book demo_api 0 0 c' = Some (Ready, c'') \<and> spend (all_nodes c'') (nodes_usage c'') ''b'' = Some 7"
proof -
  let ?c = "demo_client\<lparr>cells := [busy_node]\<rparr>" and ?b = "demo_node\<lparr>node_name := ''b'', metrics := NodeMetrics_new ''b''\<rparr>"
  have wf: "client_wf ?c"
    by (simp add: demo_client_def client_wf_def topo_wf_def node_wf_def slots_ok_def demo_node_def busy_node_def MAX_NODES_def)
  have "assign_ids [busy_node] [?b] GlobalQuotaState_default = (Inr [?b], GlobalQuotaState_default)"
    by code_simp
  then obtain c' where r: "reload ?c [?b] = (Inr (), c')" and c': "c' = ?c\<lparr>cells := [busy_node, ?b], topo := Topology_new [busy_node, ?b] [1]\<rparr>"
    by (simp add: reload_def demo_client_def all_nodes_def Let_def)
  have b: "all_nodes c' = [?b]" "all_nodes ?c = [busy_node]"
    by (simp_all add: c' all_nodes_def Topology_new_def demo_client_def)
  have bk: "book demo_api 0 0 c' = Some (Ready, c'\<lparr>nodes_usage := GlobalQuotaState_default[0 := 7]\<rparr>)"
    by (simp add: c' book_def demo_client_def busy_node_def demo_node_def cost_def quota_simps
        GlobalQuotaState_default_def MAX_NODES_def Let_def)
  have "0 < length (cells ?c)" "?b \<in> set (all_nodes c')" "node_name ?b \<notin> node_name ` set (all_nodes ?c)"
    "node_id ?b = node_id (cells ?c ! 0)" "cost (method_costs (cells ?c ! 0)) 0 = 7" "node_name ?b = ''b''"
    by (simp_all add: b) (simp_all add: busy_node_def demo_node_def cost_def)
  with in_flight_attempt_bills_the_heir [OF wf r _ _ _ _ bk] r bk show ?thesis by force
qed

text \<open>
  C38. A failure without a \<open>Retry-After\<close> replaces the cooldown of an earlier one that had asked for a longer
  wait: the deadline is swapped, not raised, so an attempt that was already in flight when the upstream
  asked for a long pause brings the node back into rotation after the default one.
\<close>

theorem later_failure_shortens_cooldown:
  assumes "unat t \<le> unat t'" and "unat t' + 5 < unat t + unat (penalty_seconds r)" and "unat t' + 306 < 2 ^ 32"
  shows "is_penalized (penalize t r node) (t' + 6) \<and> \<not> is_penalized (penalize t' 0 (penalize t r node)) (t' + 6)"
proof -
  have "unat (penalty_seconds r) \<le> 300" "unat (penalty_seconds 0) = 5" by (simp_all add: unat_penalty_seconds)
  moreover have "unat (t' + 6) = unat t' + 6" using assms(3) by (subst unat_add_lem [THEN iffD1]) simp_all
  ultimately show ?thesis
    using assms unat_until_s [of t r node] unat_until_s [of t' 0 "penalize t r node"]
    by (simp add: is_penalized_def word_less_nat_alt)
qed

theorem later_failure_shortens_cooldown_witness:
  "is_penalized (penalize 100 60 demo_node) 107 \<and> \<not> is_penalized (penalize 101 0 (penalize 100 60 demo_node)) 107"
  using later_failure_shortens_cooldown [of 100 101 60 demo_node] by (simp add: unat_penalty_seconds)

end
