(* ===== verification/Route_Timing.thy ===== *)
theory Route_Timing
  imports Route_Execution
begin

text \<open>
  The two deadlines of a request (\<open>src/core/router.rs\<close>, \<open>src/core/upstream.rs\<close>): the budget of the whole
  request, which drops the future at an await, and the deadline that the HTTP client puts on each
  attempt. A clock is added to the routing loop; it cannot pass the next timer that is due, and when
  both timers are due at once the attempt is served first, because \<open>tokio::time::timeout\<close> polls the
  future before its timer. Computing takes no time here. The request is one whose client stays connected:
  that the HTTP layer drops a request when its client hangs up is a step of \<open>System\<close>, not of this clock.
\<close>

section \<open>Timed executions\<close>

text \<open>The HTTP client is built with the deadline of an attempt, from connecting to the last byte of the body.\<close>

definition client_timeout :: duration where
  "client_timeout = ATTEMPT_TIMEOUT"

record ('l, 's, 'u, 'd) timed =
  clock :: instant
  began :: instant
  tm_route :: route_state
  tm_client :: "('l, 's, 'u, 'd) rpc_client"

abbreviation attempting :: "pc \<Rightarrow> bool" where
  "attempting p \<equiv> holding p \<noteq> None"

definition due :: "instant \<Rightarrow> ('l, 's, 'u, 'd) timed \<Rightarrow> instant" where
  "due started s =
     (if attempting (pc (tm_route s)) then min (began s + client_timeout) (started + GLOBAL_TIMEOUT)
      else started + GLOBAL_TIMEOUT)"

fun stamped :: "('l, 's, 'u, 'd) timed \<Rightarrow> event \<Rightarrow> bool" where
  "stamped s (Go t _) = (t = clock s)"
| "stamped s (Answer _ at elapsed) = (at = clock s \<and> elapsed = clock s - began s)"
| "stamped s Wake = True"
| "stamped s (Poll t _) = (t = clock s)"
| "stamped s Expire = False"

inductive timed_step ::
  "('l, 's, 'u) node_api \<Rightarrow> wire_api \<Rightarrow> instant \<Rightarrow> nat \<Rightarrow> instant
     \<Rightarrow> ('l, 's, 'u, 'd) timed \<Rightarrow> ('l, 's, 'u, 'd) timed \<Rightarrow> bool"
  for api :: "('l, 's, 'u) node_api" and wire :: wire_api and EPOCH :: instant and method_id :: nat and started :: instant
where
  passes: "clock s \<le> t \<Longrightarrow> t \<le> due started s \<Longrightarrow> timed_step api wire EPOCH method_id started s (s\<lparr>clock := t\<rparr>)"
| moves: "stamped s ev \<Longrightarrow>
    route_step api wire EPOCH method_id (seconds_since_start EPOCH started) ev (tm_route s, tm_client s) = Some (st', c') \<Longrightarrow>
    timed_step api wire EPOCH method_id started s
      (s\<lparr>tm_route := st', tm_client := c',
         began := if attempting (pc st') \<and> \<not> attempting (pc (tm_route s)) then clock s else began s\<rparr>)"
| expires: "clock s = started + GLOBAL_TIMEOUT \<Longrightarrow>
    \<not> (attempting (pc (tm_route s)) \<and> clock s = began s + client_timeout) \<Longrightarrow>
    route_step api wire EPOCH method_id (seconds_since_start EPOCH started) Expire (tm_route s, tm_client s) = Some (st', c') \<Longrightarrow>
    timed_step api wire EPOCH method_id started s (s\<lparr>tm_route := st', tm_client := c'\<rparr>)"
| elsewhere: "evolves (tm_client s) c' \<Longrightarrow> timed_step api wire EPOCH method_id started s (s\<lparr>tm_client := c'\<rparr>)"

definition timed_init :: "instant \<Rightarrow> ('l, 's, 'u, 'd) timed \<Rightarrow> bool" where
  "timed_init started s \<longleftrightarrow> clock s = started \<and> tm_route s = route_init \<and> client_wf (tm_client s)"

definition timed_inv :: "instant \<Rightarrow> ('l, 's, 'u, 'd) timed \<Rightarrow> bool" where
  "timed_inv started s \<longleftrightarrow> started \<le> clock s \<and> clock s \<le> started + GLOBAL_TIMEOUT \<and>
     (attempting (pc (tm_route s)) \<longrightarrow> began s \<le> clock s \<and> clock s \<le> began s + client_timeout)"

lemma route_step_Expire:
  "route_step api wire E m now_s Expire (st, c) = Some (st', c') \<Longrightarrow> expire api st c = (st', c')"
  by (cases "pc st") (auto simp: route_step_pc)

lemma attempting_ends:
  assumes "route_step api wire E m now_s ev (st, c) = Some (st', c')" and "attempting (pc st)"
  shows "\<not> attempting (pc st')"
  using assms(1)
proof (cases rule: route_stepE)
  case expired
  then show ?thesis by (auto simp: expire_def)
qed (use assms(2) in \<open>auto simp: attempt_on_def split: prod.splits attempt_result.splits\<close>)

interpretation deadlines: invariant_machine "timed_init started" "timed_step api wire EPOCH method_id started" "timed_inv started"
  for api wire EPOCH method_id started
proof
  fix s :: "('a, 'b, 'c, 'd) timed"
  assume "timed_init started s"
  then show "timed_inv started s" by (simp add: timed_init_def timed_inv_def route_init_def)
next
  fix s t :: "('a, 'b, 'c, 'd) timed"
  assume inv: "timed_inv started s" and step: "timed_step api wire EPOCH method_id started s t"
  from step show "timed_inv started t"
  proof cases
    case (passes t)
    with inv show ?thesis by (auto simp: timed_inv_def due_def split: if_splits)
  next
    case (moves ev st' c')
    with inv attempting_ends [OF moves(3)] show ?thesis by (auto simp: timed_inv_def)
  next
    case (expires st' c')
    with inv route_step_Expire [OF expires(4)] show ?thesis by (auto simp: timed_inv_def expire_def)
  next
    case elsewhere
    with inv show ?thesis by (simp add: timed_inv_def)
  qed
qed

section \<open>Where an attempt can end\<close>

lemma attempt_on_cell:
  assumes "attempt_on api wire E sent at el r nxt st c = (st', c')" and "r < length (cells c)"
  shows "until_s (cells c' ! r) = until_s (snd (snd (attempt wire E at el (cells c ! r) sent))) \<and>
    ema_us (cells c' ! r) = ema_us (snd (snd (attempt wire E at el (cells c ! r) sent)))"
  using assms by (auto simp: attempt_on_def release_def set_cell_def drop_permit_def split: prod.splits)

lemma attempting_step:
  assumes "route_step api wire E m now_s ev (st, c) = Some (st', c')" and "holding (pc st) = Some r"
  shows "(\<exists>sent at el nxt. ev = Answer sent at el \<and> attempt_on api wire E sent at el r nxt st c = (st', c')) \<or>
    ev = Expire \<and> expire api st c = (st', c')"
  using assms by (cases "pc st"; cases ev) (auto simp: route_step_pc)

lemma visit_remaining:
  "visit api t t' m now_s r st c = Some (st', c') \<Longrightarrow> remaining st' = remaining st"
  by (auto simp: visit_def split: option.splits if_splits prod.splits admission.splits)

text \<open>A request that computes, or whose timer is due, can go on.\<close>

lemma go_moves:
  fixes s :: "('l, 's, 'u, 'd) timed"
  assumes "pc (tm_route s) = RoundStart \<or> pc (tm_route s) = Walking"
  shows "\<exists>s'. timed_step api wire EPOCH method_id started s s' \<and> tm_route s' \<noteq> tm_route s"
proof -
  let ?st = "tm_route s" and ?c = "tm_client s" and ?now = "seconds_since_start EPOCH started"
  obtain st' c' where r: "route_step api wire EPOCH method_id ?now (Go (clock s) (clock s)) (?st, ?c) = Some (st', c')"
    and ne: "st' \<noteq> ?st"
  proof (cases "pc ?st = RoundStart")
    case True
    show ?thesis
    proof (rule that)
      show "route_step api wire EPOCH method_id ?now (Go (clock s) (clock s)) (?st, ?c) = Some (begin_round (topo ?c) ?st, ?c)"
        using True by (simp add: route_step_pc)
      show "begin_round (topo ?c) ?st \<noteq> ?st" using True by (metis begin_round_def pc.distinct(1) route_state.select_convs(1)
            route_state.surjective route_state.update_convs(1-8))
    qed
  next
    case False
    with assms have w: "pc ?st = Walking" by simp
    show ?thesis
    proof (cases "remaining ?st")
      case Nil
      obtain st' c' where e: "round_end ?st ?c = (st', c')" by (metis surj_pair)
      then have "pc st' \<noteq> Walking" by (auto simp: round_end_def split: option.splits if_splits)
      with w Nil e show ?thesis by (intro that [of st' c']) (auto simp: route_step_pc)
    next
      case (Cons r rs)
      obtain st' c' where e: "or_panic (visit api (clock s) (clock s) method_id ?now r (?st\<lparr>remaining := rs\<rparr>) ?c) (?st\<lparr>remaining := rs\<rparr>) ?c = (st', c')"
        by (metis surj_pair)
      then have "remaining st' = rs" by (auto simp: or_panic_def dest: visit_remaining split: option.splits)
      with w Cons e show ?thesis by (intro that [of st' c']) (auto simp: route_step_pc)
    qed
  qed
  show ?thesis
    by (intro exI conjI, rule moves [OF _ r]) (use ne in simp_all)
qed

lemma timer_moves:
  assumes "clock s = due started s" and "clock s \<le> started + GLOBAL_TIMEOUT"
    and "attempting (pc (tm_route s)) \<or> (\<exists>d. pc (tm_route s) = Sleeping d) \<or> (\<exists>r. pc (tm_route s) = Parked r)"
  shows "\<exists>s'. timed_step api wire EPOCH method_id started s s' \<and> tm_route s' \<noteq> tm_route s"
proof -
  let ?st = "tm_route s" and ?c = "tm_client s" and ?now = "seconds_since_start EPOCH started"
  show ?thesis
  proof (cases "attempting (pc ?st) \<and> clock s = began s + client_timeout")
    case True
    then obtain r where h: "holding (pc ?st) = Some r" by auto
    let ?ev = "Answer None (clock s) (clock s - began s)"
    have "route_step api wire EPOCH method_id ?now ?ev (?st, ?c) \<noteq> None"
      using h by (cases "pc ?st") (auto simp: route_step_pc)
    then obtain st' c' where r: "route_step api wire EPOCH method_id ?now ?ev (?st, ?c) = Some (st', c')" by auto
    have "st' \<noteq> ?st" using attempting_ends [OF r] h by auto
    then show ?thesis using moves [OF _ r] by fastforce
  next
    case False
    have now: "clock s = started + GLOBAL_TIMEOUT" using False assms(1) by (auto simp: due_def min_def split: if_splits)
    obtain st' c' where e: "expire api ?st ?c = (st', c')" by (metis surj_pair)
    have r: "route_step api wire EPOCH method_id ?now Expire (?st, ?c) = Some (st', c')"
      using assms(3) e by (cases "pc ?st") (auto simp: route_step_pc)
    have "pc st' = Finished (Inl Timeout)" using e by (auto simp: expire_def)
    then have "st' \<noteq> ?st" using assms(3) by auto
    then show ?thesis using expires [OF now False r] by fastforce
  qed
qed

section \<open>Properties\<close>


lemma run_go_timed:
  fixes c :: "('l, 's, 'u, 'd) rpc_client"
  assumes "reachable (timed_init 0) (timed_step api wire E m 0) \<lparr>clock = 0, began = 0, tm_route = st, tm_client = c\<rparr>"
    and "run_go api wire E m (seconds_since_start E 0) 0 t' n (st, c) = Some (st', c')"
  shows "reachable (timed_init 0) (timed_step api wire E m 0) \<lparr>clock = 0, began = 0, tm_route = st', tm_client = c'\<rparr>"
  using assms
proof (induction n arbitrary: st c)
  case (Suc n)
  then obtain st1 c1 where r: "route_step api wire E m (seconds_since_start E 0) (Go 0 t') (st, c) = Some (st1, c1)"
    "run_go api wire E m (seconds_since_start E 0) 0 t' n (st1, c1) = Some (st', c')"
    by (auto split: Option.bind_splits)
  from reachable_step [OF Suc.prems(1) moves [of _ "Go 0 t'"]] r(1) Suc.IH [OF _ r(2)] show ?case
    by (simp split: if_splits)
qed simp

lemma timed_demo:
  "\<exists>s :: (nat, nat, string, nat) timed. reachable (timed_init 0) (timed_step demo_api demo_wire 0 0 0) s
     \<and> clock s = 0 \<and> began s = 0 \<and> pc (tm_route s) = Attempting 0 \<and> 0 < length (cells (tm_client s))"
proof -
  let ?run = "run_go demo_api demo_wire 0 0 0 0 0 2 (route_init, priced_client)"
  have "case ?run of Some (st, c) \<Rightarrow> pc st = Attempting 0 \<and> cells c \<noteq> [] | None \<Rightarrow> False" by code_simp
  then obtain st c where r: "?run = Some (st, c)" "pc st = Attempting 0" "cells c \<noteq> []"
    by (auto split: option.splits)
  have z: "seconds_since_start 0 0 = 0" by (simp add: seconds_since_start_def u32_try_from_def)
  have "reachable (timed_init 0) (timed_step demo_api demo_wire 0 0 0)
      \<lparr>clock = 0, began = 0, tm_route = route_init, tm_client = priced_client\<rparr>"
    by (intro reachable_init) (simp add: timed_init_def)
  from run_go_timed [OF this, of 0 2 st c] r z show ?thesis
    by (intro exI [of _ "\<lparr>clock = 0, began = 0, tm_route = st, tm_client = c\<rparr>"]) simp
qed




end
