(* ===== verification/Ticker.thy ===== *)
theory Ticker
  imports Flusher_Race
begin

text \<open>
  The two periodic tasks and their tickers (\<open>start_disk_flusher\<close> in \<open>src/main.rs\<close>, \<open>run_rank_loop\<close> in
  \<open>src/core/ranking.rs\<close>): a loop that waits for the next tick, works, and goes back. When the work takes
  longer than a period, the missed ticks are skipped. The loop of the flusher is here with what it does to the
  usage file and when. How tokio moves the deadline of an interval on is a
  parameter, with its documented behaviour for \<open>MissedTickBehavior::Skip\<close> as \<^verbatim>\<open>skips_missed\<close>: the next
  tick is in the future and at most one period away.
\<close>

section \<open>Rounds\<close>

definition FLUSH_PERIOD :: duration where
  "FLUSH_PERIOD = 60 * 10 ^ 9"

definition RANK_PERIOD :: duration where
  "RANK_PERIOD = 10 ^ 9"

definition skips_missed :: "(instant \<Rightarrow> instant \<Rightarrow> instant) \<Rightarrow> duration \<Rightarrow> bool" where
  "skips_missed next_timeout period \<longleftrightarrow>
     (\<forall>timeout now. timeout \<le> now \<longrightarrow>
        now < next_timeout timeout now \<and> next_timeout timeout now \<le> now + period)"

text \<open>
  The rounds of a loop, each with the moment it starts and the moment its work is done, from the deadline of
  the next tick, the moment the loop comes back to it, and how long each round works.
\<close>

fun tick_rounds ::
  "(instant \<Rightarrow> instant \<Rightarrow> instant) \<Rightarrow> instant \<Rightarrow> instant \<Rightarrow> duration list \<Rightarrow> (instant \<times> instant) list" where
  "tick_rounds next_timeout deadline free [] = []"
| "tick_rounds next_timeout deadline free (work # works) =
     (let fired = max deadline free
      in (fired, fired + work) # tick_rounds next_timeout (next_timeout deadline fired) (fired + work) works)"

text \<open>The first tick of the ranking is now (\<open>interval\<close>), the one of the flusher a period away (\<open>interval_at\<close>).\<close>

definition rank_rounds :: "(instant \<Rightarrow> instant \<Rightarrow> instant) \<Rightarrow> instant \<Rightarrow> duration list \<Rightarrow> (instant \<times> instant) list" where
  "rank_rounds next_timeout started works = tick_rounds next_timeout started started works"

text \<open>When the last round began whose work was done by a moment; \<open>before\<close> if there is none.\<close>

definition last_done :: "(instant \<times> instant) list \<Rightarrow> instant \<Rightarrow> instant \<Rightarrow> instant" where
  "last_done rounds before t = last (before # map fst (filter (\<lambda>(_, finished). finished \<le> t) rounds))"

section \<open>How far apart rounds are\<close>

lemma rounds_after: "(f, g) \<in> set (tick_rounds nx dl fr works) \<Longrightarrow> fr \<le> f \<and> f \<le> g"
  by (induction works arbitrary: dl fr) (fastforce simp: Let_def)+

lemma last_done_Cons:
  "last_done ((f, g) # rounds) before t = (if g \<le> t then last_done rounds f t else last_done rounds before t)"
  by (simp add: last_done_def)

lemma last_done_none: "\<forall>(_, g) \<in> set rounds. t < g \<Longrightarrow> last_done rounds before t = before"
  by (auto simp: last_done_def filter_empty_conv intro!: arg_cong [where f = last])

text \<open>
  The age of what the last finished round saw, at any moment up to the end of the last round: a period and the
  work of one round. \<open>before\<close> is when the previous round began.
\<close>

lemma rounds_age:
  assumes "skips_missed nx period" and "list_all (\<lambda>w. w \<le> slowest) works" and "slowest \<le> period"
    and "dl \<le> before + period" and "fr \<le> before + slowest" and "before \<le> t"
    and "works \<noteq> []" and "t < snd (last (tick_rounds nx dl fr works))"
  shows "t \<le> last_done (tick_rounds nx dl fr works) before t + period + slowest"
  using assms(2,4-)
proof (induction works arbitrary: dl fr before)
  case (Cons w works)
  let ?f = "max dl fr"
  let ?rest = "tick_rounds nx (nx dl ?f) (?f + w) works"
  have w: "w \<le> slowest" and f: "?f \<le> before + period" using Cons.prems assms(3) by auto
  have nx: "nx dl ?f \<le> ?f + period" using assms(1) by (simp add: skips_missed_def)
  show ?case
  proof (cases "?f + w \<le> t")
    case True
    have ne: "works \<noteq> []" using True Cons.prems(6) by (auto simp: Let_def)
    then have "t < snd (last ?rest)"
      using Cons.prems(6) by (cases works) (auto simp: Let_def)
    moreover have "?f \<le> t" using True by linarith
    ultimately have "t \<le> last_done ?rest ?f t + period + slowest"
      using Cons.IH [OF _ nx _ _ ne] Cons.prems(1) w by simp
    with True show ?thesis by (simp add: Let_def last_done_Cons)
  next
    case False
    have "\<forall>(_, g) \<in> set ?rest. t < g" using False rounds_after by fastforce
    then have "last_done ?rest before t = before" by (rule last_done_none)
    moreover have "t \<le> before + period + slowest" using False w f by linarith
    ultimately show ?thesis using False by (simp add: Let_def last_done_Cons)
  qed
qed simp

lemma rounds_ordered:
  assumes "skips_missed nx period"
  shows "sorted_wrt (<) (map fst (tick_rounds nx dl fr works)) \<and> (\<forall>(f, g) \<in> set (tick_rounds nx dl fr works). dl \<le> f)"
proof (induction works arbitrary: dl fr)
  case (Cons w works)
  let ?f = "max dl fr"
  let ?rest = "tick_rounds nx (nx dl ?f) (?f + w) works"
  have "?f < nx dl ?f" using assms max.cobounded1 [of dl fr] unfolding skips_missed_def by blast
  moreover have "\<forall>(f, g) \<in> set ?rest. nx dl ?f \<le> f" "sorted_wrt (<) (map fst ?rest)" using Cons.IH by blast+
  ultimately show ?case by (fastforce simp: Let_def)
qed simp

section \<open>The loop of the flusher\<close>

text \<open>
  What one round of \<open>start_disk_flusher\<close> meets: the shared state when the tick fires, the wall clock, the
  answers of the file system, and how long it takes. Then what it leaves: when it began and ended, and the
  states of the directory that were visible meanwhile.
\<close>

record ('l, 's, 'u, 'd) flush_round =
  met :: "('l, 's, 'u, 'd) rpc_client"
  wall_clock :: system_time
  answers :: io_plan
  takes :: duration

record flush_done =
  begun :: instant
  ended :: instant
  visible :: "files list"

text \<open>\<^const>\<open>None\<close> is a panic, which ends the task.\<close>

fun flusher_loop ::
  "('d, 'm) calendar \<Rightarrow> ('d usage_map \<Rightarrow> bytes option) \<Rightarrow> nat \<Rightarrow> (instant \<Rightarrow> instant \<Rightarrow> instant) \<Rightarrow> instant \<Rightarrow> instant
     \<Rightarrow> u64 \<Rightarrow> files \<Rightarrow> ('l, 's, 'u, 'd) flush_round list \<Rightarrow> flush_done list option" where
  "flusher_loop cal to_vec pid next_timeout deadline free k fs [] = Some []"
| "flusher_loop cal to_vec pid next_timeout deadline free k fs (r # rs) =
     (let fired = max deadline free
      in case flusher_tick cal to_vec (answers r) pid k (wall_clock r) (met r) fs of
        None \<Rightarrow> None
      | Some (_, states, k') \<Rightarrow>
          map_option (Cons \<lparr>begun = fired, ended = fired + takes r, visible = states\<rparr>)
            (flusher_loop cal to_vec pid next_timeout (next_timeout deadline fired) (fired + takes r) k' (last states) rs))"

definition start_disk_flusher ::
  "('d, 'm) calendar \<Rightarrow> ('d usage_map \<Rightarrow> bytes option) \<Rightarrow> nat \<Rightarrow> (instant \<Rightarrow> instant \<Rightarrow> instant) \<Rightarrow> instant
     \<Rightarrow> u64 \<Rightarrow> files \<Rightarrow> ('l, 's, 'u, 'd) flush_round list \<Rightarrow> flush_done list option" where
  "start_disk_flusher cal to_vec pid next_timeout started k fs rs =
     flusher_loop cal to_vec pid next_timeout (started + FLUSH_PERIOD) started k fs rs"

text \<open>The states of the directory that can be seen at a moment, or found after a kill of the process then.\<close>

fun files_at :: "files \<Rightarrow> flush_done list \<Rightarrow> instant \<Rightarrow> files list" where
  "files_at fs [] t = [fs]"
| "files_at fs (f # rest) t =
     (if t < begun f then [fs] else if t < ended f then visible f else files_at (last (visible f)) rest t)"

text \<open>What a round is to write: the spend it met, rolled over.\<close>

definition to_write :: "('d, 'm) calendar \<Rightarrow> ('l, 's, 'u, 'd) flush_round \<Rightarrow> 'd usage_map option" where
  "to_write cal r =
     Option.bind (roll_over_periods cal (wall_clock r) (met r)) (\<lambda>c. snapshot (all_nodes c) (nodes_usage c) (periods c))"

lemma tick_writes:
  assumes "flusher_tick cal to_vec (answers r) pid k (wall_clock r) (met r) fs = Some (c', states, k')"
    and "renames (answers r)" and "\<And>m. to_write cal r = Some m \<Longrightarrow> serde_roundtrip to_vec from_str m"
  shows "\<exists>m data. to_write cal r = Some m \<and> to_vec m = Some data \<and> states \<noteq> [] \<and> last states FINAL_PATH = Some data
    \<and> (\<forall>s \<in> set states. s FINAL_PATH = fs FINAL_PATH \<or> s FINAL_PATH = Some data)"
proof -
  obtain c1 c2 m where c1: "roll_over_periods cal (wall_clock r) (met r) = Some c1" "publish_quota_gauges c1 = Some c2"
    "snapshot (all_nodes c2) (nodes_usage c2) (periods c2) = Some m" "flush to_vec (answers r) pid k m fs = (states, k')"
    using assms(1) by (auto simp: flusher_tick_def flush_usage_def split: bind_splits)
  then have m: "to_write cal r = Some m" by (auto simp: to_write_def publish_quota_gauges_def)
  with assms(3) obtain data where data: "to_vec m = Some data" by (auto simp: serde_roundtrip_def)
  with c1(4) obtain ok where w: "write_atomic_async (answers r) pid k data fs = (states, ok, k')"
    by (auto simp: flush_def split: prod.splits)
  have "states \<noteq> []"
    using w write_then_rename_nonempty by (fastforce simp: write_atomic_async_def Let_def split: prod.splits bool.splits)
  with m data usage_file_is_atomic [OF w] write_atomic_async_final [OF assms(2) w] show ?thesis by auto
qed

lemma flusher_loop_Cons:
  assumes "flusher_loop cal to_vec pid nx dl fr k fs (r # rs) = Some runs"
  obtains c' states k' rest where
    "flusher_tick cal to_vec (answers r) pid k (wall_clock r) (met r) fs = Some (c', states, k')"
    "runs = \<lparr>begun = max dl fr, ended = max dl fr + takes r, visible = states\<rparr> # rest"
    "flusher_loop cal to_vec pid nx (nx dl (max dl fr)) (max dl fr + takes r) k' (last states) rs = Some rest"
  using assms by (auto simp: Let_def split: option.splits)

lemma flusher_loop_total:
  assumes "\<forall>r \<in> set rs. client_wf (met r)"
  shows "flusher_loop cal to_vec pid nx dl fr k fs rs \<noteq> None"
  using assms
proof (induction rs arbitrary: dl fr k fs)
  case (Cons r rs)
  then have "client_wf (met r)" by simp
  from flusher_tick_total [OF this] obtain c' states k' where
    "flusher_tick cal to_vec (answers r) pid k (wall_clock r) (met r) fs = Some (c', states, k')" by (metis prod.exhaust)
  with Cons show ?case by (simp add: Let_def)
qed simp

lemma flusher_loop_rounds:
  "flusher_loop cal to_vec pid nx dl fr k fs rs = Some runs \<Longrightarrow>
     map (\<lambda>f. (begun f, ended f)) runs = tick_rounds nx dl fr (map takes rs)"
proof (induction rs arbitrary: dl fr k fs runs)
  case (Cons r rs)
  from Cons.prems show ?case by (rule flusher_loop_Cons) (simp add: Cons.IH Let_def)
qed simp

text \<open>
  The age of the usage file at a moment before the last round is over: it is as it was at the beginning of the
  loop, when that is not long ago, or it is what a round wrote that did not begin long ago.
\<close>

definition written_by ::
  "('d, 'm) calendar \<Rightarrow> (string \<Rightarrow> 'd usage_map option) \<Rightarrow> ('l, 's, 'u, 'd) flush_round \<Rightarrow> files \<Rightarrow> bool" where
  "written_by cal from_str r view \<longleftrightarrow> (\<exists>m. to_write cal r = Some m \<and> restore from_str True view = Inr m)"

lemma written_byI:
  assumes "to_write cal r = Some m" and "to_vec m = Some data" and "serde_roundtrip to_vec from_str m"
    and "view FINAL_PATH = Some data"
  shows "written_by cal from_str r view"
  using assms by (auto simp: written_by_def serde_roundtrip_def restore_def from_utf8_def)

lemma flusher_loop_age:
  assumes nx: "skips_missed nx period" and "slowest \<le> period"
    and rs: "\<forall>r \<in> set rs. takes r \<le> slowest \<and> renames (answers r)"
      "\<forall>r \<in> set rs. \<forall>m. to_write cal r = Some m \<longrightarrow> serde_roundtrip to_vec from_str m"
    and "rs \<noteq> []" and "dl \<le> before + period" and "fr \<le> before + slowest" and "before \<le> t"
    and runs: "flusher_loop cal to_vec pid nx dl fr k fs rs = Some runs"
    and "t < ended (last runs)" and "view \<in> set (files_at fs runs t)"
  shows "view FINAL_PATH = fs FINAL_PATH \<and> t \<le> before + period + slowest \<or>
    (\<exists>i < length rs. written_by cal from_str (rs ! i) view \<and> begun (runs ! i) \<le> t \<and> t \<le> begun (runs ! i) + period + slowest)"
  using rs assms(5-)
proof (induction rs arbitrary: dl fr k fs before runs)
  case (Cons r rs)
  let ?f = "max dl fr"
  from Cons.prems(7) obtain c' states k' rest where
    tick: "flusher_tick cal to_vec (answers r) pid k (wall_clock r) (met r) fs = Some (c', states, k')" and
    runs: "runs = \<lparr>begun = ?f, ended = ?f + takes r, visible = states\<rparr> # rest" and
    rest: "flusher_loop cal to_vec pid nx (nx dl ?f) (?f + takes r) k' (last states) rs = Some rest"
    by (rule flusher_loop_Cons)
  have r: "takes r \<le> slowest" "renames (answers r)" "\<And>m. to_write cal r = Some m \<Longrightarrow> serde_roundtrip to_vec from_str m"
    using Cons.prems(1,2) by auto
  have f: "?f \<le> before + period" using Cons.prems(4,5) assms(2) by linarith
  obtain m data where w: "to_write cal r = Some m" "to_vec m = Some data" "states \<noteq> []" "last states FINAL_PATH = Some data"
    "\<forall>s \<in> set states. s FINAL_PATH = fs FINAL_PATH \<or> s FINAL_PATH = Some data"
    using tick_writes [OF tick r(2,3)] by blast
  note mine = written_byI [OF w(1,2) r(3) [OF w(1)]]
  consider "t < ?f" | "?f \<le> t" "t < ?f + takes r" | "?f + takes r \<le> t" by linarith
  then show ?case
  proof cases
    case 1
    with Cons.prems(9) runs f show ?thesis by auto
  next
    case 2
    with Cons.prems(9) runs w(5) have "view FINAL_PATH = fs FINAL_PATH \<or> view FINAL_PATH = Some data" by auto
    moreover have "t \<le> before + period + slowest" "t \<le> ?f + period + slowest" using 2 f r(1) by linarith+
    ultimately show ?thesis using mine runs 2(1) by (auto intro!: exI [of _ 0])
  next
    case 3
    have "rs \<noteq> []" "rest \<noteq> []" using 3 Cons.prems(8) runs rest by (auto split: if_splits)
    then have "t < ended (last rest)" "view \<in> set (files_at (last states) rest t)"
      using Cons.prems(8,9) runs 3 by auto
    moreover have "nx dl ?f \<le> ?f + period" using nx by (simp add: skips_missed_def)
    moreover have "?f + takes r \<le> ?f + slowest" "?f \<le> t" using r(1) 3 by linarith+
    ultimately have "view FINAL_PATH = last states FINAL_PATH \<and> t \<le> ?f + period + slowest \<or>
      (\<exists>i < length rs. written_by cal from_str (rs ! i) view \<and> begun (rest ! i) \<le> t \<and> t \<le> begun (rest ! i) + period + slowest)"
      using Cons.IH [OF _ _ \<open>rs \<noteq> []\<close> _ _ _ rest, of ?f] Cons.prems(1,2) by auto
    then show ?thesis using mine w(4) runs \<open>?f \<le> t\<close> by (auto intro: exI [of _ 0] exI [of _ "Suc i" for i])
  qed
qed simp

text \<open>The published order is never older than a period and one round of the ranking.\<close>

lemma rank_age_bounded:
  assumes "skips_missed next_timeout RANK_PERIOD" and "list_all (\<lambda>work. work \<le> slowest) works"
    and "slowest \<le> RANK_PERIOD" and "works \<noteq> []" and "rounds = rank_rounds next_timeout started works"
    and "started \<le> t" and "t < snd (last rounds)"
  shows "t - last_done rounds started t \<le> 10 ^ 9 + slowest"
  using rounds_age [OF assms(1-3) _ _ assms(6,4), of started started] assms(5,7)
  by (simp add: rank_rounds_def RANK_PERIOD_def)

section \<open>Properties\<close>

text \<open>
  C34. A kill of the process loses at most a minute of spend and the time of one flush. As long as the renames
  succeed and no round takes longer than a period, the loop of the flusher never panics, no two of its rounds
  begin at once, and at every moment every state of the directory that can be seen restores to the spend,
  rolled over, that a round met which began at most one minute and one round before; or the usage file is
  still the one the loop started with, and the loop is not older than that. Ticks may be missed.
\<close>

theorem usage_file_age_bounded:
  assumes "skips_missed next_timeout FLUSH_PERIOD" and "slowest \<le> FLUSH_PERIOD" and "rounds \<noteq> []"
    and "\<forall>r \<in> set rounds. client_wf (met r)" and "\<forall>r \<in> set rounds. takes r \<le> slowest \<and> renames (answers r)"
    and "\<forall>r \<in> set rounds. \<forall>m. to_write cal r = Some m \<longrightarrow> serde_roundtrip to_vec from_str m"
  shows "\<exists>runs. start_disk_flusher cal to_vec pid next_timeout started k fs rounds = Some runs
    \<and> sorted_wrt (<) (map begun runs)
    \<and> (\<forall>t view. started \<le> t \<and> t < ended (last runs) \<and> view \<in> set (files_at fs runs t) \<longrightarrow>
         view FINAL_PATH = fs FINAL_PATH \<and> t \<le> started + 60 * 10 ^ 9 + slowest \<or>
         (\<exists>i < length rounds. \<exists>m. to_write cal (rounds ! i) = Some m \<and> restore from_str True view = Inr m \<and>
            begun (runs ! i) \<le> t \<and> t \<le> begun (runs ! i) + 60 * 10 ^ 9 + slowest))"
proof -
  obtain runs where runs: "flusher_loop cal to_vec pid next_timeout (started + FLUSH_PERIOD) started k fs rounds = Some runs"
    using flusher_loop_total [OF assms(4)] by blast
  have "map begun runs = map fst (map (\<lambda>f. (begun f, ended f)) runs)" by (simp add: comp_def)
  then have "sorted_wrt (<) (map begun runs)"
    using flusher_loop_rounds [OF runs] rounds_ordered [OF assms(1)] by simp
  moreover note flusher_loop_age [OF assms(1,2,5,6,3) _ _ _ runs, unfolded FLUSH_PERIOD_def written_by_def]
  ultimately show ?thesis using runs by (fastforce simp: start_disk_flusher_def)
qed

text \<open>An interval as tokio keeps it: the next tick is a whole number of periods after the last one.\<close>

definition on_the_grid :: "instant \<Rightarrow> instant \<Rightarrow> instant" where
  "on_the_grid timeout now = now + FLUSH_PERIOD - (now - timeout) mod FLUSH_PERIOD"

lemma on_the_grid: "skips_missed on_the_grid FLUSH_PERIOD"
proof -
  have "(now - timeout) mod FLUSH_PERIOD < FLUSH_PERIOD" for now timeout
    by (intro mod_less_divisor) (simp add: FLUSH_PERIOD_def)
  then have "now < on_the_grid timeout now \<and> on_the_grid timeout now \<le> now + FLUSH_PERIOD" for now timeout
    unfolding on_the_grid_def using less_diff_conv by fastforce
  then show ?thesis by (simp add: skips_missed_def)
qed

definition demo_round :: "(nat, nat, string, gdate) flush_round" where
  "demo_round = \<lparr>met = fresh_client, wall_clock = 0, answers = good_plan, takes = 10 ^ 9\<rparr>"

theorem usage_file_age_bounded_witness:
  "\<exists>m runs. to_write demo_cal demo_round = Some m
     \<and> start_disk_flusher demo_cal (\<lambda>_. Some ''{}'') 7 on_the_grid 0 0 (\<lambda>_. None) [demo_round, demo_round] = Some runs
     \<and> (\<forall>view \<in> set (files_at (\<lambda>_. None) runs (100 * 10 ^ 9)). restore (\<lambda>_. Some m) True view = Inr m)"
proof -
  let ?rounds = "[demo_round, demo_round]"
  have rounds: "\<forall>r \<in> set ?rounds. client_wf (met r)" "\<forall>r \<in> set ?rounds. takes r \<le> 10 ^ 9 \<and> renames (answers r)"
    by (simp_all add: demo_round_def fresh_client_wf renames_def good_plan_def)
  have "client_wf (met demo_round)" using rounds(1) by simp
  from roll_over_periods_total [OF this, of demo_cal 0] usage_update_evolves [OF this] obtain c where
    c: "roll_over_periods demo_cal 0 (met demo_round) = Some c" "client_wf c" by (auto simp: evolves_def)
  from snapshot_eq [OF client_wf_slots [OF c(2)] client_wf_quota [OF c(2)], of "periods c"] c(1) obtain m where
    m: "to_write demo_cal demo_round = Some m" by (auto simp: to_write_def demo_round_def)
  have "\<forall>r \<in> set ?rounds. \<forall>m'. to_write demo_cal r = Some m' \<longrightarrow>
      serde_roundtrip (\<lambda>_. Some ''{}'') (\<lambda>_. Some m) m'"
    using m by (simp add: serde_roundtrip_def)
  from usage_file_age_bounded [OF on_the_grid _ _ rounds this, where pid = 7 and started = 0 and k = 0 and fs = "\<lambda>_. None"] obtain runs where
    runs: "start_disk_flusher demo_cal (\<lambda>_. Some ''{}'') 7 on_the_grid 0 0 (\<lambda>_. None) ?rounds = Some runs" and
    age: "\<And>t view. t < ended (last runs) \<Longrightarrow> view \<in> set (files_at (\<lambda>_. None) runs t) \<Longrightarrow>
      t \<le> 61 * 10 ^ 9 \<or> (\<exists>i < 2. \<exists>m'. to_write demo_cal (?rounds ! i) = Some m' \<and> restore (\<lambda>_. Some m) True view = Inr m')"
    by (simp add: FLUSH_PERIOD_def numeral_2_eq_2) blast
  have "map (\<lambda>f. (begun f, ended f)) runs = tick_rounds on_the_grid (60 * 10 ^ 9) 0 [10 ^ 9, 10 ^ 9]"
    using flusher_loop_rounds [OF runs [unfolded start_disk_flusher_def]] by (simp add: demo_round_def FLUSH_PERIOD_def)
  then have "ended (last runs) = 121 * 10 ^ 9"
    by (simp add: on_the_grid_def FLUSH_PERIOD_def Let_def map_eq_Cons_conv) auto
  then have "\<exists>i < 2. \<exists>m'. to_write demo_cal (?rounds ! i) = Some m' \<and> restore (\<lambda>_. Some m) True view = Inr m'"
    if "view \<in> set (files_at (\<lambda>_. None) runs (100 * 10 ^ 9))" for view
    using age [OF _ that] by simp
  then have "\<forall>view \<in> set (files_at (\<lambda>_. None) runs (100 * 10 ^ 9)). restore (\<lambda>_. Some m) True view = Inr m"
    using m by (fastforce simp: less_2_cases_iff)
  with m runs show ?thesis by blast
qed

end
