(* ===== verification/Spec2Isabelle.thy ===== *)
theory Spec2Isabelle
  imports System Ledger Flusher_Race Lifecycle Mock_Node Write_Race Shutdown_Race Node_Race Route_Timing Ticker
begin

text \<open>
  CascadeRPC is a load balancer for JSON-RPC: it takes a client request, offers it to a list of
  upstream nodes in order of tier and latency, bills the method's price against the monthly quota of
  the node that gets it, retries on failures, and keeps the spend on disk across restarts. This
  development models the Rust sources under \<open>src/src\<close> and proves what makes them correct.

  \<^bold>\<open>Parts and how they interact.\<close> A request enters through \<open>server.rs\<close>, \<open>core/router.rs\<close> finds the
  method name, resolves it to an id (\<open>protocol/registry.rs\<close> over \<open>protocol/methods.rs\<close>) and walks the
  published topology (\<open>core/topology.rs\<close>). A node (\<open>core/node.rs\<close>) admits it by a permit and a
  rate-limit token, its cost table (\<open>protocol/cost_table.rs\<close>) prices it, a counter
  (\<open>quotas/state.rs\<close>) is billed, and \<open>core/upstream.rs\<close> makes the attempt and reads the answer, which
  changes the node's latency average or its penalty. In the background \<open>core/ranking.rs\<close> republishes
  the order once a second, the flusher of \<open>main.rs\<close> rolls billing periods over (\<open>quotas/period.rs\<close>)
  and writes the usage file (\<open>quotas/persistence.rs\<close>) once a minute, and \<open>core/reload.rs\<close> rebuilds the
  node set from the configuration (\<open>provider/load_config.rs\<close>, \<open>provider/pricing_parser.rs\<close>) on SIGHUP.
  All of them share one client (\<open>core/rpc.rs\<close>).

  \<^bold>\<open>Theories.\<close>
  \<^item> \<open>Prelude\<close>: machine integers, the pieces of the standard library the sources use, reachable
    states, the locale \<open>invariant_machine\<close>, and \<open>event_refinement\<close> for machines whose steps are events of an
    abstract state.
  \<^item> \<open>Metrics\<close> (\<open>metrics.rs\<close>): the label tables and the operations performed on the recorder, as a list.
  \<^item> \<open>Methods\<close>, \<open>Registry\<close>, \<open>Cost_Table\<close>, \<open>Rpc_Payload\<close> (\<open>protocol/\<close>): built-in names, interning (locale
    \<open>method_interner\<close>), price tables against the price list they are compiled from, payload types.
  \<^item> \<open>Quota_State\<close>, \<open>Period\<close>, \<open>Persistence\<close> (\<open>quotas/\<close>): the counters (locale \<open>counter_bank\<close>), billing
    periods against the reset dates of a calendar, snapshots and the atomic replacement of the usage file.
  \<^item> \<open>File_System\<close>, \<open>Writer\<close>, \<open>Write_Race\<close> (\<open>quotas/persistence.rs\<close>): a file system with inodes that can
    crash, one writer of the usage file at the granularity of its system calls, which alone refines the
    write of \<open>Persistence\<close>, and any number of them in any order.
  \<^item> \<open>Node\<close>, \<open>Topology\<close>, \<open>Upstream\<close>, \<open>Rpc_Client\<close> (\<open>core/\<close>): a node and its admission, latency and
    penalty; ranking (locale \<open>stable_ranking\<close>) and the assignment of quota slots, which refines a map
    from names to spend; one attempt; the shared state with its invariant \<^const>\<open>client_wf\<close>.
  \<^item> \<open>Router\<close>, \<open>Routing\<close>, \<open>Route_Execution\<close> (\<open>core/router.rs\<close>): the model of the routing loop, the effect of
    each of its steps, and its properties over whole executions among other tasks.
  \<^item> \<open>Node_Race\<close> (\<open>core/router.rs\<close>, \<open>core/node.rs\<close>): booking and latency average at the granularity of their
    atomics, the booking on all the cells a slot has over reloads, each with permits of its own; and what a
    reload and a second failure do to a request and a penalty under way.
  \<^item> \<open>Route_Timing\<close> (\<open>core/router.rs\<close>, \<open>core/upstream.rs\<close>): the routing loop with a clock, the budget of a request
    and the deadline of an attempt, for a request whose client stays connected.
  \<^item> \<open>Provider\<close> (\<open>provider/\<close>): substitution of environment variables against a reference on tokens,
    normalisation, price files, construction of the nodes.
  \<^item> \<open>Balancer\<close> (\<open>main.rs\<close>, \<open>server.rs\<close>, \<open>core/reload.rs\<close>): startup, flusher tick, reload, handlers.
  \<^item> \<open>System\<close>: requests and background tasks interleaved in any order, with the invariant that joins them.
  \<^item> \<open>Ledger\<close>: an account book, the abstract specification of the billing, and the proof that the process
    of \<open>System\<close> refines it step by step.
  \<^item> \<open>Flusher_Race\<close> (\<open>main.rs\<close>): one tick of the flusher, node by node, among requests and reloads.
  \<^item> \<open>Lifecycle\<close> (\<open>server.rs\<close>, \<open>main.rs\<close>): routes, signals, drain and the last flush around \<open>System\<close>,
    and the start of the next process on the file that is left.
  \<^item> \<open>Shutdown_Race\<close> (\<open>main.rs\<close>, \<open>quotas/persistence.rs\<close>): the end of \<open>Lifecycle\<close> with the write of the last
    flush and the one of the periodic flusher, which is not stopped, call by call.
  \<^item> \<open>Ticker\<close> (\<open>main.rs\<close>, \<open>core/ranking.rs\<close>): the two background loops against a clock, the one of the
    flusher with the usage file that can be seen at every moment.
  \<^item> \<open>Mock_Node\<close> (\<open>bin/mock_node.rs\<close>): the mock upstreams, and what the balancer makes of their answers.

  \<^bold>\<open>How state and code correspond.\<close> Rust structs are records and enums datatypes with the same
  constructors; \<open>u8\<close> to \<open>u64\<close> are words of that width, \<open>usize\<close> is \<^typ>\<open>nat\<close>, a byte is a \<^typ>\<open>char\<close>, a
  \<open>Duration\<close> or \<open>Instant\<close> a number of nanoseconds. An \<open>Arc\<close> of a node is an index into \<^const>\<open>cells\<close>, a
  list that only grows, so that a request keeps the nodes of the topology it loaded over a reload. A
  fallible function returns a sum with its error on the left; an index or shift out of range, which
  would panic, is \<^const>\<open>None\<close> or the program counter \<^const>\<open>Panicked\<close>, and is proved unreachable. Clock
  readings, answers of the network, of the file system and of the environment are arguments.

  \<^bold>\<open>Libraries\<close> that are not part of the repository are parameters with named assumptions: the tokio
  semaphore (\<^const>\<open>semaphore_ok\<close>), the governor limiter (\<^const>\<open>limiter_ok\<close>), the calendar of the time crate
  (\<^const>\<open>calendar_ok\<close>, with a Gregorian instance), \<open>memchr\<close> (\<^const>\<open>memchr2_ok\<close>), JSON serialisation
  (\<^const>\<open>serde_roundtrip\<close>), the interval of tokio (\<^const>\<open>skips_missed\<close>), \<open>Url::parse\<close>, the \<open>config\<close>
  crate and the HTTP client.

  \<^bold>\<open>Granularity.\<close> Between two awaits a task is not preempted by its own executor thread, but other
  threads run: in \<open>System\<close> one iteration of the walk over the nodes is one step, and so is a critical
  section under \<open>topology_lock\<close> or under the lock of the periods, a rollover and a write of the usage file.
  What a step hides is proved separately: \<open>Node_Race\<close> splits the booking into its load and its addition and
  the average into its loads and stores, \<open>Flusher_Race\<close> a tick into its three loads of the topology and its
  work on each node (each with the fact that the steps in a row are the one step), and \<open>Write_Race\<close> the
  write into its system calls. The last flush of \<open>Lifecycle\<close> is one step too, which is right while no
  periodic write is under way; \<open>Shutdown_Race\<close> interleaves the two. A waiter for a permit is not modelled as
  first in a queue: a free permit may go to any request that asks, which adds executions and removes none.
  The ranking reads its keys from one state. A \<open>Relaxed\<close> counter addition is atomic, as it is in Rust; the
  model is sequentially consistent.

  \<^bold>\<open>Termination and bounds.\<close> The routing loop is a step function, so it needs no fuel: \<^const>\<open>route_measure\<close>
  bounds the steps between two waits, and at most 64 slots can be tried. \<^const>\<open>run_go\<close>, which iterates it for
  the theorem on the best node, takes a number of steps that the theorem produces. The loop of
  \<^const>\<open>resolve_env\<close> terminates by the length of its input, and a writer by \<^const>\<open>calls_left\<close>: as many
  calls as its snapshot has bytes, and five. With a clock, a request is answered within one second.

  \<^bold>\<open>What the lemmas show.\<close> In every interleaving, permits are neither leaked nor invented, so a node's
  concurrency cap holds; every attempt is billed exactly once and a slot is tried at most once per
  request, and the counters of the whole process are an account book: each is the sum of the attempts
  made on its slot since it was last set to zero; a slot that refused is not asked again; a 502 means that
  nothing was left to try; penalties are honoured until a request fails open. The quota overshoot of racing
  bookings is bounded by the permits that exist at one time, over reloads as well; an attempt that begins in the first half of the budget always reaches its verdict. A reload keeps the
  spend, the latency and the penalty of every surviving node, or changes nothing. A rollover resets a
  counter exactly once per period. A tick is right about every node that stays published, whatever
  happens in between. The usage file is never torn, however many writers with names of their own write it and
  wherever a crash hits; while the flushes succeed it is never older than a minute and one round; and a graceful
  shutdown writes the final counters, from which the next process starts, unless a periodic write that was
  under way lands after it. Price tables, method scan and variable substitution agree with their
  reference definitions. Nine facts record where the code does not do what it means to or what its
  documentation says: \<open>late_custom_method_loses_fallback\<close>, \<open>short_plain_text_failure_is_retried\<close>,
  \<open>brace_reference_refused\<close>, \<open>new_node_spend_lost_at_shutdown\<close>, \<open>in_flight_attempt_bills_the_heir\<close>,
  \<open>stale_view_reads_heir\<close>, \<open>stale_flush_overwrites_newer\<close>, \<open>equal_process_ids_tear_the_file\<close> and
  \<open>later_failure_shortens_cooldown\<close>.

  \<^bold>\<open>Not modelled.\<close> Log lines and the tracing setup, the TCP listeners, connection pooling and TLS of the
  HTTP client, the conversion of durations to floating-point seconds in the exporter, and weak memory
  orderings. In \<open>System\<close> a tick may happen at any moment, which covers every schedule; \<open>Ticker\<close> says when.
\<close>

end
